(* ===== verification/Prelude.thy ===== *)
theory Prelude
  imports Main "HOL-Library.Word"
begin

text \<open>
  The shared vocabulary of the development: bytes and byte buffers (the memory that the C
  code of Redis reads and writes through \<open>memcpy\<close>, \<open>memmove\<close> and pointer casts),
  little endian and big endian integers inside such buffers, two's complement ranges,
  the lemma collections the component theories extend, and the interface locales that
  more than one component implements.
\<close>

section \<open>Lemma collections\<close>

named_theorems buf_simps \<open>reading and writing byte buffers\<close>
named_theorems range_simps \<open>unfolding of machine integer ranges\<close>

section \<open>Bytes and buffers\<close>

type_synonym byte = "8 word"
type_synonym bytes = "8 word list"

text \<open>
  \<open>buf_read p n m\<close> are the \<open>n\<close> bytes of \<open>m\<close> from offset \<open>p\<close>;
  \<open>buf_write p bs m\<close> is \<open>m\<close> after \<open>memcpy(m+p,bs,|bs|)\<close>;
  \<open>memmove_buf d s n m\<close> is \<open>m\<close> after \<open>memmove(m+d,m+s,n)\<close>, which reads its whole
  source before it writes.
  A buffer that \<open>realloc\<close> enlarges gets bytes the C standard leaves unspecified: they are
  given by the function \<open>junk\<close>, from the offset to the byte found there.
\<close>

definition buf_read :: "nat \<Rightarrow> nat \<Rightarrow> bytes \<Rightarrow> bytes" where
  "buf_read p n m = take n (drop p m)"

definition buf_write :: "nat \<Rightarrow> bytes \<Rightarrow> bytes \<Rightarrow> bytes" where
  "buf_write p bs m = take p m @ bs @ drop (p + length bs) m"

definition memmove_buf :: "nat \<Rightarrow> nat \<Rightarrow> nat \<Rightarrow> bytes \<Rightarrow> bytes" where
  "memmove_buf d s n m = buf_write d (buf_read s n m) m"

definition realloc_buf :: "(nat \<Rightarrow> byte) \<Rightarrow> nat \<Rightarrow> bytes \<Rightarrow> bytes" where
  "realloc_buf junk n m = take n m @ map junk [length m..<n]"

text \<open>A C string ends before its first NUL; reading at its end gives the NUL.\<close>

definition cstr :: "bytes \<Rightarrow> bytes" where
  "cstr str = takeWhile (\<lambda>b. b \<noteq> 0) str"

definition pat_at :: "bytes \<Rightarrow> nat \<Rightarrow> byte" where
  "pat_at p i = (if i < length p then p ! i else 0)"

lemma length_buf_read [simp, buf_simps]:
  "p + n \<le> length m \<Longrightarrow> length (buf_read p n m) = n"
  by (simp add: buf_read_def)

lemma length_buf_write [simp, buf_simps]:
  "p + length bs \<le> length m \<Longrightarrow> length (buf_write p bs m) = length m"
  by (simp add: buf_write_def)

lemma length_realloc_buf [simp, buf_simps]: "length (realloc_buf junk n m) = n"
  by (simp add: realloc_buf_def min_def)

lemma length_memmove_buf [simp, buf_simps]:
  "d + n \<le> length m \<Longrightarrow> s + n \<le> length m \<Longrightarrow> length (memmove_buf d s n m) = length m"
  by (simp add: memmove_buf_def)

lemma nth_buf_read [simp]:
  "i < n \<Longrightarrow> p + i < length m \<Longrightarrow> buf_read p n m ! i = m ! (p + i)"
  by (simp add: buf_read_def)

lemma nth_buf_write:
  assumes "p + length bs \<le> length m" and "i < length m"
  shows "buf_write p bs m ! i = (if p \<le> i \<and> i < p + length bs then bs ! (i - p) else m ! i)"
  using assms by (auto simp: buf_write_def nth_append min_def)

lemma buf_read_write_same [simp, buf_simps]:
  "p + length bs \<le> length m \<Longrightarrow> buf_read p (length bs) (buf_write p bs m) = bs"
  by (simp add: buf_read_def buf_write_def)

lemma buf_read_write_eq:
  "p + length bs \<le> length m \<Longrightarrow> n = length bs \<Longrightarrow> buf_read p n (buf_write p bs m) = bs"
  by simp

lemma buf_read_eqI:
  assumes "p + n \<le> length m" and "q + n \<le> length m'"
    and "\<And>i. i < n \<Longrightarrow> m ! (p + i) = m' ! (q + i)"
  shows "buf_read p n m = buf_read q n m'"
  using assms by (intro nth_equalityI) auto

lemma buf_read_write_other [buf_simps]:
  assumes "p + length bs \<le> length m" and "q + n \<le> length m"
    and "q + n \<le> p \<or> p + length bs \<le> q"
  shows "buf_read q n (buf_write p bs m) = buf_read q n m"
  using assms by (intro buf_read_eqI) (auto simp: nth_buf_write)

lemma buf_read_realloc [buf_simps]:
  assumes "q + n \<le> length m" and "q + n \<le> k"
  shows "buf_read q n (realloc_buf junk k m) = buf_read q n m"
  using assms by (intro buf_read_eqI) (auto simp: realloc_buf_def nth_append)

lemma nth_memmove_buf:
  assumes "d + n \<le> length m" and "s + n \<le> length m" and "i < length m"
  shows "memmove_buf d s n m ! i = (if d \<le> i \<and> i < d + n then m ! (s + (i - d)) else m ! i)"
  using assms by (auto simp: memmove_buf_def nth_buf_write)

lemma buf_read_memmove_inside [buf_simps]:
  assumes "d + n \<le> length m" and "s + n \<le> length m" and "d \<le> q" and "q + k \<le> d + n"
  shows "buf_read q k (memmove_buf d s n m) = buf_read (s + (q - d)) k m"
  using assms by (intro buf_read_eqI) (auto simp: nth_memmove_buf add.assoc)

lemma buf_read_memmove_outside [buf_simps]:
  assumes "d + n \<le> length m" and "s + n \<le> length m" and "q + k \<le> length m"
    and "q + k \<le> d \<or> d + n \<le> q"
  shows "buf_read q k (memmove_buf d s n m) = buf_read q k m"
  using assms by (intro buf_read_eqI) (auto simp: nth_memmove_buf)

section \<open>Integers in byte buffers\<close>

text \<open>
  \<open>le_bytes n v\<close> is the unsigned integer \<open>v\<close> truncated to \<open>n\<close> bytes and stored
  least significant byte first, \<open>le_nat\<close> reads such a sequence back.  \<open>be_bytes\<close> and
  \<open>be_nat\<close> are the network order versions.
\<close>

primrec le_nat :: "bytes \<Rightarrow> nat" where
  "le_nat [] = 0"
| "le_nat (b # bs) = unat b + 256 * le_nat bs"

primrec le_bytes :: "nat \<Rightarrow> nat \<Rightarrow> bytes" where
  "le_bytes 0 v = []"
| "le_bytes (Suc n) v = word_of_nat v # le_bytes n (v div 256)"

definition be_nat :: "bytes \<Rightarrow> nat" where
  "be_nat bs = le_nat (rev bs)"

definition be_bytes :: "nat \<Rightarrow> nat \<Rightarrow> bytes" where
  "be_bytes n v = rev (le_bytes n v)"

lemma length_le_bytes [simp]: "length (le_bytes n v) = n"
  by (induction n arbitrary: v) auto

lemma length_be_bytes [simp]: "length (be_bytes n v) = n"
  by (simp add: be_bytes_def)

lemma unat_byte_of_nat [simp]: "unat (word_of_nat v :: byte) = v mod 256"
  by (simp add: unat_of_nat)

lemma unat_byte_less: "unat (b :: byte) < 256"
  using unsigned_less [of b] by simp

lemma le_nat_le_bytes: "le_nat (le_bytes n v) = v mod 256 ^ n"
  by (induction n arbitrary: v) (auto simp: mod_mult2_eq)

lemma le_nat_bound: "le_nat bs < 256 ^ length bs"
proof (induction bs)
  case (Cons b bs)
  with unat_byte_less [of b] show ?case by simp
qed simp

lemma le_bytes_le_nat: "le_bytes (length bs) (le_nat bs) = bs"
proof (induction bs)
  case (Cons b bs)
  have "unat b < 256" by (rule unat_byte_less)
  then have "(unat b + 256 * le_nat bs) div 256 = le_nat bs" by simp
  moreover have "(word_of_nat (unat b + 256 * le_nat bs) :: byte) = b"
    by (rule unsigned_word_eqI [where ?'a = nat]) 
       (use \<open>unat b < 256\<close> in \<open>simp only: unat_byte_of_nat, simp\<close>)
  ultimately show ?case using Cons by simp
qed simp

lemma be_nat_be_bytes: "be_nat (be_bytes n v) = v mod 256 ^ n"
  by (simp add: be_nat_def be_bytes_def le_nat_le_bytes)

lemma be_nat_bound: "be_nat bs < 256 ^ length bs"
  using le_nat_bound [of "rev bs"] by (simp add: be_nat_def)

section \<open>Signed machine integers\<close>

text \<open>
  A signed C integer of \<open>w\<close> bits is an \<^typ>\<open>int\<close> in the range \<open>in_sint w\<close>, an
  unsigned one in \<open>in_uint w\<close>.  \<open>to_uint w\<close> is the conversion of any integer to the
  unsigned type of \<open>w\<close> bits and \<open>to_sint w\<close> the (two's complement) conversion to the
  signed type.
\<close>

definition in_sint :: "nat \<Rightarrow> int \<Rightarrow> bool" where
  "in_sint w v \<longleftrightarrow> - (2 ^ (w - 1)) \<le> v \<and> v < 2 ^ (w - 1)"

definition in_uint :: "nat \<Rightarrow> int \<Rightarrow> bool" where
  "in_uint w v \<longleftrightarrow> 0 \<le> v \<and> v < 2 ^ w"

definition to_uint :: "nat \<Rightarrow> int \<Rightarrow> nat" where
  "to_uint w v = nat (v mod 2 ^ w)"

definition to_sint :: "nat \<Rightarrow> nat \<Rightarrow> int" where
  "to_sint w u = (let r = u mod 2 ^ w in if r < 2 ^ (w - 1) then int r else int r - 2 ^ w)"

lemmas [range_simps] = in_sint_def in_uint_def

lemma to_uint_less: "to_uint w v < 2 ^ w"
  by (simp add: to_uint_def nat_less_iff)

lemma to_sint_in_sint:
  assumes "0 < w" shows "in_sint w (to_sint w u)"
proof -
  obtain k where w: "w = Suc k" using assms by (cases w) auto
  have "u mod 2 ^ w < 2 ^ w" by simp
  then have "int (u mod 2 ^ w) < 2 ^ w" by (metis of_nat_less_iff of_nat_numeral of_nat_power)
  moreover have "\<not> u mod 2 ^ w < 2 ^ k \<Longrightarrow> 2 ^ k \<le> int (u mod 2 ^ w)"
    by (metis not_less of_nat_le_iff of_nat_numeral of_nat_power)
  moreover have "u mod 2 ^ w < 2 ^ k \<Longrightarrow> int (u mod 2 ^ w) < 2 ^ k"
    by (metis of_nat_less_iff of_nat_numeral of_nat_power)
  ultimately show ?thesis
    by (auto simp: in_sint_def to_sint_def Let_def w)
qed

lemma to_sint_to_uint:
  assumes "in_sint w v" and "0 < w"
  shows "to_sint w (to_uint w v) = v"
proof -
  obtain k where w: "w = Suc k" using assms(2) by (cases w) auto
  have r: "- (2 ^ k) \<le> v" "v < 2 ^ k" using assms(1) by (auto simp: in_sint_def w)
  show ?thesis
  proof (cases "0 \<le> v")
    case True
    then have "v mod 2 ^ w = v" using r by (simp add: w)
    with True r show ?thesis
      by (simp add: to_sint_def to_uint_def Let_def w nat_less_iff)
  next
    case False
    have "v mod 2 ^ w = (v + 2 ^ w) mod 2 ^ w" by simp
    also have "\<dots> = v + 2 ^ w"
      using False r by (intro mod_pos_pos_trivial) (auto simp: w)
    finally have m: "v mod 2 ^ w = v + 2 ^ w" .
    have "to_uint w v = nat (v + 2 ^ w)" by (simp add: to_uint_def m)
    moreover have "\<not> nat (v + 2 ^ w) < 2 ^ k"
      using r by (simp add: w nat_less_iff)
    moreover have "nat (v + 2 ^ w) < 2 ^ w"
      using False r by (simp add: nat_less_iff)
    ultimately show ?thesis
      using False r by (simp add: to_sint_def Let_def w)
  qed
qed

lemma in_sint_mono: "in_sint w v \<Longrightarrow> 0 < w \<Longrightarrow> w \<le> w' \<Longrightarrow> in_sint w' v"
proof -
  assume a: "in_sint w v" "0 < w" "w \<le> w'"
  have "(2::int) ^ (w - 1) \<le> 2 ^ (w' - 1)" using a by (intro power_increasing) auto
  moreover have "- (2 ^ (w - 1)) \<le> v" "v < 2 ^ (w - 1)" using a(1) by (auto simp: in_sint_def)
  ultimately show ?thesis unfolding in_sint_def by linarith
qed

end
