(* ===== verification/Procurement.thy ===== *)
theory Procurement
  imports Prelude
begin

text \<open>The contracts of \<open>truffle/contracts\<close>: the storage of \<open>Procurement.sol\<close> with its events and
  every function, and \<open>ItemToken.sol\<close> over the base contract it inherits.  A Solidity mapping is a
  total function whose untouched entries are the zero value of the type, so an update of an entry
  nobody wrote succeeds.  The log of events is part of the state: the last part of the theory shows
  that the storage is what a client rebuilds from the log alone.\<close>

section \<open>Storage\<close>

type_synonym uint = "256 word"
type_synonym address = "160 word"

record PO =
  po_supplierId :: string
  po_itemType :: uint
  po_qty :: uint
  po_uom :: string
  po_status :: string

record Invoice =
  inv_poId :: uint
  inv_supplierId :: string
  inv_itemType :: uint
  inv_qty :: uint
  inv_uom :: string
  inv_price :: uint
  inv_status :: string

datatype log_event =
    LogIssuedPO uint string uint uint string string
  | LogIssuedInvoice uint uint string uint uint string uint string
  | LogUpdatePOStatus uint string
  | LogUpdateInvoiceStatus uint string

record procurement_storage =
  pos :: "uint \<Rightarrow> PO"
  invoices :: "uint \<Rightarrow> Invoice"
  poArray :: "uint list"
  invoiceArray :: "uint list"
  logs :: "log_event list"

definition zero_PO :: PO where
  "zero_PO = \<lparr>po_supplierId = [], po_itemType = 0, po_qty = 0, po_uom = [], po_status = []\<rparr>"

definition zero_Invoice :: Invoice where
  "zero_Invoice = \<lparr>inv_poId = 0, inv_supplierId = [], inv_itemType = 0, inv_qty = 0, inv_uom = [],
    inv_price = 0, inv_status = []\<rparr>"

definition deployed :: procurement_storage where
  "deployed = \<lparr>pos = (\<lambda>_. zero_PO), invoices = (\<lambda>_. zero_Invoice), poArray = [], invoiceArray = [],
    logs = []\<rparr>"

section \<open>Functions of the contract\<close>

definition issuePO :: "uint \<Rightarrow> string \<Rightarrow> uint \<Rightarrow> uint \<Rightarrow> string \<Rightarrow> string \<Rightarrow>
    procurement_storage \<Rightarrow> procurement_storage" where
  "issuePO poId supplier itemType qty uom stat s = s
     \<lparr>pos := (pos s)(poId := \<lparr>po_supplierId = supplier, po_itemType = itemType, po_qty = qty,
        po_uom = uom, po_status = stat\<rparr>),
      poArray := poArray s @ [poId],
      logs := logs s @ [LogIssuedPO poId supplier itemType qty uom stat]\<rparr>"

definition issueInvoice :: "uint \<Rightarrow> uint \<Rightarrow> string \<Rightarrow> uint \<Rightarrow> uint \<Rightarrow> string \<Rightarrow> uint \<Rightarrow> string \<Rightarrow>
    procurement_storage \<Rightarrow> procurement_storage" where
  "issueInvoice invoiceId poId supplier itemType qty uom price stat s = s
     \<lparr>invoices := (invoices s)(invoiceId := \<lparr>inv_poId = poId, inv_supplierId = supplier,
        inv_itemType = itemType, inv_qty = qty, inv_uom = uom, inv_price = price, inv_status = stat\<rparr>),
      invoiceArray := invoiceArray s @ [invoiceId],
      logs := logs s @ [LogIssuedInvoice invoiceId poId supplier itemType qty uom price stat]\<rparr>"

definition updatePOStatus :: "uint \<Rightarrow> string \<Rightarrow> procurement_storage \<Rightarrow> procurement_storage" where
  "updatePOStatus poId stat s = s
     \<lparr>pos := (pos s)(poId := (pos s poId)\<lparr>po_status := stat\<rparr>),
      logs := logs s @ [LogUpdatePOStatus poId stat]\<rparr>"

definition updateInvoiceStatus :: "uint \<Rightarrow> string \<Rightarrow> procurement_storage \<Rightarrow> procurement_storage" where
  "updateInvoiceStatus invoiceId stat s = s
     \<lparr>invoices := (invoices s)(invoiceId := (invoices s invoiceId)\<lparr>inv_status := stat\<rparr>),
      logs := logs s @ [LogUpdateInvoiceStatus invoiceId stat]\<rparr>"

definition getPOById :: "uint \<Rightarrow> procurement_storage \<Rightarrow> string \<times> uint \<times> uint \<times> string \<times> string" where
  "getPOById poId s = (po_supplierId (pos s poId), po_itemType (pos s poId), po_qty (pos s poId),
     po_uom (pos s poId), po_status (pos s poId))"

definition getInvoiceById :: "uint \<Rightarrow> procurement_storage \<Rightarrow>
    uint \<times> string \<times> uint \<times> uint \<times> string \<times> uint \<times> string" where
  "getInvoiceById invoiceId s = (inv_poId (invoices s invoiceId), inv_supplierId (invoices s invoiceId),
     inv_itemType (invoices s invoiceId), inv_qty (invoices s invoiceId), inv_uom (invoices s invoiceId),
     inv_price (invoices s invoiceId), inv_status (invoices s invoiceId))"

definition getPOList :: "procurement_storage \<Rightarrow> uint list" where
  "getPOList s = poArray s"

definition countPOList :: "procurement_storage \<Rightarrow> uint" where
  "countPOList s = word_of_nat (length (poArray s))"

definition getInvoiceList :: "procurement_storage \<Rightarrow> uint list" where
  "getInvoiceList s = invoiceArray s"

definition countInvoiceList :: "procurement_storage \<Rightarrow> uint" where
  "countInvoiceList s = word_of_nat (length (invoiceArray s))"

section \<open>The item token\<close>

text \<open>\<open>ItemToken\<close> inherits the ERC721 of OpenZeppelin, whose state \<open>'t\<close> and whose \<open>_mint\<close> are
  parameters; \<open>_mint\<close> reverts by \<open>None\<close>, which also undoes the write of the metadata.\<close>

record Item =
  item_itemType :: uint
  item_uom :: string
  item_qty :: uint
  item_price :: uint

record 't item_token =
  erc721 :: 't
  itemMetadata :: "uint \<Rightarrow> Item"

definition mint :: "(address \<Rightarrow> uint \<Rightarrow> 't \<Rightarrow> 't option) \<Rightarrow> address \<Rightarrow> uint \<Rightarrow> 't item_token \<Rightarrow> 't item_token option" where
  "mint base_mint sender tokenId s = (case base_mint sender tokenId (erc721 s) of
     None \<Rightarrow> None
   | Some e \<Rightarrow> Some (s\<lparr>erc721 := e\<rparr>))"

definition mintWithItemData :: "(address \<Rightarrow> uint \<Rightarrow> 't \<Rightarrow> 't option) \<Rightarrow> address \<Rightarrow> uint \<Rightarrow> uint \<Rightarrow> string \<Rightarrow> uint \<Rightarrow> uint \<Rightarrow>
    't item_token \<Rightarrow> 't item_token option" where
  "mintWithItemData base_mint sender tokenId itemType uom qty price s =
     (case base_mint sender tokenId (erc721 s) of
        None \<Rightarrow> None
      | Some e \<Rightarrow> Some (s\<lparr>erc721 := e, itemMetadata := (itemMetadata s)(tokenId :=
          \<lparr>item_itemType = itemType, item_uom = uom, item_qty = qty, item_price = price\<rparr>)\<rparr>))"

definition getMetadata :: "uint \<Rightarrow> 't item_token \<Rightarrow> uint \<times> uint \<times> string \<times> uint" where
  "getMetadata tokenId s = (item_itemType (itemMetadata s tokenId), item_qty (itemMetadata s tokenId),
     item_uom (itemMetadata s tokenId), item_price (itemMetadata s tokenId))"

section \<open>The storage is determined by the log\<close>

text \<open>The transactions anybody can send to the contract, and their execution.\<close>

datatype transaction =
    Tx_issuePO uint string uint uint string string
  | Tx_issueInvoice uint uint string uint uint string uint string
  | Tx_updatePOStatus uint string
  | Tx_updateInvoiceStatus uint string

fun execute :: "transaction \<Rightarrow> procurement_storage \<Rightarrow> procurement_storage" where
  "execute (Tx_issuePO i a b c d e) s = issuePO i a b c d e s"
| "execute (Tx_issueInvoice i p a b c d e f) s = issueInvoice i p a b c d e f s"
| "execute (Tx_updatePOStatus i st) s = updatePOStatus i st s"
| "execute (Tx_updateInvoiceStatus i st) s = updateInvoiceStatus i st s"

text \<open>What a client that sees only the log knows of an order and of an invoice: the fields of the
  latest issue, with the latest status written after it.\<close>

fun po_of_log :: "uint \<Rightarrow> log_event list \<Rightarrow> PO" where
  "po_of_log i [] = zero_PO"
| "po_of_log i (e # newer_first) = (case e of
     LogIssuedPO j a b c d st \<Rightarrow>
       if i = j then \<lparr>po_supplierId = a, po_itemType = b, po_qty = c, po_uom = d, po_status = st\<rparr>
       else po_of_log i newer_first
   | LogUpdatePOStatus j st \<Rightarrow>
       if i = j then (po_of_log i newer_first)\<lparr>po_status := st\<rparr> else po_of_log i newer_first
   | _ \<Rightarrow> po_of_log i newer_first)"

fun invoice_of_log :: "uint \<Rightarrow> log_event list \<Rightarrow> Invoice" where
  "invoice_of_log i [] = zero_Invoice"
| "invoice_of_log i (e # newer_first) = (case e of
     LogIssuedInvoice j p a b c d f st \<Rightarrow>
       if i = j then \<lparr>inv_poId = p, inv_supplierId = a, inv_itemType = b, inv_qty = c, inv_uom = d,
         inv_price = f, inv_status = st\<rparr>
       else invoice_of_log i newer_first
   | LogUpdateInvoiceStatus j st \<Rightarrow>
       if i = j then (invoice_of_log i newer_first)\<lparr>inv_status := st\<rparr> else invoice_of_log i newer_first
   | _ \<Rightarrow> invoice_of_log i newer_first)"

fun issued_po :: "log_event \<Rightarrow> uint list" where
  "issued_po (LogIssuedPO i _ _ _ _ _) = [i]"
| "issued_po _ = []"

fun issued_invoice :: "log_event \<Rightarrow> uint list" where
  "issued_invoice (LogIssuedInvoice i _ _ _ _ _ _ _) = [i]"
| "issued_invoice _ = []"

definition replay :: "log_event list \<Rightarrow> procurement_storage" where
  "replay es = \<lparr>pos = (\<lambda>i. po_of_log i (rev es)), invoices = (\<lambda>i. invoice_of_log i (rev es)),
     poArray = concat (map issued_po es), invoiceArray = concat (map issued_invoice es), logs = es\<rparr>"

lemmas contract_defs = issuePO_def issueInvoice_def updatePOStatus_def updateInvoiceStatus_def

lemma replay_deployed: "replay [] = deployed"
  by (simp add: replay_def deployed_def)

lemma execute_replay:
  assumes "replay (logs s) = s"
  shows "replay (logs (execute tx s)) = execute tx s"
proof -
  have f: "pos s = (\<lambda>i. po_of_log i (rev (logs s)))" "invoices s = (\<lambda>i. invoice_of_log i (rev (logs s)))"
    "poArray s = concat (map issued_po (logs s))" "invoiceArray s = concat (map issued_invoice (logs s))"
    using assms by (simp_all add: replay_def) (metis procurement_storage.select_convs)+
  show ?thesis
    by (cases tx) (simp_all add: contract_defs replay_def f fun_eq_iff procurement_storage.equality)
qed

text \<open>C35. Whatever transactions are sent to the Procurement contract after its deployment, its whole
  storage can be rebuilt from the events it logged: each order and invoice read by id has the fields
  of its latest issue with the latest status written since, and the two lists are the issued ids in
  the order of issue.  An update of an id that was never issued is part of this: it creates an entry
  that has a status and is in no list.\<close>

theorem storage_from_events:
  "replay (logs (fold execute txs deployed)) = fold execute txs deployed"
proof -
  have "replay (logs s) = s \<Longrightarrow> replay (logs (fold execute txs s)) = fold execute txs s" for s
    by (induction txs arbitrary: s) (simp_all add: execute_replay)
  then show ?thesis
    by (simp add: deployed_def replay_deployed [unfolded deployed_def])
qed

end
