(* ===== verification/PizzaChain.thy ===== *)
theory PizzaChain
  imports Procurement "HOL-Library.Log_Nat"
begin

text \<open>The service of \<open>pizzaChain-api\<close>: the constants, the clients of the three contracts, the
  procurement table, the functions of \<open>controller.js\<close> and the routes of \<open>apiGatewayController.js\<close>.
  An asynchronous function is an action on the world that ends in a value or in an error and keeps
  what it did before the error.  Every call that leaves the process (a node of the chain, the
  database, the swarm service) asks the environment for its outcome: it may be refused, and it may
  take effect and still fail for the caller.  What lies outside the repository (web3's encoder, the
  coin and the base of the token, mongoose, the swarm endpoint, the clock and the random numbers) is
  a field of the environment.  The requests of one world run one after another.\<close>

section \<open>JavaScript values\<close>

text \<open>The values the service passes around: numbers are the integers a double can hold, \<open>Big\<close> is the
  big number a contract call returns, \<open>Obj\<close> any other object.\<close>

datatype js = Undefined | Bool bool | Num int | Str string | Big uint | Obj

datatype js_error = TypeError | ReferenceError | EncodeError | RemoteError | DatabaseError

fun dec :: "nat \<Rightarrow> string" where
  "dec n = (if n < 10 then [char_of (48 + n)] else dec (n div 10) @ [char_of (48 + n mod 10)])"

declare dec.simps [simp del]

definition dec_int :: "int \<Rightarrow> string" where
  "dec_int i = (if i < 0 then CHR ''-'' # dec (nat (- i)) else dec (nat i))"

definition js_string :: "js \<Rightarrow> string" where
  "js_string v = (case v of Undefined \<Rightarrow> ''undefined'' | Bool b \<Rightarrow> if b then ''true'' else ''false''
     | Num n \<Rightarrow> dec_int n | Str s \<Rightarrow> s | Big w \<Rightarrow> dec (unat w) | Obj \<Rightarrow> ''[object Object]'')"

definition truthy :: "js \<Rightarrow> bool" where
  "truthy v = (case v of Undefined \<Rightarrow> False | Bool b \<Rightarrow> b | Num n \<Rightarrow> n \<noteq> 0 | Str s \<Rightarrow> s \<noteq> []
     | Big w \<Rightarrow> True | Obj \<Rightarrow> True)"

text \<open>The comparison \<open>v == true\<close> converts both sides to numbers; an object becomes its string first.\<close>

definition equals_true :: "js \<Rightarrow> bool" where
  "equals_true v = (case v of Undefined \<Rightarrow> False | Bool b \<Rightarrow> b | Num n \<Rightarrow> n = 1 | Str s \<Rightarrow> s = ''1''
     | Big w \<Rightarrow> w = 1 | Obj \<Rightarrow> False)"

text \<open>\<open>Number(v)\<close> of a natural number, and the result of an addition: rounding to 53 bits, ties to
  even.\<close>

definition js_round :: "nat \<Rightarrow> nat" where
  "js_round n = (let e = floorlog 2 n - 53; q = n div 2 ^ e; r = n mod 2 ^ e in
     (if 2 ^ e < 2 * r \<or> (2 ^ e = 2 * r \<and> odd q) then q + 1 else q) * 2 ^ e)"

definition js_Number :: "uint \<Rightarrow> int" where
  "js_Number w = int (js_round (unat w))"

definition js_add :: "int \<Rightarrow> int \<Rightarrow> int" where
  "js_add a b = (if a + b < 0 then - int (js_round (nat (- (a + b)))) else int (js_round (nat (a + b))))"

text \<open>Reading an element of an array by a property key.\<close>

definition js_index :: "'a list \<Rightarrow> js \<Rightarrow> 'a option" where
  "js_index xs v = map_of (zip (map dec [0..<length xs]) xs) (js_string v)"

definition upper :: "char \<Rightarrow> char" where
  "upper c = (if (97 :: nat) \<le> of_char c \<and> of_char c \<le> (122 :: nat) then char_of (of_char c - 32 :: nat) else c)"

definition toUpperCase :: "string \<Rightarrow> string" where
  "toUpperCase s = map upper s"

section \<open>Constants\<close>

definition itemTypes :: "(string \<times> int) list" where
  "itemTypes = [(''CHEESE'', 1), (''DOUGH'', 2), (''SAUCE'', 3), (''TOPPINGS'', 4)]"

definition ADMIN :: int where
  "ADMIN = 0"

definition account_ids :: "(string \<times> int) list" where
  "account_ids = [(''ADMIN'', ADMIN), (''PIZZACO'', 1), (''CHEESECO'', 2), (''DOUGHCO'', 3)]"

definition js_prop :: "(string \<times> int) list \<Rightarrow> js \<Rightarrow> js" where
  "js_prop obj key = (case map_of obj (js_string key) of Some n \<Rightarrow> Num n | None \<Rightarrow> Undefined)"

definition PO_ISSUED :: string where "PO_ISSUED = ''ISSUED''"
definition PO_ACKNOWLEDGED :: string where "PO_ACKNOWLEDGED = ''ACKNOWLEDGED''"
definition PO_PENDING_DELIVERY :: string where "PO_PENDING_DELIVERY = ''PENDING DELIVERY''"
definition PO_DELIVERED :: string where "PO_DELIVERED = ''DELIVERED''"
definition INVOICE_ISSUED :: string where "INVOICE_ISSUED = ''ISSUED''"
definition INVOICE_PAYMENT_RECEIVED :: string where "INVOICE_PAYMENT_RECEIVED = ''PAYMENT RECEIVED''"
definition INVOICE_COMPLETED :: string where "INVOICE_COMPLETED = ''COMPLETED''"

lemmas status_defs = PO_ISSUED_def PO_ACKNOWLEDGED_def PO_PENDING_DELIVERY_def PO_DELIVERED_def
  INVOICE_ISSUED_def INVOICE_PAYMENT_RECEIVED_def INVOICE_COMPLETED_def

section \<open>Data\<close>

record po_request =
  rq_supplierId :: js
  rq_itemType :: js
  rq_qty :: js
  rq_uom :: js

record po_data =
  pd_poId :: js
  pd_supplierId :: js
  pd_itemType :: js
  pd_qty :: int
  pd_uom :: js
  pd_status :: js

record invoice_data =
  id_invoiceId :: js
  id_poId :: js
  id_supplierId :: js
  id_itemType :: js
  id_qty :: int
  id_uom :: js
  id_price :: int
  id_status :: js

record token_data =
  md_invoiceId :: js
  md_itemType :: js
  md_uom :: js
  md_qty :: js
  md_price :: js

record procurement_row =
  row_transaction_id :: js
  row_supplier_id :: js
  row_po_id :: js
  row_invoice_id :: js
  row_token_id :: js
  row_item_price :: js

datatype row_field = F_transaction_id | F_supplier_id | F_po_id | F_invoice_id | F_token_id | F_item_price

type_synonym row_query = "(row_field \<times> js) list"

record transfer_details =
  transferStatus :: bool
  receipt :: js

datatype 'a body = Body 'a | Null_body | Empty_body

datatype response_error = Err_text string | Err_of js_error

record 'a response =
  resp_code :: int
  resp_message :: string
  resp_data :: "'a body"
  resp_err :: "response_error option"

definition Response :: "int \<Rightarrow> string \<Rightarrow> 'a body \<Rightarrow> response_error option \<Rightarrow> 'a response" where
  "Response c m d e = \<lparr>resp_code = c, resp_message = m, resp_data = d, resp_err = e\<rparr>"

section \<open>The world, its environment, and actions\<close>

datatype call_outcome = Delivered | Flagged | Refused | Lost

record ('c, 't, 'd, 's) env =
  accounts :: "address list"
  coinbase :: address
  encode_uint :: "js \<Rightarrow> uint option"
  encode_string :: "js \<Rightarrow> string option"
  toHex :: "js \<Rightarrow> js option"
  outcome_of :: "nat \<Rightarrow> call_outcome"
  tx_hash :: "nat \<Rightarrow> string"
  clock_random :: "nat \<Rightarrow> nat \<times> string"
  coin_balanceOf :: "'c \<Rightarrow> address \<Rightarrow> uint"
  coin_transfer :: "address \<Rightarrow> address \<Rightarrow> uint \<Rightarrow> 'c \<Rightarrow> 'c option"
  token_mint :: "address \<Rightarrow> uint \<Rightarrow> 't \<Rightarrow> 't option"
  token_ownerOf :: "'t \<Rightarrow> uint \<Rightarrow> address option"
  token_transferFrom :: "address \<Rightarrow> address \<Rightarrow> address \<Rightarrow> uint \<Rightarrow> 't \<Rightarrow> 't option"
  token_balanceOf :: "'t \<Rightarrow> address \<Rightarrow> uint"
  db_save :: "procurement_row \<Rightarrow> 'd \<Rightarrow> 'd option"
  db_find :: "row_query \<Rightarrow> 'd \<Rightarrow> procurement_row list"
  db_update :: "row_query \<Rightarrow> row_query \<Rightarrow> 'd \<Rightarrow> 'd option"
  swarm_post :: "token_data \<Rightarrow> 's \<Rightarrow> (js \<times> 's) option"
  swarm_get :: "string \<Rightarrow> 's \<Rightarrow> string option"
  qr_folder :: string

record ('c, 't, 'd, 's) world =
  contract :: procurement_storage
  tokens :: "'t item_token"
  coins :: 'c
  table :: 'd
  swarm :: 's
  calls :: nat
  draws :: nat
  qr_files :: "(string \<times> js \<times> js) list"

type_synonym ('w, 'a) action = "'w \<Rightarrow> (js_error + 'a) \<times> 'w"

definition returnM :: "'a \<Rightarrow> ('w, 'a) action" where
  "returnM a s = (Inr a, s)"

definition throwM :: "js_error \<Rightarrow> ('w, 'a) action" where
  "throwM e s = (Inl e, s)"

definition bindM :: "('w, 'a) action \<Rightarrow> ('a \<Rightarrow> ('w, 'b) action) \<Rightarrow> ('w, 'b) action" where
  "bindM m f s = (case m s of (Inl e, s1) \<Rightarrow> (Inl e, s1) | (Inr a, s1) \<Rightarrow> f a s1)"

definition getM :: "('w \<Rightarrow> 'a) \<Rightarrow> ('w, 'a) action" where
  "getM f s = (Inr (f s), s)"

definition optM :: "js_error \<Rightarrow> 'a option \<Rightarrow> ('w, 'a) action" where
  "optM e v = (case v of None \<Rightarrow> throwM e | Some a \<Rightarrow> returnM a)"

text \<open>A call out of the process; the second component of its result tells whether the answer has an
  \<open>err\<close> property.  A call whose operation yields \<open>None\<close> reverts.\<close>

definition remote :: "('c, 't, 'd, 's) env \<Rightarrow> (('c, 't, 'd, 's) world \<Rightarrow> ('a \<times> ('c, 't, 'd, 's) world) option) \<Rightarrow>
    (('c, 't, 'd, 's) world, 'a \<times> bool) action" where
  "remote env call s =
     (let out = outcome_of env (calls s); s1 = s\<lparr>calls := calls s + 1\<rparr> in
      if out = Refused then (Inl RemoteError, s1)
      else case call s1 of
        None \<Rightarrow> (Inl RemoteError, s1)
      | Some (a, s2) \<Rightarrow> if out = Lost then (Inl RemoteError, s2) else (Inr (a, out = Flagged), s2))"

text \<open>The clients log an answer that has an \<open>err\<close> property through a variable \<open>err\<close> nobody declares.\<close>

definition logged :: "('w, 'a \<times> bool) action \<Rightarrow> ('w, 'a) action" where
  "logged m = bindM m (\<lambda>(a, flagged). if flagged then throwM ReferenceError else returnM a)"

definition unlogged :: "('w, 'a \<times> bool) action \<Rightarrow> ('w, 'a) action" where
  "unlogged m = bindM m (\<lambda>(a, flagged). returnM a)"

definition send :: "('c, 't, 'd, 's) env \<Rightarrow> (procurement_storage \<Rightarrow> procurement_storage) \<Rightarrow>
    (('c, 't, 'd, 's) world, js \<times> bool) action" where
  "send env tx = remote env (\<lambda>s. Some (Obj, s\<lparr>contract := tx (contract s)\<rparr>))"

definition query :: "('c, 't, 'd, 's) env \<Rightarrow> (('c, 't, 'd, 's) world \<Rightarrow> 'a option) \<Rightarrow>
    (('c, 't, 'd, 's) world, 'a \<times> bool) action" where
  "query env f = remote env (\<lambda>s. map_option (\<lambda>a. (a, s)) (f s))"

definition abi_uint :: "('c, 't, 'd, 's) env \<Rightarrow> js \<Rightarrow> ('w, uint) action" where
  "abi_uint env v = optM EncodeError (encode_uint env v)"

definition abi_string :: "('c, 't, 'd, 's) env \<Rightarrow> js \<Rightarrow> ('w, string) action" where
  "abi_string env v = optM EncodeError (encode_string env v)"

definition abi_address :: "address option \<Rightarrow> ('w, address) action" where
  "abi_address v = optM EncodeError v"

definition getAccount :: "('c, 't, 'd, 's) env \<Rightarrow> js \<Rightarrow> (('c, 't, 'd, 's) world, address option) action" where
  "getAccount env v = unlogged (query env (\<lambda>_. Some (js_index (accounts env) v)))"

section \<open>Client of the procurement contract\<close>

definition createPO :: "('c, 't, 'd, 's) env \<Rightarrow> js \<Rightarrow> string \<Rightarrow> po_request \<Rightarrow> (('c, 't, 'd, 's) world, js) action" where
  "createPO env processId stat req =
     bindM (abi_uint env processId) (\<lambda>i.
     bindM (abi_string env (rq_supplierId req)) (\<lambda>sup.
     bindM (abi_uint env (js_prop itemTypes (rq_itemType req))) (\<lambda>it.
     bindM (abi_uint env (rq_qty req)) (\<lambda>q.
     bindM (abi_string env (rq_uom req)) (\<lambda>u.
     logged (send env (issuePO i sup it q u stat)))))))"

definition createInvoice :: "('c, 't, 'd, 's) env \<Rightarrow> js \<Rightarrow> string \<Rightarrow> js \<Rightarrow> po_data \<Rightarrow>
    (('c, 't, 'd, 's) world, js) action" where
  "createInvoice env processId stat itemPrice req =
     bindM (abi_uint env processId) (\<lambda>i.
     bindM (abi_uint env (pd_poId req)) (\<lambda>p.
     bindM (abi_string env (pd_supplierId req)) (\<lambda>sup.
     bindM (abi_uint env (js_prop itemTypes (pd_itemType req))) (\<lambda>it.
     bindM (abi_uint env (Num (pd_qty req))) (\<lambda>q.
     bindM (abi_string env (pd_uom req)) (\<lambda>u.
     bindM (abi_uint env itemPrice) (\<lambda>pr.
     logged (send env (issueInvoice i p sup it q u pr stat)))))))))"

definition client_updatePOStatus :: "('c, 't, 'd, 's) env \<Rightarrow> js \<Rightarrow> string \<Rightarrow> (('c, 't, 'd, 's) world, js) action" where
  "client_updatePOStatus env processId stat =
     bindM (abi_uint env processId) (\<lambda>i. logged (send env (updatePOStatus i stat)))"

definition client_updateInvoiceStatus :: "('c, 't, 'd, 's) env \<Rightarrow> js \<Rightarrow> string \<Rightarrow> (('c, 't, 'd, 's) world, js) action" where
  "client_updateInvoiceStatus env processId stat =
     bindM (abi_uint env processId) (\<lambda>i. logged (send env (updateInvoiceStatus i stat)))"

definition client_getPOById :: "('c, 't, 'd, 's) env \<Rightarrow> js \<Rightarrow>
    (('c, 't, 'd, 's) world, string \<times> uint \<times> uint \<times> string \<times> string) action" where
  "client_getPOById env processId =
     bindM (abi_uint env processId) (\<lambda>i. logged (query env (\<lambda>s. Some (getPOById i (contract s)))))"

definition client_getInvoiceById :: "('c, 't, 'd, 's) env \<Rightarrow> js \<Rightarrow>
    (('c, 't, 'd, 's) world, uint \<times> string \<times> uint \<times> uint \<times> string \<times> uint \<times> string) action" where
  "client_getInvoiceById env processId =
     bindM (abi_uint env processId) (\<lambda>i. logged (query env (\<lambda>s. Some (getInvoiceById i (contract s)))))"

definition client_getPOList :: "('c, 't, 'd, 's) env \<Rightarrow> (('c, 't, 'd, 's) world, uint list) action" where
  "client_getPOList env = logged (query env (\<lambda>s. Some (getPOList (contract s))))"

definition client_getInvoiceList :: "('c, 't, 'd, 's) env \<Rightarrow> (('c, 't, 'd, 's) world, uint list) action" where
  "client_getInvoiceList env = logged (query env (\<lambda>s. Some (getInvoiceList (contract s))))"

section \<open>Client of the coin\<close>

definition coin_balance :: "('c, 't, 'd, 's) env \<Rightarrow> address option \<Rightarrow> (('c, 't, 'd, 's) world, int) action" where
  "coin_balance env acc = bindM (abi_address acc) (\<lambda>a.
     bindM (unlogged (query env (\<lambda>s. Some (coin_balanceOf env (coins s) a)))) (\<lambda>w. returnM (js_Number w)))"

definition coin_getBalance :: "('c, 't, 'd, 's) env \<Rightarrow> js \<Rightarrow> (('c, 't, 'd, 's) world, int) action" where
  "coin_getBalance env accId = bindM (getAccount env accId) (coin_balance env)"

definition coin_send :: "('c, 't, 'd, 's) env \<Rightarrow> address \<Rightarrow> address \<Rightarrow> uint \<Rightarrow> (('c, 't, 'd, 's) world, js) action" where
  "coin_send env src dst amt =
     bindM (getM (\<lambda>s. Str (tx_hash env (calls s)))) (\<lambda>h.
     unlogged (remote env (\<lambda>s. map_option (\<lambda>c. (h, s\<lparr>coins := c\<rparr>)) (coin_transfer env src dst amt (coins s)))))"

definition transferAmt :: "('c, 't, 'd, 's) env \<Rightarrow> address option \<Rightarrow> address option \<Rightarrow> int \<Rightarrow>
    (('c, 't, 'd, 's) world, js) action" where
  "transferAmt env fromAcct toAcct amount =
     bindM (abi_address fromAcct) (\<lambda>src.
     bindM (unlogged (query env (\<lambda>_. Some ()))) (\<lambda>count.
     bindM (unlogged (query env (\<lambda>_. Some ()))) (\<lambda>contractAddress.
     bindM (optM EncodeError (toHex env (Num amount))) (\<lambda>txValue.
     bindM (abi_address toAcct) (\<lambda>dst.
     bindM (abi_uint env txValue) (\<lambda>v.
     coin_send env src dst v))))))"

definition transferAmount :: "('c, 't, 'd, 's) env \<Rightarrow> js \<Rightarrow> js \<Rightarrow> int \<Rightarrow>
    (('c, 't, 'd, 's) world, transfer_details) action" where
  "transferAmount env userAccId merchantAcctId amount =
     bindM (getAccount env userAccId) (\<lambda>userAcc.
     bindM (getAccount env merchantAcctId) (\<lambda>merchantAcct.
     bindM (coin_balance env userAcc) (\<lambda>pizzaCoBalance.
     bindM (coin_balance env merchantAcct) (\<lambda>supplierInitialAccountBalance.
     bindM (if pizzaCoBalance = 0
            then bindM (abi_address userAcc) (\<lambda>u. bindM (abi_uint env (Num amount)) (\<lambda>v.
                   coin_send env (coinbase env) u v))
            else returnM Undefined) (\<lambda>_.
     bindM (transferAmt env userAcc merchantAcct amount) (\<lambda>rcpt.
     bindM (coin_balance env merchantAcct) (\<lambda>supplierAccountBalance.
     returnM (if js_add supplierInitialAccountBalance amount = supplierAccountBalance
              then \<lparr>transferStatus = True, receipt = rcpt\<rparr>
              else \<lparr>transferStatus = False, receipt = Undefined\<rparr>))))))))"

section \<open>Client of the item token\<close>

definition token_send :: "('c, 't, 'd, 's) env \<Rightarrow> ('t item_token \<Rightarrow> 't item_token option) \<Rightarrow>
    (('c, 't, 'd, 's) world, js \<times> bool) action" where
  "token_send env tx = remote env (\<lambda>s. map_option (\<lambda>t. (Obj, s\<lparr>tokens := t\<rparr>)) (tx (tokens s)))"

definition token_move :: "('c, 't, 'd, 's) env \<Rightarrow> address \<Rightarrow> address \<Rightarrow> address \<Rightarrow> uint \<Rightarrow> 't item_token \<Rightarrow> 't item_token option" where
  "token_move env sender src dst i t = map_option (\<lambda>e. t\<lparr>erc721 := e\<rparr>) (token_transferFrom env sender src dst i (erc721 t))"

definition mintDataToBC :: "('c, 't, 'd, 's) env \<Rightarrow> token_data \<Rightarrow> (('c, 't, 'd, 's) world, bool) action" where
  "mintDataToBC env req =
     bindM (abi_uint env (md_invoiceId req)) (\<lambda>i.
     bindM (abi_uint env (js_prop itemTypes (md_itemType req))) (\<lambda>it.
     bindM (abi_string env (md_uom req)) (\<lambda>u.
     bindM (abi_uint env (md_qty req)) (\<lambda>q.
     bindM (abi_uint env (md_price req)) (\<lambda>p.
     bindM (logged (token_send env (mintWithItemData (token_mint env) (coinbase env) i it u q p))) (\<lambda>_.
     returnM True))))))"

definition client_mint :: "('c, 't, 'd, 's) env \<Rightarrow> js \<Rightarrow> (('c, 't, 'd, 's) world, bool) action" where
  "client_mint env tokenId =
     bindM (abi_uint env tokenId) (\<lambda>i.
     bindM (logged (token_send env (mint (token_mint env) (coinbase env) i))) (\<lambda>_. returnM True))"

definition ownerOf :: "('c, 't, 'd, 's) env \<Rightarrow> uint \<Rightarrow> (('c, 't, 'd, 's) world, address) action" where
  "ownerOf env i = unlogged (query env (\<lambda>s. token_ownerOf env (erc721 (tokens s)) i))"

definition client_transferToken :: "('c, 't, 'd, 's) env \<Rightarrow> js \<Rightarrow> js \<Rightarrow> js \<Rightarrow>
    (('c, 't, 'd, 's) world, transfer_details) action" where
  "client_transferToken env merchantAcctId userAccId tokenId =
     bindM (getAccount env userAccId) (\<lambda>userAcc.
     bindM (getAccount env merchantAcctId) (\<lambda>merchantAcct.
     bindM (abi_uint env tokenId) (\<lambda>i.
     bindM (ownerOf env i) (\<lambda>tokenOwner.
     if userAcc \<noteq> Some tokenOwner then
       bindM (abi_address merchantAcct) (\<lambda>src.
       bindM (abi_address userAcc) (\<lambda>dst.
       bindM (getM (\<lambda>s. Str (tx_hash env (calls s)))) (\<lambda>h.
       bindM (unlogged (token_send env (token_move env src src dst i))) (\<lambda>_.
       bindM (ownerOf env i) (\<lambda>tokenOwner2.
       returnM (if userAcc = Some tokenOwner2 then \<lparr>transferStatus = True, receipt = h\<rparr>
                else \<lparr>transferStatus = False, receipt = Undefined\<rparr>))))))
     else returnM \<lparr>transferStatus = False, receipt = Undefined\<rparr>))))"

definition client_transfer :: "('c, 't, 'd, 's) env \<Rightarrow> js \<Rightarrow> js \<Rightarrow> js \<Rightarrow> (('c, 't, 'd, 's) world, js) action" where
  "client_transfer env fromAccId toAccId tokenId =
     bindM (getAccount env fromAccId) (\<lambda>fromAddress.
     bindM (getAccount env toAccId) (\<lambda>toAddress.
     bindM (abi_address fromAddress) (\<lambda>src.
     bindM (abi_address toAddress) (\<lambda>dst.
     bindM (abi_uint env tokenId) (\<lambda>i.
     unlogged (token_send env (token_move env (coinbase env) src dst i)))))))"

definition token_getBalance :: "('c, 't, 'd, 's) env \<Rightarrow> js \<Rightarrow> (('c, 't, 'd, 's) world, int) action" where
  "token_getBalance env accId = bindM (getAccount env accId) (\<lambda>acc. bindM (abi_address acc) (\<lambda>a.
     bindM (unlogged (query env (\<lambda>s. Some (token_balanceOf env (erc721 (tokens s)) a)))) (\<lambda>w. returnM (js_Number w))))"

definition client_getMetadata :: "('c, 't, 'd, 's) env \<Rightarrow> js \<Rightarrow>
    (('c, 't, 'd, 's) world, uint \<times> uint \<times> string \<times> uint) action" where
  "client_getMetadata env tokenId =
     bindM (abi_uint env tokenId) (\<lambda>i. unlogged (query env (\<lambda>s. Some (getMetadata i (tokens s)))))"

section \<open>The procurement table\<close>

definition saveData :: "('c, 't, 'd, 's) env \<Rightarrow> procurement_row \<Rightarrow> (('c, 't, 'd, 's) world, unit) action" where
  "saveData env obj = unlogged (remote env (\<lambda>s. map_option (\<lambda>d. ((), s\<lparr>table := d\<rparr>)) (db_save env obj (table s))))"

definition getData :: "('c, 't, 'd, 's) env \<Rightarrow> row_query \<Rightarrow> (('c, 't, 'd, 's) world, procurement_row list) action" where
  "getData env q = unlogged (query env (\<lambda>s. Some (db_find env q (table s))))"

definition updateData :: "('c, 't, 'd, 's) env \<Rightarrow> row_query \<Rightarrow> row_query \<Rightarrow> (('c, 't, 'd, 's) world, unit) action" where
  "updateData env q u = unlogged (remote env (\<lambda>s. map_option (\<lambda>d. ((), s\<lparr>table := d\<rparr>)) (db_update env q u (table s))))"

definition createProcurement :: "('c, 't, 'd, 's) env \<Rightarrow> procurement_row \<Rightarrow> (('c, 't, 'd, 's) world, unit) action" where
  "createProcurement env obj = saveData env obj"

definition getProcurements :: "('c, 't, 'd, 's) env \<Rightarrow> (('c, 't, 'd, 's) world, procurement_row list) action" where
  "getProcurements env = getData env []"

definition getProcurementById :: "('c, 't, 'd, 's) env \<Rightarrow> js \<Rightarrow> (('c, 't, 'd, 's) world, procurement_row list) action" where
  "getProcurementById env transactionId = getData env [(F_transaction_id, transactionId)]"

definition getProcurementBySupplierId :: "('c, 't, 'd, 's) env \<Rightarrow> js \<Rightarrow> (('c, 't, 'd, 's) world, procurement_row list) action" where
  "getProcurementBySupplierId env supplierId = getData env [(F_supplier_id, supplierId)]"

definition getProcurementByTokenId :: "('c, 't, 'd, 's) env \<Rightarrow> js \<Rightarrow> (('c, 't, 'd, 's) world, procurement_row list) action" where
  "getProcurementByTokenId env tokenId = getData env [(F_token_id, tokenId)]"

definition updateInvoice :: "('c, 't, 'd, 's) env \<Rightarrow> js \<Rightarrow> js \<Rightarrow> js \<Rightarrow> (('c, 't, 'd, 's) world, unit) action" where
  "updateInvoice env poId invoiceId itemPrice =
     updateData env [(F_po_id, poId)] [(F_invoice_id, invoiceId), (F_item_price, itemPrice)]"

definition updateTokenId :: "('c, 't, 'd, 's) env \<Rightarrow> js \<Rightarrow> js \<Rightarrow> (('c, 't, 'd, 's) world, unit) action" where
  "updateTokenId env invoiceId tokenId = updateData env [(F_invoice_id, invoiceId)] [(F_token_id, tokenId)]"

end
