(* ===== verification/Controller.thy ===== *)
theory Controller
  imports PizzaChain
begin

text \<open>The functions of \<open>api-gateway/controller.js\<close> over the clients of \<^verbatim>\<open>PizzaChain\<close>, and the routes of
  \<open>api-gateway/apiGatewayController.js\<close>, which run them, turn an error into a 500 response and send
  exactly one answer.\<close>

section \<open>Helpers\<close>

definition getKeyByValue :: "(string \<times> int) list \<Rightarrow> int \<Rightarrow> js" where
  "getKeyByValue obj v = (case find (\<lambda>(k, x). x = v) obj of Some (k, x) \<Rightarrow> Str k | None \<Rightarrow> Undefined)"

definition unique_id :: "('c, 't, 'd, 's) env \<Rightarrow> nat \<Rightarrow> js" where
  "unique_id env n = (case clock_random env n of (now, rnd) \<Rightarrow> Str (dec now @ take 5 (drop 2 rnd)))"

definition fnGetUniqueID :: "('c, 't, 'd, 's) env \<Rightarrow> (('c, 't, 'd, 's) world, js) action" where
  "fnGetUniqueID env s = (Inr (unique_id env (draws s)), s\<lparr>draws := draws s + 1\<rparr>)"

definition mapInvoiceData :: "js \<Rightarrow> uint \<times> string \<times> uint \<times> uint \<times> string \<times> uint \<times> string \<Rightarrow> invoice_data" where
  "mapInvoiceData invoiceId invoice = (case invoice of (po, supplier, it, q, u, p, st) \<Rightarrow>
     \<lparr>id_invoiceId = invoiceId, id_poId = Big po, id_supplierId = Str supplier,
      id_itemType = getKeyByValue itemTypes (js_Number it), id_qty = js_Number q, id_uom = Str u,
      id_price = js_Number p, id_status = Str st\<rparr>)"

definition mapPOData :: "js \<Rightarrow> string \<times> uint \<times> uint \<times> string \<times> string \<Rightarrow> po_data" where
  "mapPOData poId po = (case po of (supplier, it, q, u, st) \<Rightarrow>
     \<lparr>pd_poId = poId, pd_supplierId = Str supplier, pd_itemType = getKeyByValue itemTypes (js_Number it),
      pd_qty = js_Number q, pd_uom = Str u, pd_status = Str st\<rparr>)"

definition mapTokenData :: "js \<Rightarrow> uint \<times> uint \<times> string \<times> uint \<Rightarrow> token_data" where
  "mapTokenData invoiceId metadata = (case metadata of (it, q, u, p) \<Rightarrow>
     \<lparr>md_invoiceId = invoiceId, md_itemType = getKeyByValue itemTypes (js_Number it), md_uom = Str u,
      md_qty = Num (js_Number q), md_price = Num (js_Number p)\<rparr>)"

section \<open>Orders and invoices\<close>

definition ctl_getPOById :: "('c, 't, 'd, 's) env \<Rightarrow> js \<Rightarrow> (('c, 't, 'd, 's) world, po_data response) action" where
  "ctl_getPOById env poId = bindM (client_getPOById env poId) (\<lambda>res.
     if fst res = [] then returnM (Response 404 ''Error in Get PO by Id'' Null_body (Some (Err_text ''PO Not Found'')))
     else returnM (Response 200 ''PO Retrieved'' (Body (mapPOData poId res)) None))"

definition ctl_getInvoiceById :: "('c, 't, 'd, 's) env \<Rightarrow> js \<Rightarrow> (('c, 't, 'd, 's) world, invoice_data response) action" where
  "ctl_getInvoiceById env invoiceId = bindM (client_getInvoiceById env invoiceId) (\<lambda>res.
     if fst res = 0 then returnM (Response 404 ''Error in Get Invoice by Id'' Null_body (Some (Err_text ''Invoice Not Found'')))
     else returnM (Response 200 ''Invoice Retrieved'' (Body (mapInvoiceData invoiceId res)) None))"

definition ctl_getPOList :: "('c, 't, 'd, 's) env \<Rightarrow> (('c, 't, 'd, 's) world, uint list response) action" where
  "ctl_getPOList env = bindM (client_getPOList env) (\<lambda>poIds.
     returnM (Response 200 ''PO List Retrieved'' (Body poIds) None))"

definition ctl_getInvoiceList :: "('c, 't, 'd, 's) env \<Rightarrow> (('c, 't, 'd, 's) world, uint list response) action" where
  "ctl_getInvoiceList env = bindM (client_getInvoiceList env) (\<lambda>invoiceIds.
     returnM (Response 200 ''Invoice List Retrieved'' (Body invoiceIds) None))"

fun invoice_details_loop :: "('c, 't, 'd, 's) env \<Rightarrow> uint list \<Rightarrow> (('c, 't, 'd, 's) world, invoice_data body list) action" where
  "invoice_details_loop env [] = returnM []"
| "invoice_details_loop env (i # is) = bindM (ctl_getInvoiceById env (Big i)) (\<lambda>r.
     bindM (invoice_details_loop env is) (\<lambda>rs. returnM (resp_data r # rs)))"

definition getInvoiceDetailsList :: "('c, 't, 'd, 's) env \<Rightarrow> (('c, 't, 'd, 's) world, invoice_data body list response) action" where
  "getInvoiceDetailsList env = bindM (ctl_getInvoiceList env) (\<lambda>r.
     bindM (case resp_data r of Body ids \<Rightarrow> invoice_details_loop env ids | _ \<Rightarrow> returnM []) (\<lambda>ds.
     returnM (Response 200 ''Invoice Details List Retrieved'' (Body ds) None)))"

record po_transactions =
  pt_transactionId :: js
  pt_poIds :: "js list"

fun issuePO_loop :: "('c, 't, 'd, 's) env \<Rightarrow> js \<Rightarrow> po_request list \<Rightarrow> js list \<Rightarrow> (('c, 't, 'd, 's) world, js list) action" where
  "issuePO_loop env transactionId [] poIds = returnM poIds"
| "issuePO_loop env transactionId (po # rest) poIds =
     bindM (fnGetUniqueID env) (\<lambda>processId.
     bindM (createPO env processId PO_ISSUED po) (\<lambda>poResponse.
     if truthy poResponse then
       bindM (createProcurement env \<lparr>row_transaction_id = transactionId, row_supplier_id = rq_supplierId po,
                row_po_id = processId, row_invoice_id = Undefined, row_token_id = Undefined,
                row_item_price = Undefined\<rparr>) (\<lambda>_.
       issuePO_loop env transactionId rest (poIds @ [processId]))
     else issuePO_loop env transactionId rest poIds))"

text \<open>The test \<open>if (poTransactions.poIds)\<close> asks for the truth of an array, which is an object.\<close>

definition ctl_issuePO :: "('c, 't, 'd, 's) env \<Rightarrow> po_request list \<Rightarrow> (('c, 't, 'd, 's) world, po_transactions response) action" where
  "ctl_issuePO env body =
     bindM (fnGetUniqueID env) (\<lambda>transactionId.
     bindM (issuePO_loop env transactionId body []) (\<lambda>poIds.
     let res = (if truthy Obj then 201 else 500); msg = (if truthy Obj then ''PO Issued'' else ''Failed'') in
     returnM (Response res msg (Body \<lparr>pt_transactionId = transactionId, pt_poIds = poIds\<rparr>) None)))"

definition updatedPOStatus :: "('c, 't, 'd, 's) env \<Rightarrow> js \<Rightarrow> string \<Rightarrow> (('c, 't, 'd, 's) world, po_data response) action" where
  "updatedPOStatus env poId stat =
     bindM (client_getPOById env poId) (\<lambda>po.
     let poData = mapPOData poId po in
     bindM (client_updatePOStatus env (pd_poId poData) stat) (\<lambda>updateResponse.
     returnM (if equals_true updateResponse then Response 200 stat (Body poData) None
              else Response 500 ''Failed'' (Body poData) None)))"

definition ackPO :: "('c, 't, 'd, 's) env \<Rightarrow> js \<Rightarrow> (('c, 't, 'd, 's) world, po_data response) action" where
  "ackPO env poId =
     bindM (client_getPOById env poId) (\<lambda>po.
     let poData = mapPOData poId po in
     bindM (client_updatePOStatus env (pd_poId poData) PO_ACKNOWLEDGED) (\<lambda>updateResponse.
     returnM (if equals_true updateResponse then Response 200 ''Acked PO'' (Body poData) None
              else Response 500 ''Failed'' (Body poData) None)))"

definition ctl_issueInvoice :: "('c, 't, 'd, 's) env \<Rightarrow> po_data \<Rightarrow> js \<Rightarrow> (('c, 't, 'd, 's) world, js response) action" where
  "ctl_issueInvoice env poData itemPrice =
     bindM (fnGetUniqueID env) (\<lambda>processId.
     bindM (createInvoice env processId INVOICE_ISSUED itemPrice poData) (\<lambda>invoiceResponse.
     if truthy invoiceResponse then
       bindM (updateInvoice env (pd_poId poData) processId itemPrice) (\<lambda>_.
       returnM (Response 201 ''Invoice Issued'' (Body processId) None))
     else returnM (Response 500 ''Failed'' (Body processId) None)))"

section \<open>Transactions\<close>

record transaction_details =
  td_transactionId :: js
  td_po :: "po_data response list"
  td_invoice :: "invoice_data response list"
  td_tokenId :: js

definition details_po :: "('c, 't, 'd, 's) env \<Rightarrow> string \<Rightarrow> procurement_row \<Rightarrow> transaction_details \<Rightarrow>
    (('c, 't, 'd, 's) world, transaction_details) action" where
  "details_po env flt row d =
     (if truthy (row_po_id row) \<and> flt \<noteq> ''INVOICE'' then
        bindM (ctl_getPOById env (row_po_id row)) (\<lambda>poData.
        returnM (if resp_code poData = 200
                 then d\<lparr>td_po := td_po d @ [poData], td_transactionId := row_transaction_id row\<rparr> else d))
      else returnM d)"

definition details_invoice :: "('c, 't, 'd, 's) env \<Rightarrow> string \<Rightarrow> procurement_row \<Rightarrow> transaction_details \<Rightarrow>
    (('c, 't, 'd, 's) world, transaction_details) action" where
  "details_invoice env flt row d =
     (if truthy (row_invoice_id row) \<and> flt \<noteq> ''PO'' then
        bindM (ctl_getInvoiceById env (row_invoice_id row)) (\<lambda>invoiceData.
        returnM (if resp_code invoiceData = 200
                 then d\<lparr>td_invoice := td_invoice d @ [invoiceData], td_transactionId := row_transaction_id row\<rparr> else d))
      else returnM d)"

fun getTransactionDetails :: "('c, 't, 'd, 's) env \<Rightarrow> procurement_row list \<Rightarrow> string \<Rightarrow>
    (('c, 't, 'd, 's) world, transaction_details list) action" where
  "getTransactionDetails env [] flt = returnM []"
| "getTransactionDetails env (row # rows) flt =
     bindM (details_po env flt row \<lparr>td_transactionId = Undefined, td_po = [], td_invoice = [], td_tokenId = Undefined\<rparr>) (\<lambda>d1.
     bindM (details_invoice env flt row d1) (\<lambda>d2.
     bindM (getTransactionDetails env rows flt) (\<lambda>ds.
     let d3 = d2\<lparr>td_tokenId := row_token_id row\<rparr> in
     returnM (if truthy (td_transactionId d3) then d3 # ds else ds))))"

definition getTransactions :: "('c, 't, 'd, 's) env \<Rightarrow> string \<Rightarrow> (('c, 't, 'd, 's) world, transaction_details list response) action" where
  "getTransactions env flt =
     bindM (getProcurements env) (\<lambda>rows.
     bindM (getTransactionDetails env rows (toUpperCase flt)) (\<lambda>ds.
     returnM (Response 200 ''Transactions'' (Body ds) None)))"

definition getTransactionBySupplierId :: "('c, 't, 'd, 's) env \<Rightarrow> js \<Rightarrow> string \<Rightarrow>
    (('c, 't, 'd, 's) world, transaction_details list response) action" where
  "getTransactionBySupplierId env supplierId flt =
     bindM (getProcurementBySupplierId env supplierId) (\<lambda>rows.
     bindM (getTransactionDetails env rows (toUpperCase flt)) (\<lambda>ds.
     returnM (Response 200 ''Procurement Transactions By Supplier Retrieved'' (Body ds) None)))"

definition getTransactionById :: "('c, 't, 'd, 's) env \<Rightarrow> js \<Rightarrow> string \<Rightarrow>
    (('c, 't, 'd, 's) world, transaction_details list response) action" where
  "getTransactionById env transactionId flt =
     bindM (getProcurementById env transactionId) (\<lambda>rows.
     bindM (getTransactionDetails env rows (toUpperCase flt)) (\<lambda>ds.
     returnM (Response 200 ''Procurement Transaction Retrieved'' (Body ds) None)))"

definition getTransactionByTokenId :: "('c, 't, 'd, 's) env \<Rightarrow> js \<Rightarrow>
    (('c, 't, 'd, 's) world, procurement_row list response) action" where
  "getTransactionByTokenId env tokenId =
     bindM (getProcurementByTokenId env tokenId) (\<lambda>rows.
     returnM (Response 200 ''Procurement Transaction Retrieved'' (Body rows) None))"

section \<open>Payment, tokens and delivery\<close>

definition ctl_getBalance :: "('c, 't, 'd, 's) env \<Rightarrow> js \<Rightarrow> (('c, 't, 'd, 's) world, int response) action" where
  "ctl_getBalance env entityId = bindM (coin_getBalance env entityId) (\<lambda>res.
     returnM (Response 200 ''Balance Retrieved'' (Body res) None))"

definition getOwnedTokenBalance :: "('c, 't, 'd, 's) env \<Rightarrow> js \<Rightarrow> (('c, 't, 'd, 's) world, int response) action" where
  "getOwnedTokenBalance env entityId = bindM (token_getBalance env entityId) (\<lambda>res.
     returnM (Response 200 ''Balance Retrieved'' (Body res) None))"

definition payment :: "('c, 't, 'd, 's) env \<Rightarrow> js \<Rightarrow> js \<Rightarrow> js \<Rightarrow> (('c, 't, 'd, 's) world, js response) action" where
  "payment env invoiceId fromId toId =
     bindM (client_getInvoiceById env invoiceId) (\<lambda>invoice.
     let invoiceData = mapInvoiceData invoiceId invoice in
     bindM (transferAmount env fromId toId (id_price invoiceData)) (\<lambda>transferDetails.
     if transferStatus transferDetails then
       bindM (client_updateInvoiceStatus env invoiceId INVOICE_PAYMENT_RECEIVED) (\<lambda>_.
       returnM (Response 200 ''Payment done'' (Body (receipt transferDetails)) None))
     else returnM (Response 500 ''Failed'' Null_body None)))"

record mint_response =
  mr_status :: bool
  mr_tokenId :: js

text \<open>A failed request to the swarm service is logged and yields \<open>undefined\<close>, whose \<open>rootHash\<close> cannot
  be read.\<close>

definition fnPOST :: "('c, 't, 'd, 's) env \<Rightarrow> token_data \<Rightarrow> (('c, 't, 'd, 's) world, js option) action" where
  "fnPOST env md s = (case unlogged (remote env (\<lambda>s. map_option (\<lambda>(h, w). (h, s\<lparr>swarm := w\<rparr>)) (swarm_post env md (swarm s)))) s of
     (Inl e, s1) \<Rightarrow> (Inr None, s1)
   | (Inr h, s1) \<Rightarrow> (Inr (Some h), s1))"

definition fnGET :: "('c, 't, 'd, 's) env \<Rightarrow> string \<Rightarrow> (('c, 't, 'd, 's) world, string option) action" where
  "fnGET env url s = (case unlogged (query env (\<lambda>s. swarm_get env url (swarm s))) s of
     (Inl e, s1) \<Rightarrow> (Inr None, s1)
   | (Inr h, s1) \<Rightarrow> (Inr (Some h), s1))"

definition mintItemToken :: "('c, 't, 'd, 's) env \<Rightarrow> invoice_data \<Rightarrow> bool \<Rightarrow> (('c, 't, 'd, 's) world, mint_response) action" where
  "mintItemToken env d useSwarm =
     (let metadata = \<lparr>md_invoiceId = id_invoiceId d, md_itemType = id_itemType d, md_uom = id_uom d,
        md_qty = Num (id_qty d), md_price = Num (id_price d)\<rparr> in
      if useSwarm then
        bindM (fnPOST env metadata) (\<lambda>r.
        bindM (optM TypeError r) (\<lambda>rootHash.
        let tokenId = Str (''0x'' @ js_string rootHash) in
        bindM (client_mint env tokenId) (\<lambda>_.
        returnM \<lparr>mr_status = True, mr_tokenId = tokenId\<rparr>)))
      else
        bindM (mintDataToBC env metadata) (\<lambda>_.
        returnM \<lparr>mr_status = True, mr_tokenId = id_invoiceId d\<rparr>))"

definition makeTokens :: "('c, 't, 'd, 's) env \<Rightarrow> js \<Rightarrow> (('c, 't, 'd, 's) world, (js \<times> js) response) action" where
  "makeTokens env invoiceId =
     bindM (client_getInvoiceById env invoiceId) (\<lambda>invoice.
     let invoiceData = mapInvoiceData invoiceId invoice in
     bindM (mintItemToken env invoiceData True) (\<lambda>mintResponse.
     if mr_status mintResponse then
       bindM (client_transfer env (Num ADMIN) (js_prop account_ids (id_supplierId invoiceData)) (mr_tokenId mintResponse)) (\<lambda>transferResponse.
       if truthy transferResponse then
         bindM (updatedPOStatus env (id_poId invoiceData) PO_PENDING_DELIVERY) (\<lambda>_.
         bindM (updateTokenId env invoiceId (mr_tokenId mintResponse)) (\<lambda>_.
         returnM (Response 200 ''Tokens transferred to Supplier'' (Body (id_supplierId invoiceData, mr_tokenId mintResponse)) None)))
       else returnM (Response 500 ''Failed'' Empty_body None))
     else returnM (Response 500 ''Failed'' Empty_body None)))"

definition getFileNameByTokenId :: "('c, 't, 'd, 's) env \<Rightarrow> js \<Rightarrow> string" where
  "getFileNameByTokenId env tokenId = qr_folder env @ js_string tokenId @ ''.svg''"

text \<open>The picture is written by the \<open>qr-image\<close> package; the world records which data went to which
  file.\<close>

definition generateQRCode :: "('c, 't, 'd, 's) env \<Rightarrow> js \<Rightarrow> js \<Rightarrow> (('c, 't, 'd, 's) world, string response) action" where
  "generateQRCode env supplierId tokenId s =
     (let filepath = qr_folder env @ js_string tokenId @ ''.svg'' in
      (Inr (Response 200 ''QR Code generated'' (Body filepath) None),
       s\<lparr>qr_files := qr_files s @ [(filepath, supplierId, tokenId)]\<rparr>))"

definition transferToken :: "('c, 't, 'd, 's) env \<Rightarrow> js \<Rightarrow> js \<Rightarrow> js \<Rightarrow> procurement_row list \<Rightarrow>
    (('c, 't, 'd, 's) world, transfer_details response) action" where
  "transferToken env tokenId fromId toId data =
     bindM (client_transferToken env fromId toId tokenId) (\<lambda>transferDetails.
     if transferStatus transferDetails then
       (case data of
          [] \<Rightarrow> throwM TypeError
        | row # _ \<Rightarrow>
            bindM (client_updatePOStatus env (row_po_id row) PO_DELIVERED) (\<lambda>_.
            bindM (client_updatePOStatus env (row_invoice_id row) INVOICE_COMPLETED) (\<lambda>_.
            returnM (Response 200 ''Transfer done'' (Body transferDetails) None))))
     else returnM (Response 500 ''Failed'' (Body transferDetails) None))"

datatype metadata_reply = Swarm_reply "string option" | Chain_reply token_data | Error_reply js_error

definition ctl_getMetadata :: "('c, 't, 'd, 's) env \<Rightarrow> string \<Rightarrow> bool \<Rightarrow> (('c, 't, 'd, 's) world, metadata_reply) action" where
  "ctl_getMetadata env tokenId useSwarm s =
     (if useSwarm then
        let tokenId2 = (if take 2 tokenId = ''0x'' then drop 2 tokenId else tokenId) in
        bindM (fnGET env tokenId2) (\<lambda>r. returnM (Swarm_reply r)) s
      else case client_getMetadata env (Str tokenId) s of
        (Inl e, s1) \<Rightarrow> (Inr (Error_reply e), s1)
      | (Inr res, s1) \<Rightarrow> (Inr (Chain_reply (mapTokenData (Str tokenId) res)), s1))"

definition retrieveMetadata :: "('c, 't, 'd, 's) env \<Rightarrow> string \<Rightarrow> (('c, 't, 'd, 's) world, metadata_reply response) action" where
  "retrieveMetadata env tokenId = bindM (ctl_getMetadata env tokenId True) (\<lambda>md.
     returnM (Response 200 ''Token Metadata Retrieved'' (Body md) None))"

section \<open>Routes\<close>

definition answer :: "string \<Rightarrow> ('w, 'a response) action \<Rightarrow> 'w \<Rightarrow> 'a response \<times> 'w" where
  "answer msg m s = (case m s of
     (Inl e, s1) \<Rightarrow> (Response 500 msg Empty_body (Some (Err_of e)), s1)
   | (Inr r, s1) \<Rightarrow> (r, s1))"

datatype request =
    Get_transactions string
  | Get_transaction string string
  | Get_transaction_supplier string string
  | Post_purchase_order "po_request list"
  | Get_purchase_order string
  | Get_purchase_orders
  | Post_invoice string js
  | Get_invoice string
  | Get_invoices
  | Get_invoice_details
  | Get_balance string
  | Post_paySupplier string string string
  | Post_makeTokens string
  | Post_transferToken string string string
  | Get_tokenBalance string

datatype reply =
    R_details "transaction_details list response"
  | R_issued "po_transactions response"
  | R_po "po_data response"
  | R_ids "uint list response"
  | R_id "js response"
  | R_invoice "invoice_data response"
  | R_invoices "invoice_data body list response"
  | R_number "int response"
  | R_text "string response"
  | R_metadata "metadata_reply response"

definition post_invoice :: "('c, 't, 'd, 's) env \<Rightarrow> js \<Rightarrow> js \<Rightarrow> (('c, 't, 'd, 's) world, js response) action" where
  "post_invoice env poId itemPrice =
     bindM (ackPO env poId) (\<lambda>poDataRes.
     case resp_data poDataRes of Body poData \<Rightarrow> ctl_issueInvoice env poData itemPrice | _ \<Rightarrow> throwM TypeError)"

definition post_makeTokens :: "('c, 't, 'd, 's) env \<Rightarrow> js \<Rightarrow> (('c, 't, 'd, 's) world, string response) action" where
  "post_makeTokens env invoiceId =
     bindM (makeTokens env invoiceId) (\<lambda>r.
     case resp_data r of
       Body (supplierId, tokenId) \<Rightarrow> generateQRCode env supplierId tokenId
     | _ \<Rightarrow> generateQRCode env Undefined Undefined)"

definition post_transferToken :: "('c, 't, 'd, 's) env \<Rightarrow> string \<Rightarrow> js \<Rightarrow> js \<Rightarrow> (('c, 't, 'd, 's) world, metadata_reply response) action" where
  "post_transferToken env tokenId supplierId payerId =
     bindM (getTransactionByTokenId env (Str tokenId)) (\<lambda>transaction.
     bindM (transferToken env (Str tokenId) supplierId payerId
              (case resp_data transaction of Body rows \<Rightarrow> rows | _ \<Rightarrow> [])) (\<lambda>_.
     retrieveMetadata env tokenId))"

fun serve :: "('c, 't, 'd, 's) env \<Rightarrow> request \<Rightarrow> ('c, 't, 'd, 's) world \<Rightarrow> reply \<times> ('c, 't, 'd, 's) world" where
  "serve env (Get_transactions flt) s = apfst R_details (answer ''Error in Get Transactions'' (getTransactions env flt) s)"
| "serve env (Get_transaction i flt) s =
     apfst R_details (answer ''Error in Get Transaction by Id'' (getTransactionById env (Str i) flt) s)"
| "serve env (Get_transaction_supplier i flt) s =
     apfst R_details (answer ''Error in Get Transaction by Supplier Id'' (getTransactionBySupplierId env (Str i) flt) s)"
| "serve env (Post_purchase_order body) s = apfst R_issued (answer ''Error in Issue PO'' (ctl_issuePO env body) s)"
| "serve env (Get_purchase_order i) s = apfst R_po (answer ''Error in getting PO by ID'' (ctl_getPOById env (Str i)) s)"
| "serve env Get_purchase_orders s = apfst R_ids (answer ''Error in retrieving list of PO Ids'' (ctl_getPOList env) s)"
| "serve env (Post_invoice i price) s = apfst R_id (answer ''Error in Issue Invoice'' (post_invoice env (Str i) price) s)"
| "serve env (Get_invoice i) s = apfst R_invoice (answer ''Error in retrieving Invoice'' (ctl_getInvoiceById env (Str i)) s)"
| "serve env Get_invoices s = apfst R_ids (answer ''Error in retrieving list of Invoice ids'' (ctl_getInvoiceList env) s)"
| "serve env Get_invoice_details s =
     apfst R_invoices (answer ''Error in retrieving list of Invoice Details'' (getInvoiceDetailsList env) s)"
| "serve env (Get_balance i) s = apfst R_number (answer ''Error in getting balance'' (ctl_getBalance env (Str i)) s)"
| "serve env (Post_paySupplier i payer supplier) s =
     apfst R_id (answer ''Error in Payment'' (payment env (Str i) (Str payer) (Str supplier)) s)"
| "serve env (Post_makeTokens i) s = apfst R_text (answer ''Error in making tokens'' (post_makeTokens env (Str i)) s)"
| "serve env (Post_transferToken t supplier payer) s =
     apfst R_metadata (answer ''Error in Transfer Token'' (post_transferToken env t (Str supplier) (Str payer)) s)"
| "serve env (Get_tokenBalance i) s =
     apfst R_number (answer ''Error in getting token balance'' (getOwnedTokenBalance env (Str i)) s)"

end
