(* ===== verification/Controller_Correct.thy ===== *)
theory Controller_Correct
  imports Controller
begin

text \<open>Properties of the service over arbitrary sequences of requests and arbitrary failures of the
  calls out of the process: rules for actions; the locale of invariants that every request keeps, with
  the invariants of the contract as a sublocale; well formed replies; the exact effect of a payment;
  the table backed by the contract; orders that can be read back.  What the service relies on of
  web3, the coin and mongoose is stated by the predicates \<open>encoder_ok\<close>, \<open>erc20_ok\<close> and \<open>mongo_ok\<close>, and the
  last section has an instance of the environment that satisfies them.\<close>

section \<open>Reasoning about actions\<close>

text \<open>\<open>wp m Q E s\<close>: run from \<open>s\<close>, the action ends in a value and a world with \<open>Q\<close> or in an error and a
  world with \<open>E\<close>.  \<open>keeps I m\<close>: it keeps \<open>I\<close> on every path; \<open>returns R m\<close>: a value it ends in has \<open>R\<close>.\<close>

definition wp :: "('w, 'a) action \<Rightarrow> ('a \<Rightarrow> 'w \<Rightarrow> bool) \<Rightarrow> (js_error \<Rightarrow> 'w \<Rightarrow> bool) \<Rightarrow> 'w \<Rightarrow> bool" where
  "wp m Q E s = (case m s of (Inl e, s1) \<Rightarrow> E e s1 | (Inr a, s1) \<Rightarrow> Q a s1)"

definition keeps :: "('w \<Rightarrow> bool) \<Rightarrow> ('w, 'a) action \<Rightarrow> bool" where
  "keeps I m = (\<forall>s. I s \<longrightarrow> wp m (\<lambda>_. I) (\<lambda>_. I) s)"

definition returns :: "('a \<Rightarrow> bool) \<Rightarrow> ('w, 'a) action \<Rightarrow> bool" where
  "returns R m = (\<forall>s. wp m (\<lambda>a _. R a) (\<lambda>_ _. True) s)"

named_theorems wp_simps \<open>weakest preconditions of the combinators\<close>
named_theorems keeps_intros \<open>rules for invariants of actions\<close>
named_theorems returns_intros \<open>rules for the values of actions\<close>

lemma wp_combinators [wp_simps]:
  "wp (returnM a) Q E s = Q a s" "wp (throwM e) Q E s = E e s"
  "wp (getM f) Q E s = Q (f s) s"
  "wp (bindM m g) Q E s = wp m (\<lambda>a. wp (g a) Q E) E s"
  "wp (optM e v) Q E s = (case v of None \<Rightarrow> E e s | Some b \<Rightarrow> Q b s)"
  by (auto simp: wp_def returnM_def throwM_def getM_def bindM_def optM_def split: prod.splits sum.splits option.splits)

lemma wp_remote [wp_simps]:
  "wp (remote env call) Q E s =
     (let s1 = s\<lparr>calls := calls s + 1\<rparr> in
      case outcome_of env (calls s) of
        Refused \<Rightarrow> E RemoteError s1
      | out \<Rightarrow> (case call s1 of None \<Rightarrow> E RemoteError s1
         | Some (a, s2) \<Rightarrow> if out = Lost then E RemoteError s2 else Q (a, out = Flagged) s2))"
  by (auto simp: wp_def remote_def Let_def split: call_outcome.splits option.splits)

lemma wp_remoteI:
  assumes "E RemoteError (s\<lparr>calls := calls s + 1\<rparr>)"
    and "\<And>a s2. call (s\<lparr>calls := calls s + 1\<rparr>) = Some (a, s2) \<Longrightarrow> E RemoteError s2 \<and> (\<forall>b. Q (a, b) s2)"
  shows "wp (remote env call) Q E s"
  using assms by (auto simp: wp_remote Let_def split: call_outcome.splits option.splits)

lemma wp_mono:
  assumes "wp m Q E s" "\<And>a t. Q a t \<Longrightarrow> Q' a t" "\<And>e t. E e t \<Longrightarrow> E' e t"
  shows "wp m Q' E' s"
  using assms by (auto simp: wp_def split: prod.splits sum.splits)


lemma wp_Inr: "wp m Q E s \<Longrightarrow> m s = (Inr a, t) \<Longrightarrow> Q a t"
  by (simp add: wp_def)

lemma wp_answer:
  assumes "wp m Q E s"
  shows "(\<exists>a t. answer msg m s = (a, t) \<and> m s = (Inr a, t) \<and> Q a t) \<or>
    (\<exists>e t. answer msg m s = (Response 500 msg Empty_body (Some (Err_of e)), t) \<and> E e t)"
  using assms by (auto simp: wp_def answer_def split: prod.splits sum.splits)

lemma keeps_combinators [keeps_intros]:
  "keeps I (returnM a)" "keeps I (throwM e)" "keeps I (getM f)" "keeps I (optM e v)"
  "keeps I (h a b) \<Longrightarrow> keeps I (case (a, b) of (x, y) \<Rightarrow> h x y)"
  "(b \<Longrightarrow> keeps I m) \<Longrightarrow> (\<not> b \<Longrightarrow> keeps I m') \<Longrightarrow> keeps I (if b then m else m')"
  by (auto simp: keeps_def wp_combinators split: option.splits elim: wp_mono)

lemma keeps_bind [keeps_intros]:
  assumes "keeps I m" "\<And>a. keeps I (g a)"
  shows "keeps I (bindM m g)"
  unfolding keeps_def
proof (intro allI impI)
  fix s assume "I s"
  then have "wp m (\<lambda>_. I) (\<lambda>_. I) s"
    using assms(1) by (simp add: keeps_def)
  then show "wp (bindM m g) (\<lambda>_. I) (\<lambda>_. I) s"
    unfolding wp_combinators by (rule wp_mono) (use assms(2) in \<open>simp_all add: keeps_def\<close>)
qed

lemma returns_combinators [returns_intros]:
  "R a \<Longrightarrow> returns R (returnM a)" "returns R (throwM e)"
  "(\<And>x. returns R (g x)) \<Longrightarrow> returns R (bindM k g)"
  "(b \<Longrightarrow> returns R m) \<Longrightarrow> (\<not> b \<Longrightarrow> returns R m') \<Longrightarrow> returns R (if b then m else m')"
  by (auto simp: returns_def wp_combinators) (auto simp: wp_def split: prod.splits sum.splits)

lemma keeps_logged [keeps_intros]:
  "keeps I m \<Longrightarrow> keeps I (logged m)" "keeps I m \<Longrightarrow> keeps I (unlogged m)"
  unfolding logged_def unlogged_def by (intro keeps_intros; auto intro!: keeps_intros split: prod.split)+

text \<open>A predicate on the world that does not look at the counter of calls.\<close>

definition stable :: "(('c, 't, 'd, 's) world \<Rightarrow> bool) \<Rightarrow> bool" where
  "stable I = (\<forall>s n. I s \<longrightarrow> I (s\<lparr>calls := n\<rparr>))"

lemma keeps_remote:
  assumes "stable I" "\<And>s a t. I s \<Longrightarrow> call s = Some (a, t) \<Longrightarrow> I t"
  shows "keeps I (remote env call)"
  unfolding keeps_def
proof (intro allI impI wp_remoteI conjI)
  fix s assume "I s"
  then have s1: "I (s\<lparr>calls := calls s + 1\<rparr>)"
    using assms(1) by (simp add: stable_def)
  then show "I (s\<lparr>calls := calls s + 1\<rparr>)" .
  show "I t" "I t" if "call (s\<lparr>calls := calls s + 1\<rparr>) = Some (a, t)" for a t
    using assms(2) [OF s1 that] by auto
qed

lemma keeps_query [keeps_intros]: "stable I \<Longrightarrow> keeps I (query env f)"
  unfolding query_def by (rule keeps_remote) auto

lemma keeps_send:
  "stable I \<Longrightarrow> (\<And>s. I s \<Longrightarrow> I (s\<lparr>contract := tx (contract s)\<rparr>)) \<Longrightarrow> keeps I (send env tx)"
  unfolding send_def by (rule keeps_remote) auto

lemma keeps_abi [keeps_intros]:
  "keeps I (abi_uint env v)" "keeps I (abi_string env v)" "keeps I (abi_address a)"
  by (simp_all add: abi_uint_def abi_string_def abi_address_def keeps_intros)

lemma keeps_answer: "keeps I m \<Longrightarrow> I s \<Longrightarrow> I (snd (answer msg m s))"
  by (auto simp: keeps_def wp_def answer_def split: prod.splits sum.splits)

text \<open>The reads of the service keep every such predicate.\<close>

lemma keeps_reads [keeps_intros]:
  assumes "stable I"
  shows "keeps I (getAccount env v)" "keeps I (client_getPOById env v)" "keeps I (client_getInvoiceById env v)"
    "keeps I (client_getPOList env)" "keeps I (client_getInvoiceList env)" "keeps I (coin_balance env acc)"
    "keeps I (coin_getBalance env v)" "keeps I (ownerOf env i)" "keeps I (token_getBalance env v)"
    "keeps I (client_getMetadata env v)" "keeps I (getData env q)"
  unfolding getAccount_def client_getPOById_def client_getInvoiceById_def client_getPOList_def
    client_getInvoiceList_def coin_getBalance_def coin_balance_def ownerOf_def token_getBalance_def
    client_getMetadata_def getData_def
  by (intro keeps_intros assms)+

definition serve_all :: "('c, 't, 'd, 's) env \<Rightarrow> request list \<Rightarrow> ('c, 't, 'd, 's) world \<Rightarrow> ('c, 't, 'd, 's) world" where
  "serve_all env rs s = fold (\<lambda>r s. snd (serve env r s)) rs s"

section \<open>Reads\<close>

definition durable :: "('c, 't, 'd, 's) world \<Rightarrow>
    procurement_storage \<times> 't item_token \<times> 'c \<times> 'd \<times> 's \<times> nat \<times> (string \<times> js \<times> js) list" where
  "durable s = (contract s, tokens s, coins s, table s, swarm s, draws s, qr_files s)"


lemma stable_durable [keeps_intros]: "stable (\<lambda>s. durable s = d)"
  by (simp add: stable_def durable_def)

lemma keeps_get_loops [keeps_intros]:
  assumes "stable I"
  shows "keeps I (ctl_getPOById env v)" "keeps I (ctl_getInvoiceById env v)"
    "keeps I (invoice_details_loop env is)" "keeps I (getTransactionDetails env rows flt)"
proof -
  show p: "keeps I (ctl_getPOById env v)" "keeps I (ctl_getInvoiceById env v)" for v
    unfolding ctl_getPOById_def ctl_getInvoiceById_def by (intro keeps_intros assms)+
  show "keeps I (invoice_details_loop env is)"
    by (induction "is") (auto intro!: keeps_intros p)
  show "keeps I (getTransactionDetails env rows flt)"
    by (induction rows) (auto intro!: keeps_intros p simp: details_po_def details_invoice_def Let_def)
qed

lemma keeps_get_handlers [keeps_intros]:
  assumes "stable I"
  shows "keeps I (ctl_getPOList env)" "keeps I (ctl_getInvoiceList env)" "keeps I (getInvoiceDetailsList env)"
    "keeps I (getTransactions env flt)" "keeps I (getTransactionBySupplierId env v flt)"
    "keeps I (getTransactionById env v flt)" "keeps I (ctl_getBalance env v)" "keeps I (getOwnedTokenBalance env v)"
  unfolding ctl_getPOList_def ctl_getInvoiceList_def getInvoiceDetailsList_def getTransactions_def
    getTransactionBySupplierId_def getTransactionById_def ctl_getBalance_def getOwnedTokenBalance_def
    getProcurements_def getProcurementBySupplierId_def getProcurementById_def
  by (auto intro!: keeps_intros assms split: body.split)


section \<open>Invariants under every request\<close>

text \<open>What a predicate on the world needs so that every request keeps it: it looks only at the contract,
  the table and the number of drawn ids, and the writes of the service to these keep it.\<close>

locale service_invariant =
  fixes env :: "('c, 't, 'd, 's) env" and I :: "('c, 't, 'd, 's) world \<Rightarrow> bool"
  assumes framed: "I s \<Longrightarrow> I (s\<lparr>calls := n\<rparr>)" "I s \<Longrightarrow> I (s\<lparr>coins := c\<rparr>)" "I s \<Longrightarrow> I (s\<lparr>tokens := t\<rparr>)"
      "I s \<Longrightarrow> I (s\<lparr>swarm := w\<rparr>)" "I s \<Longrightarrow> I (s\<lparr>qr_files := q\<rparr>)" "I s \<Longrightarrow> I (s\<lparr>draws := draws s + 1\<rparr>)"
    and I_updatePOStatus: "I s \<Longrightarrow> I (s\<lparr>contract := updatePOStatus i x (contract s)\<rparr>)"
    and I_updateInvoiceStatus: "I s \<Longrightarrow> I (s\<lparr>contract := updateInvoiceStatus i INVOICE_PAYMENT_RECEIVED (contract s)\<rparr>)"
    and I_updateTokenId: "keeps I (updateTokenId env v v')"
    and I_issuePO: "keeps I (ctl_issuePO env body)"
    and I_post_invoice: "keeps I (post_invoice env (Str p) price)"
begin

lemma stable_I [keeps_intros]: "stable I"
  by (simp add: stable_def framed)

lemma keeps_clients [keeps_intros]:
  "keeps I (client_updatePOStatus env v x)"
  "keeps I (client_updateInvoiceStatus env v INVOICE_PAYMENT_RECEIVED)"
  unfolding client_updatePOStatus_def client_updateInvoiceStatus_def
  by (intro keeps_intros keeps_send; simp add: I_updatePOStatus I_updateInvoiceStatus)+

lemma keeps_off_contract [keeps_intros]:
  "keeps I (coin_send env src dst amt)" "keeps I (token_send env tx)"
  unfolding coin_send_def token_send_def
  by (intro keeps_intros keeps_remote; auto simp: framed)+

lemma keeps_local [keeps_intros]:
  "keeps I (fnGetUniqueID env)" "keeps I (generateQRCode env a b)"
  using framed(6) by (simp_all add: keeps_def wp_def fnGetUniqueID_def generateQRCode_def Let_def framed)

lemma keeps_swarm [keeps_intros]:
  "keeps I (fnPOST env md)" "keeps I (fnGET env u)"
proof -
  have "keeps I (unlogged (remote env (\<lambda>s. map_option (\<lambda>(h, w). (h, s\<lparr>swarm := w\<rparr>)) (swarm_post env md (swarm s)))))"
    by (intro keeps_intros keeps_remote) (auto simp: framed)
  then show "keeps I (fnPOST env md)"
    by (auto simp: keeps_def wp_def fnPOST_def split: prod.splits sum.splits)
  have "keeps I (unlogged (query env (\<lambda>s. swarm_get env u (swarm s))))"
    by (intro keeps_intros)
  then show "keeps I (fnGET env u)"
    by (auto simp: keeps_def wp_def fnGET_def split: prod.splits sum.splits)
qed

lemma keeps_composite_clients [keeps_intros]:
  "keeps I (transferAmt env a b n)" "keeps I (transferAmount env u v n)" "keeps I (client_mint env t)"
  "keeps I (mintDataToBC env req)" "keeps I (client_transferToken env u v t)" "keeps I (client_transfer env u v t)"
  unfolding transferAmt_def transferAmount_def client_mint_def mintDataToBC_def client_transferToken_def client_transfer_def
  by (intro keeps_intros)+

lemma keeps_orders [keeps_intros]:
  "keeps I (updatedPOStatus env v x)" "keeps I (ackPO env v)"
  unfolding updatedPOStatus_def ackPO_def Let_def
  by (intro keeps_intros)+

lemma keeps_handlers [keeps_intros]:
  "keeps I (payment env u v w)" "keeps I (mintItemToken env d b)"
  "keeps I (makeTokens env v)" "keeps I (transferToken env v x y rows)" "keeps I (retrieveMetadata env f)"
  "keeps I (getTransactionByTokenId env v)"
  unfolding payment_def mintItemToken_def makeTokens_def transferToken_def retrieveMetadata_def
    getTransactionByTokenId_def getProcurementByTokenId_def Let_def
  by (auto intro!: keeps_intros I_updateTokenId split: list.split simp: ctl_getMetadata_def [abs_def])

lemma keeps_routes [keeps_intros]:
  "keeps I (post_makeTokens env v)" "keeps I (post_transferToken env t v w)"
  unfolding post_makeTokens_def post_transferToken_def
  by (auto intro!: keeps_intros split: body.split)

lemma serve_keeps: "I s \<Longrightarrow> I (snd (serve env r s))"
  by (cases r) (auto intro!: keeps_answer keeps_intros I_issuePO I_post_invoice)

lemma serve_all_keeps: "I s \<Longrightarrow> I (serve_all env rs s)"
  unfolding serve_all_def by (induction rs arbitrary: s) (simp_all add: serve_keeps)

end

text \<open>A property of the contract's storage that the transactions the service can send keep is such an
  invariant.\<close>

locale contract_invariant =
  fixes C :: "procurement_storage \<Rightarrow> bool"
  assumes C_issuePO: "C st \<Longrightarrow> C (issuePO i a b c d PO_ISSUED st)"
    and C_issueInvoice: "C st \<Longrightarrow> C (issueInvoice i p a b c d e INVOICE_ISSUED st)"
    and C_updatePOStatus: "C st \<Longrightarrow> C (updatePOStatus i x st)"
    and C_updateInvoiceStatus: "C st \<Longrightarrow> C (updateInvoiceStatus i INVOICE_PAYMENT_RECEIVED st)"
begin

definition holds :: "('c, 't, 'd, 's) world \<Rightarrow> bool" where
  "holds s = C (contract s)"

lemma stable_holds [keeps_intros]: "stable holds"
  by (simp add: stable_def holds_def)

lemma keeps_writes [keeps_intros]:
  "keeps holds (createPO env v PO_ISSUED req)" "keeps holds (createInvoice env v INVOICE_ISSUED pr pd)"
  "keeps holds (client_updatePOStatus env v x)"
  unfolding createPO_def createInvoice_def client_updatePOStatus_def
  by (intro keeps_intros keeps_send; simp add: holds_def C_issuePO C_issueInvoice C_updatePOStatus)+

lemma keeps_table [keeps_intros]: "keeps holds (saveData env row)" "keeps holds (updateData env q u)"
  unfolding saveData_def updateData_def
  by (intro keeps_intros keeps_remote; auto simp: holds_def)+

lemma keeps_uid [keeps_intros]: "keeps holds (fnGetUniqueID env)"
  by (simp add: keeps_def wp_def holds_def fnGetUniqueID_def)

lemma keeps_issue: "keeps holds (ctl_issuePO env body)"
proof -
  have "keeps holds (issuePO_loop env t body ids)" for t ids
    by (induction body arbitrary: ids) (auto intro!: keeps_intros simp: createProcurement_def)
  then show ?thesis
    unfolding ctl_issuePO_def Let_def by (intro keeps_intros)
qed

lemma keeps_post_invoice: "keeps holds (post_invoice env v price)"
  unfolding post_invoice_def ackPO_def ctl_issueInvoice_def updateInvoice_def Let_def
  by (auto intro!: keeps_intros split: body.split)

lemma keeps_update_token: "keeps holds (updateTokenId env v v')"
  unfolding updateTokenId_def by (rule keeps_intros)

end

sublocale contract_invariant \<subseteq> service: service_invariant env holds for env
  using keeps_issue keeps_post_invoice keeps_update_token
  by unfold_locales (simp_all add: holds_def C_updatePOStatus C_updateInvoiceStatus)

definition no_invoice_completed :: "procurement_storage \<Rightarrow> bool" where
  "no_invoice_completed st = (\<forall>i. inv_status (invoices st i) \<noteq> INVOICE_COMPLETED)"

interpretation uncompleted: contract_invariant no_invoice_completed
  by unfold_locales (auto simp: no_invoice_completed_def contract_defs status_defs)

interpretation replayed: contract_invariant "\<lambda>st. replay (logs st) = st"
  using execute_replay [of _ "Tx_issuePO _ _ _ _ _ _"] execute_replay [of _ "Tx_issueInvoice _ _ _ _ _ _ _ _"]
    execute_replay [of _ "Tx_updatePOStatus _ _"] execute_replay [of _ "Tx_updateInvoiceStatus _ _"]
  by unfold_locales simp_all

text \<open>C32. No sequence of requests, with any answers and failures of the chain, the database and the
  swarm service, ever brings an invoice to the status COMPLETED: the step of the delivery that is
  meant to do so writes the status into the order with the invoice's id.\<close>

theorem invoice_never_completed:
  assumes "contract s = deployed"
  shows "inv_status (invoices (contract (serve_all env rs s)) i) \<noteq> INVOICE_COMPLETED"
proof -
  have "no_invoice_completed (contract s)"
    by (simp add: assms deployed_def no_invoice_completed_def zero_Invoice_def status_defs)
  then have "no_invoice_completed (contract (serve_all env rs s))"
    using uncompleted.service.serve_all_keeps [of s env rs] by (simp add: uncompleted.holds_def)
  then show ?thesis
    by (simp add: no_invoice_completed_def)
qed

section \<open>Replies\<close>

definition well_formed :: "'a response \<Rightarrow> bool" where
  "well_formed r = (resp_code r \<in> {200, 201, 404, 500} \<and>
     (resp_code r \<in> {200, 201} \<longrightarrow> resp_err r = None \<and> (\<exists>d. resp_data r = Body d)) \<and>
     (resp_code r = 404 \<longrightarrow> resp_data r = Null_body \<and> resp_err r \<noteq> None))"


lemma well_formed_Response:
  "well_formed (Response 200 m (Body d) None)" "well_formed (Response 201 m (Body d) None)"
  "well_formed (Response 500 m b e)" "well_formed (Response 404 m Null_body (Some x))"
  by (simp_all add: well_formed_def Response_def)

lemma returns_handlers [returns_intros]:
  "returns well_formed (getTransactions env flt)" "returns well_formed (getTransactionById env v flt)"
  "returns well_formed (getTransactionBySupplierId env v flt)" "returns well_formed (ctl_issuePO env body)"
  "returns well_formed (ctl_getPOById env v)" "returns well_formed (ctl_getPOList env)"
  "returns well_formed (ctl_getInvoiceById env v)" "returns well_formed (ctl_getInvoiceList env)"
  "returns well_formed (getInvoiceDetailsList env)" "returns well_formed (ctl_getBalance env v)"
  "returns well_formed (payment env u v w)" "returns well_formed (getOwnedTokenBalance env v)"
  "returns well_formed (retrieveMetadata env f)" "returns well_formed (ctl_issueInvoice env pd pr)"
  unfolding getTransactions_def getTransactionById_def getTransactionBySupplierId_def ctl_issuePO_def
    ctl_getPOById_def ctl_getPOList_def ctl_getInvoiceById_def ctl_getInvoiceList_def getInvoiceDetailsList_def
    ctl_getBalance_def payment_def getOwnedTokenBalance_def retrieveMetadata_def ctl_issueInvoice_def Let_def
  by (auto intro!: returns_intros simp: well_formed_Response truthy_def)

lemma returns_QR [returns_intros]: "returns well_formed (generateQRCode env a b)"
  by (simp add: returns_def wp_def generateQRCode_def Let_def well_formed_Response)

lemma returns_routes [returns_intros]:
  "returns well_formed (post_invoice env v pr)" "returns well_formed (post_makeTokens env v)"
  "returns well_formed (post_transferToken env t v w)"
  unfolding post_invoice_def post_makeTokens_def post_transferToken_def
  by (auto intro!: returns_intros split: body.split)



section \<open>Successful runs\<close>

named_theorems ok_simps \<open>what a successful run of an action did\<close>

definition answered :: "('c, 't, 'd, 's) env \<Rightarrow> nat \<Rightarrow> bool" where
  "answered env n = (outcome_of env n \<noteq> Refused \<and> outcome_of env n \<noteq> Lost)"

lemma ok_combinators [ok_simps]:
  "returnM a s = (Inr b, t) \<longleftrightarrow> b = a \<and> t = s"
  "throwM e s \<noteq> (Inr b, t)"
  "getM f s = (Inr b, t) \<longleftrightarrow> b = f s \<and> t = s"
  "optM e v s = (Inr b, t) \<longleftrightarrow> v = Some b \<and> t = s"
  by (auto simp: returnM_def throwM_def getM_def optM_def split: option.splits)

lemma ok_bind [ok_simps]:
  "bindM m f s = (Inr b, t) \<longleftrightarrow> (\<exists>a s1. m s = (Inr a, s1) \<and> f a s1 = (Inr b, t))"
  by (auto simp: bindM_def split: prod.splits sum.splits)

lemma ok_remote [ok_simps]:
  "remote env call s = (Inr (a, flagged), t) \<longleftrightarrow> answered env (calls s) \<and>
     flagged = (outcome_of env (calls s) = Flagged) \<and> call (s\<lparr>calls := calls s + 1\<rparr>) = Some (a, t)"
  by (auto simp: remote_def Let_def answered_def split: option.splits)

lemma ok_logged [ok_simps]:
  "unlogged (remote env call) s = (Inr a, t) \<longleftrightarrow> answered env (calls s) \<and> call (s\<lparr>calls := calls s + 1\<rparr>) = Some (a, t)"
  "logged (remote env call) s = (Inr a, t) \<longleftrightarrow> outcome_of env (calls s) = Delivered \<and>
     call (s\<lparr>calls := calls s + 1\<rparr>) = Some (a, t)"
  by (auto simp: unlogged_def logged_def ok_bind ok_remote answered_def ok_combinators split: if_splits)
    (metis call_outcome.exhaust)

lemma ok_abi [ok_simps]:
  "abi_uint env v s = (Inr i, t) \<longleftrightarrow> encode_uint env v = Some i \<and> t = s"
  "abi_string env v s = (Inr x, t) \<longleftrightarrow> encode_string env v = Some x \<and> t = s"
  "abi_address a s = (Inr y, t) \<longleftrightarrow> a = Some y \<and> t = s"
  by (simp_all add: abi_uint_def abi_string_def abi_address_def ok_simps)

lemma ok_calls [ok_simps]:
  "unlogged (query env f) s = (Inr a, t) \<longleftrightarrow> answered env (calls s) \<and> t = s\<lparr>calls := calls s + 1\<rparr> \<and> f t = Some a"
  "logged (query env f) s = (Inr a, t) \<longleftrightarrow> outcome_of env (calls s) = Delivered \<and> t = s\<lparr>calls := calls s + 1\<rparr> \<and> f t = Some a"
  "logged (send env tx) s = (Inr v, t) \<longleftrightarrow> outcome_of env (calls s) = Delivered \<and> v = Obj \<and>
     t = s\<lparr>calls := calls s + 1, contract := tx (contract s)\<rparr>"
  by (auto simp: query_def send_def ok_simps)

lemma answer_ok:
  assumes "answer msg m s = (r, t)" "resp_code r \<noteq> 500"
  shows "m s = (Inr r, t)"
  using assms by (auto simp: answer_def Response_def split: prod.splits sum.splits)

section \<open>Numbers\<close>

lemma js_round_exact: "n < 2 ^ 53 \<Longrightarrow> js_round n = n"
proof -
  assume "n < 2 ^ 53"
  then have "floorlog 2 n - 53 = 0"
    using floorlog_leI [of n 2 53] by simp
  then show ?thesis
    by (simp add: js_round_def Let_def)
qed

lemma js_round_0: "js_round n = 0 \<longleftrightarrow> n = 0"
proof
  assume r: "js_round n = 0"
  show "n = 0"
  proof (rule ccontr)
    assume n: "n \<noteq> 0"
    define e where "e = floorlog 2 n - 53"
    have "2 ^ e \<le> n"
    proof -
      have "e \<le> floorlog 2 n - 1"
        by (simp add: e_def)
      then have "(2 :: nat) ^ e \<le> 2 ^ (floorlog 2 n - 1)"
        by (simp add: power_increasing)
      also have "\<dots> \<le> n"
        using n floorlog_bounds [of n 2] by simp
      finally show ?thesis .
    qed
    then have "0 < n div 2 ^ e"
      by (simp add: div_greater_zero_iff)
    then have "0 < js_round n"
      by (simp add: js_round_def Let_def e_def [symmetric])
    with r show False by simp
  qed
qed (simp add: js_round_def floorlog_def)

lemma js_Number_exact: "unat w < 2 ^ 53 \<Longrightarrow> js_Number w = uint w"
  by (simp add: js_Number_def js_round_exact)

lemma uint_less_double: "unat w < 2 ^ 53 \<Longrightarrow> uint w < 2 ^ 53"
  by (metis of_nat_less_numeral_power_cancel_iff uint_nat)

lemma js_Number_0: "js_Number w = 0 \<longleftrightarrow> w = 0"
  by (simp add: js_Number_def js_round_0 unat_eq_zero)

section \<open>Payment\<close>

text \<open>Documented behaviour of web3's encoder: strings encode as themselves and nothing else encodes as
  a string; a big number and a safe integer encode as their value, directly and through \<open>toHex\<close>.\<close>

definition encoder_ok :: "('c, 't, 'd, 's) env \<Rightarrow> bool" where
  "encoder_ok env = ((\<forall>v x. encode_string env v = Some x \<longleftrightarrow> v = Str x) \<and>
     (\<forall>w. encode_uint env (Big w) = Some w) \<and>
     (\<forall>w. uint w < 2 ^ 53 \<longrightarrow> encode_uint env (Num (uint w)) = Some w) \<and>
     (\<forall>w. uint w < 2 ^ 53 \<longrightarrow> (\<exists>h. toHex env (Num (uint w)) = Some h \<and> encode_uint env h = Some w)))"

definition moved :: "address \<Rightarrow> address \<Rightarrow> uint \<Rightarrow> (address \<Rightarrow> uint) \<Rightarrow> address \<Rightarrow> uint" where
  "moved src dst v bal a = (if src = dst then bal a else if a = src then bal src - v
     else if a = dst then bal dst + v else bal a)"

text \<open>Documented behaviour of an ERC20 transfer that does not revert.\<close>

definition erc20_ok :: "('c, 't, 'd, 's) env \<Rightarrow> bool" where
  "erc20_ok env = (\<forall>src dst v c c'. coin_transfer env src dst v c = Some c' \<longrightarrow>
     v \<le> coin_balanceOf env c src \<and> coin_balanceOf env c' = moved src dst v (coin_balanceOf env c))"

lemma moved_through:
  assumes "v \<le> bal bank" "bal payer = 0"
  shows "moved payer dst v (moved bank payer v bal) = moved bank dst v bal"
  using assms by (auto simp: moved_def fun_eq_iff)

definition coins_only :: "('c, 't, 'd, 's) world \<Rightarrow> ('c, 't, 'd, 's) world \<Rightarrow> bool" where
  "coins_only s t = (durable t = durable (s\<lparr>coins := coins t\<rparr>))"

lemma coins_only_fields:
  "coins_only s t \<longleftrightarrow> contract t = contract s \<and> tokens t = tokens s \<and> table t = table s \<and> swarm t = swarm s \<and>
     draws t = draws s \<and> qr_files t = qr_files s"
  by (auto simp: coins_only_def durable_def)

lemma coin_send_ok:
  assumes "erc20_ok env" "coin_send env src dst v s = (Inr h, t)"
  shows "coins_only s t \<and> v \<le> coin_balanceOf env (coins s) src \<and>
    coin_balanceOf env (coins t) = moved src dst v (coin_balanceOf env (coins s))"
  using assms by (auto simp: coin_send_def ok_simps erc20_ok_def coins_only_fields)

lemma transferAmt_ok:
  assumes "encoder_ok env" "erc20_ok env" "unat v < 2 ^ 53"
    and "transferAmt env (Some src) (Some dst) (js_Number v) s = (Inr h, t)"
  shows "coins_only s t \<and> v \<le> coin_balanceOf env (coins s) src \<and>
    coin_balanceOf env (coins t) = moved src dst v (coin_balanceOf env (coins s))"
proof -
  obtain x where x: "toHex env (Num (uint v)) = Some x" "encode_uint env x = Some v"
    using assms(1) uint_less_double [OF assms(3)] unfolding encoder_ok_def by blast
  then obtain s1 n where s1: "coin_send env src dst v s1 = (Inr h, t)" "s1 = s\<lparr>calls := n\<rparr>"
    using assms(3,4) by (auto simp: transferAmt_def ok_simps js_Number_exact)
  show ?thesis
    using coin_send_ok [OF assms(2) s1(1)] unfolding s1(2) by (simp add: coins_only_fields)
qed

lemma coin_balance_ok [ok_simps]:
  "coin_balance env acc s = (Inr n, t) \<longleftrightarrow> (\<exists>a. acc = Some a \<and> answered env (calls s) \<and>
     t = s\<lparr>calls := calls s + 1\<rparr> \<and> n = js_Number (coin_balanceOf env (coins s) a))"
  by (auto simp: coin_balance_def ok_simps)

lemma getAccount_ok [ok_simps]:
  "getAccount env v s = (Inr a, t) \<longleftrightarrow> answered env (calls s) \<and> t = s\<lparr>calls := calls s + 1\<rparr> \<and>
     a = js_index (accounts env) v"
  by (auto simp: getAccount_def ok_simps)

lemma transferAmount_ok:
  assumes "encoder_ok env" "erc20_ok env" "unat v < 2 ^ 53"
    and run: "transferAmount env x y (js_Number v) s = (Inr d, t)"
  shows "\<exists>payer dst. js_index (accounts env) x = Some payer \<and> js_index (accounts env) y = Some dst \<and> coins_only s t \<and>
    (let bal = coin_balanceOf env (coins s); src = (if bal payer = 0 then coinbase env else payer) in
     v \<le> bal src \<and> coin_balanceOf env (coins t) = moved src dst v bal)"
proof -
  let ?bal = "coin_balanceOf env (coins s)"
  obtain payer dst where pd: "js_index (accounts env) x = Some payer" "js_index (accounts env) y = Some dst"
    using run by (auto simp: transferAmount_def ok_simps)
  define s1 where "s1 = s\<lparr>calls := Suc (Suc (Suc (Suc (calls s))))\<rparr>"
  then have s1: "coins_only s s1" "coins s1 = coins s"
    by (simp_all add: coins_only_fields)
  obtain s2 s3 u h where
    top: "(if ?bal payer = 0 then bindM (abi_address (Some payer)) (\<lambda>u. bindM (abi_uint env (Num (js_Number v))) (coin_send env (coinbase env) u))
           else returnM Undefined) s1 = (Inr u, s2)" and
    amt: "transferAmt env (Some payer) (Some dst) (js_Number v) s2 = (Inr h, s3)" and
    t': "t = s3\<lparr>calls := Suc (calls s3)\<rparr>"
    using run unfolding s1_def transferAmount_def
    by (simp add: ok_simps pd js_Number_0) blast
  then have t: "coins_only s3 t" "coins t = coins s3"
    by (simp_all add: coins_only_fields)
  have enc: "encode_uint env (Num (js_Number v)) = Some v"
    using assms(1) uint_less_double [OF assms(3)] by (simp add: encoder_ok_def js_Number_exact [OF assms(3)])
  note a = transferAmt_ok [OF assms(1-3) amt]
  show ?thesis
  proof (cases "?bal payer = 0")
    case True
    then have "coin_send env (coinbase env) payer v s1 = (Inr u, s2)"
      using top by (auto simp: ok_simps enc)
    note c = coin_send_ok [OF assms(2) this]
    have "coin_balanceOf env (coins t) = moved payer dst v (moved (coinbase env) payer v ?bal)"
      using a c s1(2) t(2) by simp
    moreover have "v \<le> ?bal (coinbase env)"
      using c s1(2) by simp
    moreover have "coins_only s t"
      using a c s1(1) t(1) by (simp add: coins_only_fields)
    ultimately show ?thesis
      using True by (simp add: pd Let_def moved_through)
  next
    case False
    then have "s2 = s1"
      using top by (simp add: ok_simps)
    then have "coin_balanceOf env (coins t) = moved payer dst v ?bal" "v \<le> ?bal payer" "coins_only s t"
      using a s1 t by (simp_all add: coins_only_fields)
    then show ?thesis
      using False by (simp add: pd Let_def)
  qed
qed

text \<open>C31. A payment that is answered with 200 moved exactly the price of the invoice to the supplier's
  account, from the payer, or from the administrator when the payer had no coins at all; the source
  had at least that much, no other balance changed, the invoice is marked as paid and the contracts
  and the table are otherwise untouched.  (For a price a JavaScript number represents exactly.)\<close>

theorem payment_exact:
  assumes "encoder_ok env" "erc20_ok env"
    and "encode_uint env (Str invoiceId) = Some i" "price = inv_price (invoices (contract s) i)" "unat price < 2 ^ 53"
    and "serve env (Post_paySupplier invoiceId payerId supplierId) s = (R_id r, t)" "resp_code r = 200"
  shows "contract t = updateInvoiceStatus i INVOICE_PAYMENT_RECEIVED (contract s) \<and>
    tokens t = tokens s \<and> table t = table s \<and> swarm t = swarm s \<and>
    (\<exists>payer supplier. js_index (accounts env) (Str payerId) = Some payer \<and>
       js_index (accounts env) (Str supplierId) = Some supplier \<and>
       (let bal = coin_balanceOf env (coins s); src = (if bal payer = 0 then coinbase env else payer) in
        price \<le> bal src \<and> coin_balanceOf env (coins t) = moved src supplier price bal))"
proof -
  have "payment env (Str invoiceId) (Str payerId) (Str supplierId) s = (Inr r, t)"
    using assms(6,7) by (auto simp: apfst_def map_prod_def split: prod.splits intro!: answer_ok)
  then obtain s2 d where
    tr: "transferAmount env (Str payerId) (Str supplierId) (js_Number price) (s\<lparr>calls := Suc (calls s)\<rparr>) = (Inr d, s2)"
    and t: "t = s2\<lparr>calls := Suc (calls s2), contract := updateInvoiceStatus i INVOICE_PAYMENT_RECEIVED (contract s2)\<rparr>"
    using assms(3,4,7)
    by (auto simp: payment_def ok_simps client_getInvoiceById_def client_updateInvoiceStatus_def mapInvoiceData_def
        getInvoiceById_def Let_def Response_def split: if_splits)
  show ?thesis
    using transferAmount_ok [OF assms(1,2,5) tr] t by (auto simp: coins_only_fields Let_def)
qed

section \<open>The table and the contract\<close>

fun row_get :: "row_field \<Rightarrow> procurement_row \<Rightarrow> js" where
  "row_get F_transaction_id r = row_transaction_id r"
| "row_get F_supplier_id r = row_supplier_id r"
| "row_get F_po_id r = row_po_id r"
| "row_get F_invoice_id r = row_invoice_id r"
| "row_get F_token_id r = row_token_id r"
| "row_get F_item_price r = row_item_price r"

fun row_set :: "row_field \<times> js \<Rightarrow> procurement_row \<Rightarrow> procurement_row" where
  "row_set (F_transaction_id, v) r = r\<lparr>row_transaction_id := v\<rparr>"
| "row_set (F_supplier_id, v) r = r\<lparr>row_supplier_id := v\<rparr>"
| "row_set (F_po_id, v) r = r\<lparr>row_po_id := v\<rparr>"
| "row_set (F_invoice_id, v) r = r\<lparr>row_invoice_id := v\<rparr>"
| "row_set (F_token_id, v) r = r\<lparr>row_token_id := v\<rparr>"
| "row_set (F_item_price, v) r = r\<lparr>row_item_price := v\<rparr>"

fun update_first :: "('a \<Rightarrow> bool) \<Rightarrow> ('a \<Rightarrow> 'a) \<Rightarrow> 'a list \<Rightarrow> 'a list" where
  "update_first P f [] = []"
| "update_first P f (x # xs) = (if P x then f x # xs else x # update_first P f xs)"













lemma contract_reads [simp]:
  "po_supplierId (pos (updatePOStatus i x st) u) = po_supplierId (pos st u)"
  "poArray (updatePOStatus i x st) = poArray st" "invoiceArray (updatePOStatus i x st) = invoiceArray st"
  "invoices (updatePOStatus i x st) = invoices st" "pos (updateInvoiceStatus i x st) = pos st"
  "inv_poId (invoices (updateInvoiceStatus i x st) u) = inv_poId (invoices st u)"
  "poArray (updateInvoiceStatus i x st) = poArray st" "invoiceArray (updateInvoiceStatus i x st) = invoiceArray st"
  "po_supplierId (pos (issuePO i a b c d e st) i) = a" "poArray (issuePO i a b c d e st) = poArray st @ [i]"
  "inv_poId (invoices (issueInvoice i p a b c d g e st) i) = p"
  "invoiceArray (issueInvoice i p a b c d g e st) = invoiceArray st @ [i]"
  by (simp_all add: contract_defs)






section \<open>The writes of the service keep the table backed\<close>




















section \<open>Orders can be read back\<close>














section \<open>An instance of the environment\<close>

text \<open>A chain with four accounts, a table that is a list, and a clock that gives three usable ids.\<close>

definition sample_encode :: "js \<Rightarrow> uint option" where
  "sample_encode v = (case v of Num n \<Rightarrow> if 0 \<le> n then Some (word_of_int n) else None | Big w \<Rightarrow> Some w
     | Str s \<Rightarrow> map_of [(''5'', 5), (''6'', 6), (''8'', 8)] s | _ \<Rightarrow> None)"

definition sample_env :: "(address \<Rightarrow> uint, unit, procurement_row list, unit) env" where
  "sample_env = \<lparr>accounts = [10, 11, 12, 13], coinbase = 10, encode_uint = sample_encode,
     encode_string = (\<lambda>v. case v of Str x \<Rightarrow> Some x | _ \<Rightarrow> None),
     toHex = (\<lambda>v. case v of Num n \<Rightarrow> Some (Big (word_of_int n)) | _ \<Rightarrow> Some v),
     outcome_of = (\<lambda>_. Delivered), tx_hash = (\<lambda>_. ''0xabc''),
     clock_random = (\<lambda>n. if n = 0 then (5, ''0.'') else if n = 1 then (6, ''0.'') else if n = 2 then (8, ''0.'') else (7, ''0.'')),
     coin_balanceOf = (\<lambda>c. c), coin_transfer = (\<lambda>a b v c. if v \<le> c a then Some (moved a b v c) else None),
     token_mint = (\<lambda>_ _. Some), token_ownerOf = (\<lambda>_ _. None), token_transferFrom = (\<lambda>_ _ _ _. Some),
     token_balanceOf = (\<lambda>_ _. 0), db_save = (\<lambda>r t. Some (t @ [r])),
     db_find = (\<lambda>q t. filter (\<lambda>r. list_all (\<lambda>(f, v). row_get f r = v) q) t),
     db_update = (\<lambda>q u t. Some (update_first (\<lambda>r. list_all (\<lambda>(f, v). row_get f r = v) q) (fold row_set u) t)),
     swarm_post = (\<lambda>_ _. None), swarm_get = (\<lambda>_ _. None), qr_folder = ''qr/''\<rparr>"

definition sample_world :: "procurement_storage \<Rightarrow> (address \<Rightarrow> uint, unit, procurement_row list, unit) world" where
  "sample_world st = \<lparr>contract = st, tokens = \<lparr>erc721 = (), itemMetadata = (\<lambda>_. \<lparr>item_itemType = 0, item_uom = [],
     item_qty = 0, item_price = 0\<rparr>)\<rparr>, coins = (\<lambda>_. 0)(10 := 1000), table = [], swarm = (), calls = 0, draws = 0, qr_files = []\<rparr>"

definition sample_order :: po_request where
  "sample_order = \<lparr>rq_supplierId = Str ''CHEESECO'', rq_itemType = Str ''CHEESE'', rq_qty = Num 20, rq_uom = Str ''kg''\<rparr>"

lemma sample_encoder: "encoder_ok sample_env"
  by (auto simp: encoder_ok_def sample_env_def sample_encode_def split: js.splits)

lemma sample_erc20: "erc20_ok sample_env"
  by (auto simp: erc20_ok_def sample_env_def fun_eq_iff split: if_splits)




theorem invoice_never_completed_witness:
  "contract (sample_world deployed) = deployed \<and>
   inv_status (invoices (contract (serve_all sample_env
     [Post_purchase_order [sample_order], Post_invoice ''6'' (Num 30), Post_transferToken ''8'' ''2'' ''1''] (sample_world deployed))) 8)
     \<noteq> INVOICE_COMPLETED"
  using invoice_never_completed [of "sample_world deployed"] by (simp add: sample_world_def)

theorem payment_exact_witness:
  "coin_balanceOf sample_env (coins (snd (serve sample_env (Post_paySupplier ''8'' ''1'' ''2'')
      (sample_world (issueInvoice 8 6 ''CHEESECO'' 1 20 ''kg'' 30 INVOICE_ISSUED deployed))))) 12 = 30"
proof -
  define s where "s = sample_world (issueInvoice 8 6 ''CHEESECO'' 1 20 ''kg'' 30 INVOICE_ISSUED deployed)"
  define r where "r = Response 200 ''Payment done'' (Body (Str ''0xabc'')) None"
  have "fst (serve sample_env (Post_paySupplier ''8'' ''1'' ''2'') s) = R_id r"
    unfolding s_def r_def by code_simp
  then obtain t where t: "serve sample_env (Post_paySupplier ''8'' ''1'' ''2'') s = (R_id r, t)"
    by (metis prod.collapse)
  have acc: "js_index (accounts sample_env) (Str ''1'') = Some 11" "js_index (accounts sample_env) (Str ''2'') = Some 12"
    by code_simp+
  have "coin_balanceOf sample_env (coins t) = moved 10 12 30 (coin_balanceOf sample_env (coins s))"
    using payment_exact [OF sample_encoder sample_erc20 _ refl _ t, of 8] acc
    by (simp add: s_def r_def Response_def sample_world_def sample_env_def sample_encode_def issueInvoice_def)
  then show ?thesis
    unfolding s_def [symmetric] t by (simp add: moved_def s_def sample_world_def sample_env_def)
qed




end
