(* ===== verification/Util.thy ===== *)
theory Util
  imports Prelude "HOL-Library.Char_ord"
begin

text \<open>
  \<open>util.c\<close>: conversion between 64 bit integers and decimal strings, and the glob style
  matcher.  Strings are byte sequences; a C string argument of a given length is the list
  of its bytes, and the byte after the last one, where the code looks at it, is the NUL
  terminator that every \<open>sds\<close> string carries.
\<close>

section \<open>Decimal conversion\<close>

definition ULLONG_MAX :: nat where "ULLONG_MAX = 2 ^ 64 - 1"
definition LLONG_MAX :: nat where "LLONG_MAX = 2 ^ 63 - 1"

text \<open>The \<open>unsigned\<close> comparisons of \<open>digits10\<close> add 1 when they hold.\<close>

function digits10 :: "nat \<Rightarrow> nat" where
  "digits10 v =
     (if v < 10 then 1
      else if v < 100 then 2
      else if v < 1000 then 3
      else if v < 1000000000000 then
        (if v < 100000000 then
           (if v < 1000000 then
              (if v < 10000 then 4 else 5 + of_bool (v \<ge> 100000))
            else 7 + of_bool (v \<ge> 10000000))
         else if v < 10000000000 then 9 + of_bool (v \<ge> 1000000000)
         else 11 + of_bool (v \<ge> 100000000000))
      else 12 + digits10 (v div 1000000000000))"
  by pat_completeness auto
termination by (relation "measure id") auto

declare digits10.simps [simp del]

definition sdigits10 :: "int \<Rightarrow> nat" where
  "sdigits10 v =
     (if v < 0 then
        (let uv = (if v \<noteq> - (2 ^ 63) then nat (- v) else LLONG_MAX + 1) in digits10 uv + 1)
      else digits10 (nat v))"

definition ascii :: "string \<Rightarrow> bytes" where
  "ascii cs = map (\<lambda>c. word_of_nat (of_char c)) cs"

definition digits_table :: bytes where
  "digits_table = ascii (
     ''0001020304050607080910111213141516171819'' @
     ''2021222324252627282930313233343536373839'' @
     ''4041424344454647484950515253545556575859'' @
     ''6061626364656667686970717273747576777879'' @
     ''8081828384858687888990919293949596979899'')"

definition digit_char :: "nat \<Rightarrow> byte" where
  "digit_char d = word_of_nat (48 + d)"

fun ll2string_loop :: "bytes \<Rightarrow> nat \<Rightarrow> nat \<Rightarrow> bytes \<times> nat \<times> nat" where
  "ll2string_loop dst next value =
     (if value \<ge> 100 then
        (let i = (value mod 100) * 2 in
         ll2string_loop (dst[next := digits_table ! (i + 1), next - 1 := digits_table ! i])
           (next - 2) (value div 100))
      else (dst, next, value))"

declare ll2string_loop.simps [simp del]

text \<open>
  \<open>ll2string dst svalue\<close>: \<open>dst\<close> is the destination buffer, of length \<open>dstlen\<close>; the result
  is the returned length and the buffer after the call.
\<close>

definition ll2string :: "bytes \<Rightarrow> int \<Rightarrow> nat \<times> bytes" where
  "ll2string dst svalue =
     (let (value, negative) =
            (if svalue < 0 then
               ((if svalue \<noteq> - (2 ^ 63) then nat (- svalue) else LLONG_MAX + 1), True)
             else (nat svalue, False));
          len = digits10 value + (if negative then 1 else 0)
      in if len \<ge> length dst then (0, dst)
         else
           (let dst = dst[len := 0];
                (dst, next, value) = ll2string_loop dst (len - 1) value;
                dst = (if value < 10 then dst[next := digit_char value]
                       else dst[next := digits_table ! (value * 2 + 1),
                                next - 1 := digits_table ! (value * 2)]);
                dst = (if negative then dst[0 := 45] else dst)
            in (len, dst)))"

definition is_digit :: "byte \<Rightarrow> bool" where
  "is_digit c \<longleftrightarrow> 48 \<le> unat c \<and> unat c \<le> 57"

text \<open>The digit loop: \<open>None\<close> is the overflow return, otherwise the value and the unread rest.\<close>

fun string2ll_loop :: "bytes \<Rightarrow> nat \<Rightarrow> (nat \<times> bytes) option" where
  "string2ll_loop [] v = Some (v, [])"
| "string2ll_loop (c # cs) v =
     (if is_digit c then
        (if v > ULLONG_MAX div 10 then None
         else
           (let v = v * 10 in
            if v > ULLONG_MAX - (unat c - 48) then None
            else string2ll_loop cs (v + (unat c - 48))))
      else Some (v, c # cs))"

definition string2ll :: "bytes \<Rightarrow> int option" where
  "string2ll s =
     (if length s = 0 then None
      else if length s = 1 \<and> hd s = 48 then Some 0
      else
        (let negative = (hd s = 45); p = (if negative then tl s else s) in
         case p of
           [] \<Rightarrow> None
         | c # cs \<Rightarrow>
             if 49 \<le> unat c \<and> unat c \<le> 57 then
               (case string2ll_loop cs (unat c - 48) of
                  None \<Rightarrow> None
                | Some (v, rest) \<Rightarrow>
                    if rest \<noteq> [] then None
                    else if negative then
                      (if v > LLONG_MAX + 1 then None
                       else Some (to_sint 64 (to_uint 64 (- int v))))
                    else if v > LLONG_MAX then None
                    else Some (int v))
             else None))"

definition string2l :: "bytes \<Rightarrow> int option" where
  "string2l s =
     (case string2ll s of
        None \<Rightarrow> None
      | Some llval \<Rightarrow>
          if llval < - (2 ^ 63) \<or> llval > 2 ^ 63 - 1 then None else Some llval)"

section \<open>The reference: canonical decimal notation\<close>

fun dec :: "nat \<Rightarrow> bytes" where
  "dec n = (if n < 10 then [digit_char n] else dec (n div 10) @ [digit_char (n mod 10)])"

declare dec.simps [simp del]

definition show_int :: "int \<Rightarrow> bytes" where
  "show_int v = (if v < 0 then 45 # dec (nat (- v)) else dec (nat v))"

lemma dec_small: "n < 10 \<Longrightarrow> dec n = [digit_char n]"
  by (simp add: dec.simps)

lemma dec_step: "0 < n \<Longrightarrow> d < 10 \<Longrightarrow> dec (n * 10 + d) = dec n @ [digit_char d]"
  by (simp add: dec.simps [of "n * 10 + d"])

lemma dec_nonempty [simp]: "dec n \<noteq> []"
  by (simp add: dec.simps)

lemma unat_digit [simp]: "d < 10 \<Longrightarrow> unat (digit_char d) = 48 + d"
  unfolding digit_char_def by (simp only: unat_byte_of_nat) simp

lemma digit_char_unat: "is_digit c \<Longrightarrow> digit_char (unat c - 48) = c"
  unfolding digit_char_def is_digit_def by (simp only: le_add_diff_inverse) simp

lemma is_digit_digit_char [simp]: "d < 10 \<Longrightarrow> is_digit (digit_char d)"
  by (simp add: is_digit_def)

lemma dec_digits: "c \<in> set (dec n) \<Longrightarrow> is_digit c"
proof (induction n rule: dec.induct)
  case (1 n)
  then show ?case by (auto simp: dec.simps [of n] split: if_splits)
qed

lemma dec_hd: "0 < n \<Longrightarrow> 49 \<le> unat (hd (dec n)) \<and> unat (hd (dec n)) \<le> 57"
proof (induction n rule: dec.induct)
  case (1 n)
  then show ?case by (cases "n < 10") (simp_all add: dec.simps [of n])
qed

lemma dec_inj: "dec m = dec n \<Longrightarrow> m = n"
proof (induction m arbitrary: n rule: dec.induct)
  case (1 m)
  have len1: "length (dec k) = 1 \<longleftrightarrow> k < 10" for k
    by (simp add: dec.simps [of k])
  have dig: "digit_char a = digit_char b \<Longrightarrow> a < 10 \<Longrightarrow> b < 10 \<Longrightarrow> a = b" for a b
    by (metis add_left_cancel unat_digit)
  show ?case
  proof (cases "m < 10")
    case True
    then have "n < 10" using len1 "1.prems" by metis
    with True "1.prems" dig show ?thesis by (simp add: dec_small)
  next
    case False
    then have "\<not> n < 10" using len1 "1.prems" by metis
    with False "1.prems" have "dec (m div 10) = dec (n div 10)" and "digit_char (m mod 10) = digit_char (n mod 10)"
      by (simp_all add: dec.simps [of m] dec.simps [of n])
    then have "m div 10 = n div 10" "m mod 10 = n mod 10"
      using "1.IH" [OF False] dig by (simp, metis mod_less_divisor zero_less_numeral)
    then show ?thesis by (metis div_mult_mod_eq)
  qed
qed

section \<open>Parsing\<close>

lemma string2ll_loop_dec:
  assumes "0 < v" and "v \<le> ULLONG_MAX"
  shows "string2ll_loop cs v = Some (w, []) \<longleftrightarrow> dec w = dec v @ cs \<and> w \<le> ULLONG_MAX"
  using assms
proof (induction cs v rule: string2ll_loop.induct)
  case (1 v)
  then show ?case by (auto dest: dec_inj)
next
  case (2 c cs v)
  show ?case
  proof (cases "is_digit c")
    case False
    have "dec w \<noteq> dec v @ c # cs"
    proof
      assume "dec w = dec v @ c # cs"
      then have "c \<in> set (dec w)" by simp
      with False dec_digits show False by blast
    qed
    with False show ?thesis by simp
  next
    case True
    define d where "d = unat c - 48"
    have d: "d < 10" "digit_char d = c" using True by (auto simp: d_def is_digit_def digit_char_unat)
    have step: "dec (v * 10 + d) = dec v @ [c]" using d "2.prems" by (simp add: dec_step)
    have le: "v * 10 + d \<le> w" if "dec w = dec v @ c # cs" for w
      using that
    proof (induction cs arbitrary: w rule: rev_induct)
      case Nil
      then have "w = v * 10 + d" using step dec_inj by metis
      then show ?case by simp
    next
      case (snoc x xs)
      have "\<not> w < 10" using snoc.prems by (auto simp: dec_small)
      then have "dec (w div 10) = dec v @ c # xs"
        using snoc.prems by (simp add: dec.simps [of w])
      then have "v * 10 + d \<le> w div 10" by (rule snoc.IH)
      then show ?case by (meson div_le_dividend le_trans)
    qed
    show ?thesis
    proof (cases "v * 10 + d \<le> ULLONG_MAX")
      case True
      then have "\<not> v > ULLONG_MAX div 10" "\<not> v * 10 > ULLONG_MAX - d" by auto
      with \<open>is_digit c\<close> "2.IH" [OF \<open>is_digit c\<close> _ refl] "2.prems" True step show ?thesis
        by (simp add: d_def)
    next
      case False
      moreover have "d \<le> ULLONG_MAX" using d by (simp add: ULLONG_MAX_def)
      ultimately have "v > ULLONG_MAX div 10 \<or> v * 10 > ULLONG_MAX - d" by linarith
      then have "string2ll_loop (c # cs) v = None"
        using \<open>is_digit c\<close> by (auto simp: d_def [symmetric] Let_def)
      moreover have "\<not> (dec w = dec v @ c # cs \<and> w \<le> ULLONG_MAX)" using le [of w] False by linarith
      ultimately show ?thesis by simp
    qed
  qed
qed


lemma to_sint_neg: "v \<le> 2 ^ 63 \<Longrightarrow> to_sint 64 (to_uint 64 (- int v)) = - int v"
  by (rule to_sint_to_uint) (auto simp: in_sint_def)

lemma string2ll_unsigned:
  assumes "v < 2 ^ 64" and "0 < v"
  shows "string2ll_loop (tl (dec v)) (unat (hd (dec v)) - 48) = Some (v, [])"
proof -
  define d where "d = unat (hd (dec v)) - 48"
  have "is_digit (hd (dec v))" using dec_digits [of "hd (dec v)" v] by simp
  then have d: "0 < d" "d < 10" "digit_char d = hd (dec v)"
    using dec_hd [OF assms(2)] by (auto simp: d_def is_digit_def digit_char_unat)
  then have "dec d @ tl (dec v) = dec v" by (simp add: dec_small)
  then show ?thesis
    using string2ll_loop_dec [of d "tl (dec v)" v] d assms(1) by (simp add: ULLONG_MAX_def d_def)
qed

lemma string2ll_loop_show:
  assumes "49 \<le> unat c \<and> unat c \<le> 57" and "string2ll_loop cs (unat c - 48) = Some (v, [])"
  shows "dec v = c # cs \<and> 0 < v"
proof -
  have "is_digit c" using assms(1) by (simp add: is_digit_def)
  moreover have "unat c - 48 < 10" using assms(1) by arith
  ultimately have "dec (unat c - 48) = [c]" by (metis dec_small digit_char_unat)
  moreover have "unat c - 48 \<le> ULLONG_MAX" using assms(1) by (auto simp: ULLONG_MAX_def)
  ultimately have "dec v = c # cs"
    using string2ll_loop_dec [of "unat c - 48" cs v] assms by simp
  moreover have "v \<noteq> 0"
  proof
    assume "v = 0"
    then have "c = digit_char 0" using \<open>dec v = c # cs\<close> by (simp add: dec_small)
    then show False using assms(1) by simp
  qed
  ultimately show ?thesis by simp
qed

lemma show_int_simps:
  "0 < v \<Longrightarrow> show_int (int v) = dec v" "0 < v \<Longrightarrow> show_int (- int v) = 45 # dec v"
  by (simp_all add: show_int_def)

lemma string2ll_sound: "string2ll s = Some v \<Longrightarrow> in_sint 64 v \<and> s = show_int v"
proof -
  assume r: "string2ll s = Some v"
  show ?thesis
  proof (cases "length s = 1 \<and> hd s = 48")
    case True
    then have "s = [48]" by (cases s) auto
    with r show ?thesis by (simp add: string2ll_def in_sint_def show_int_def dec_small digit_char_def)
  next
    case False
    define neg where "neg = (hd s = 45)"
    define p where "p = (if neg then tl s else s)"
    have ne: "s \<noteq> []" using r by (auto simp: string2ll_def)
    obtain c cs where p: "p = c # cs" "49 \<le> unat c \<and> unat c \<le> 57"
      using r False ne
      by (auto simp: string2ll_def Let_def p_def neg_def split: list.splits if_splits)
    obtain w where w: "string2ll_loop cs (unat c - 48) = Some (w, [])"
      and vw: "if neg then w \<le> LLONG_MAX + 1 \<and> v = to_sint 64 (to_uint 64 (- int w))
               else w \<le> LLONG_MAX \<and> v = int w"
      using r False ne p
      by (auto simp: string2ll_def Let_def p_def [symmetric] neg_def [symmetric]
            split: option.splits if_splits)
    have d: "dec w = p" "0 < w" using string2ll_loop_show [OF p(2) w] p(1) by auto
    show ?thesis
    proof (cases neg)
      case True
      then have "v = - int w" "w \<le> 2 ^ 63" using vw to_sint_neg [of w] by (auto simp: LLONG_MAX_def)
      moreover have "s = 45 # p" using True ne by (cases s) (auto simp: p_def neg_def)
      ultimately show ?thesis using d show_int_simps(2) [of w] by (auto simp: in_sint_def)
    next
      case False
      then show ?thesis using vw d show_int_simps(1) [of w] by (auto simp: LLONG_MAX_def in_sint_def p_def)
    qed
  qed
qed

lemma string2ll_complete: "in_sint 64 v \<Longrightarrow> string2ll (show_int v) = Some v"
proof -
  assume r: "in_sint 64 v"
  define w where "w = nat \<bar>v\<bar>"
  consider "v = 0" | "0 < v" | "v < 0" by linarith
  then show ?thesis
  proof cases
    case 1
    then show ?thesis by (simp add: string2ll_def show_int_def dec_small digit_char_def)
  next
    case 2
    then have w: "0 < w" "w \<le> LLONG_MAX" "v = int w" using r by (auto simp: w_def in_sint_def LLONG_MAX_def)
    obtain c cs where d: "dec w = c # cs" by (cases "dec w") auto
    have c: "49 \<le> unat c \<and> unat c \<le> 57" using dec_hd [OF w(1)] d by simp
    then have "c \<noteq> 45" "c \<noteq> 48" by auto
    then show ?thesis
      using string2ll_unsigned [of w] w c d show_int_simps(1) [OF w(1)]
      by (simp add: string2ll_def LLONG_MAX_def)
  next
    case 3
    then have w: "0 < w" "w \<le> LLONG_MAX + 1" "v = - int w" using r by (auto simp: w_def in_sint_def LLONG_MAX_def)
    obtain c cs where d: "dec w = c # cs" by (cases "dec w") auto
    have c: "49 \<le> unat c \<and> unat c \<le> 57" using dec_hd [OF w(1)] d by simp
    have "string2ll_loop cs (unat c - 48) = Some (w, [])"
      using string2ll_unsigned [of w] w d by (simp add: LLONG_MAX_def)
    then show ?thesis
      using w c d show_int_simps(2) [OF w(1)] to_sint_neg [of w] by (simp add: string2ll_def LLONG_MAX_def)
  qed
qed


section \<open>Printing\<close>

lemma length_dec_div: "10 ^ k \<le> v \<Longrightarrow> length (dec v) = k + length (dec (v div 10 ^ k))"
proof (induction k arbitrary: v)
  case (Suc k)
  have "10 \<le> v" using Suc.prems by (metis le_trans one_le_power mult_le_mono2 nat_mult_1_right
        power_Suc one_le_numeral)
  moreover have "10 ^ k \<le> v div 10" using Suc.prems by (simp add: less_eq_div_iff_mult_less_eq mult.commute)
  then have "length (dec (v div 10)) = k + length (dec (v div 10 div 10 ^ k))" by (rule Suc.IH)
  ultimately show ?case by (simp add: dec.simps [of v] div_mult2_eq)
qed simp

lemma length_dec_less: "0 < k \<Longrightarrow> v < 10 ^ k \<longleftrightarrow> length (dec v) \<le> k"
proof (induction k arbitrary: v)
  case (Suc k)
  show ?case
  proof (cases "v < 10")
    case False
    have "v < 10 ^ Suc k \<longleftrightarrow> v div 10 < 10 ^ k" by (simp add: less_mult_imp_div_less div_less_iff_less_mult mult.commute)
    also have "\<dots> \<longleftrightarrow> length (dec (v div 10)) \<le> k"
      using Suc.IH [of "v div 10"] False by (cases k) auto
    finally show ?thesis using False by (simp add: dec.simps [of v])
  next
    case True
    have "(10::nat) \<le> 10 ^ Suc k" by simp
    with True have "v < 10 ^ Suc k" by linarith
    with True show ?thesis by (simp add: dec_small)
  qed
qed simp

lemma digits10_eq: "digits10 v = length (dec v)"
proof (induction v rule: digits10.induct)
  case (1 v)
  have f: "v < 10 \<longleftrightarrow> length (dec v) \<le> 1" "v < 100 \<longleftrightarrow> length (dec v) \<le> 2"
    "v < 1000 \<longleftrightarrow> length (dec v) \<le> 3" "v < 10000 \<longleftrightarrow> length (dec v) \<le> 4"
    "v < 100000 \<longleftrightarrow> length (dec v) \<le> 5" "v < 1000000 \<longleftrightarrow> length (dec v) \<le> 6"
    "v < 10000000 \<longleftrightarrow> length (dec v) \<le> 7" "v < 100000000 \<longleftrightarrow> length (dec v) \<le> 8"
    "v < 1000000000 \<longleftrightarrow> length (dec v) \<le> 9" "v < 10000000000 \<longleftrightarrow> length (dec v) \<le> 10"
    "v < 100000000000 \<longleftrightarrow> length (dec v) \<le> 11" "v < 1000000000000 \<longleftrightarrow> length (dec v) \<le> 12"
    using length_dec_less [of 1 v] length_dec_less [of 2 v] length_dec_less [of 3 v]
      length_dec_less [of 4 v] length_dec_less [of 5 v] length_dec_less [of 6 v]
      length_dec_less [of 7 v] length_dec_less [of 8 v] length_dec_less [of 9 v]
      length_dec_less [of 10 v] length_dec_less [of 11 v] length_dec_less [of 12 v] by simp_all
  show ?case
  proof (cases "v < 1000000000000")
    case False
    then show ?thesis
      using "1.IH" length_dec_div [of 12 v] by (simp add: digits10.simps [of v])
  next
    case True
    define l where "l = length (dec v)"
    have "0 < l" by (simp add: l_def)
    moreover have "\<not> 12 < l" using True f by (simp add: l_def)
    ultimately show ?thesis
      unfolding digits10.simps [of v] not_less [symmetric] f l_def [symmetric] by simp
  qed
qed

lemma digits_table_eq: "digits_table = concat (map (\<lambda>k. [digit_char (k div 10), digit_char (k mod 10)]) [0..<100])"
  by (simp add: digits_table_def ascii_def digit_char_def upt_rec)

lemma nth_concat_pairs:
  "k < n \<Longrightarrow> concat (map (\<lambda>k. [f k, g k]) [0..<n]) ! (k * 2) = f k \<and>
             concat (map (\<lambda>k. [f k, g k]) [0..<n]) ! Suc (k * 2) = g k"
proof (induction n)
  case (Suc n)
  have len: "length (concat (map (\<lambda>k. [f k, g k]) [0..<n])) = n * 2" by (induction n) auto
  show ?case using Suc len by (auto simp: nth_append less_Suc_eq)
qed simp

lemma digits_table_pair:
  "k < 100 \<Longrightarrow> digits_table ! (k * 2) = digit_char (k div 10) \<and>
               digits_table ! Suc (k * 2) = digit_char (k mod 10)"
  unfolding digits_table_eq by (rule nth_concat_pairs)

lemma dec_100: "100 \<le> v \<Longrightarrow>
  dec v = dec (v div 100) @ [digit_char (v mod 100 div 10), digit_char (v mod 100 mod 10)]"
proof -
  assume "100 \<le> v"
  then have "\<not> v < 10" "\<not> v div 10 < 10" by auto
  moreover have "v div 10 mod 10 = v mod 100 div 10" "v mod 10 = v mod 100 mod 10"
    using mod_mult2_eq [of v 10 10] by simp_all
  moreover have "v div 10 div 10 = v div 100" by (simp add: div_mult2_eq [symmetric])
  ultimately show ?thesis by (simp add: dec.simps [of v] dec.simps [of "v div 10"])
qed


lemma ll2string_loop_bounds:
  "length (dec value) \<le> Suc next \<Longrightarrow> ll2string_loop dst next value = (dst', next', value') \<Longrightarrow>
     value' < 100 \<and> length dst' = length dst \<and> length (dec value') \<le> Suc next'"
proof (induction dst "next" "value" rule: ll2string_loop.induct)
  case (1 dst nx vl)
  show ?case
  proof (cases "vl \<ge> 100")
    case True
    have "length (dec (vl div 100)) \<le> Suc (nx - 2)"
      using "1.prems"(1) dec_100 [OF True] by (cases "dec (vl div 100)") auto
    then show ?thesis
      using "1.IH" [OF True refl] "1.prems"(2) True by (simp add: ll2string_loop.simps [of dst nx vl] Let_def)
  next
    case False
    then show ?thesis using "1.prems" by (simp add: ll2string_loop.simps [of dst nx vl])
  qed
qed

text \<open>The last one or two digits that \<open>ll2string\<close> stores after the loop.\<close>

definition ll2string_last :: "bytes \<Rightarrow> nat \<Rightarrow> nat \<Rightarrow> bytes" where
  "ll2string_last dst nx vl =
     (if vl < 10 then dst[nx := digit_char vl]
      else dst[nx := digits_table ! (vl * 2 + 1), nx - 1 := digits_table ! (vl * 2)])"

lemma list_update_last: "i < length xs \<Longrightarrow> xs[i := a] = take i xs @ a # drop (Suc i) xs"
  by (simp add: upd_conv_take_nth_drop)

lemma list_update_last2:
  assumes "Suc i < length xs"
  shows "xs[Suc i := b, i := a] = take i xs @ a # b # drop (Suc (Suc i)) xs"
proof -
  have xs: "xs = take i xs @ xs ! i # xs ! Suc i # drop (Suc (Suc i)) xs"
    using assms by (metis Cons_nth_drop_Suc Suc_lessD append_take_drop_id)
  have "(p @ u # v # r)[Suc (length p) := b, length p := a] = p @ a # b # r" for p r u v
    by (simp add: list_update_append)
  from this [of "take i xs" "xs ! i" "xs ! Suc i" "drop (Suc (Suc i)) xs"] show ?thesis
    using assms xs by simp
qed

lemma ll2string_last_eq:
  assumes "vl < 100" and "length (dec vl) \<le> Suc nx" and "nx < length dst"
  shows "ll2string_last dst nx vl = take (Suc nx - length (dec vl)) dst @ dec vl @ drop (Suc nx) dst"
proof (cases "vl < 10")
  case True
  then show ?thesis using assms(3) by (simp add: ll2string_last_def dec_small list_update_last)
next
  case False
  then have d: "dec vl = [digit_char (vl div 10), digit_char (vl mod 10)]"
    using assms(1) by (simp add: dec.simps [of vl] dec_small)
  with assms(2) obtain i where i: "nx = Suc i" by (cases nx) auto
  show ?thesis
    using False assms d digits_table_pair [of vl] i list_update_last2 [of i dst]
    by (simp add: ll2string_last_def)
qed

lemma ll2string_loop_spec:
  assumes "length (dec vl) \<le> Suc nx" and "nx < length dst"
    and "ll2string_loop dst nx vl = (dst', nx', vl')"
  shows "ll2string_last dst' nx' vl' = take (Suc nx - length (dec vl)) dst @ dec vl @ drop (Suc nx) dst"
  using assms
proof (induction dst nx vl rule: ll2string_loop.induct)
  case (1 dst nx vl)
  show ?case
  proof (cases "vl \<ge> 100")
    case False
    then show ?thesis
      using "1.prems" ll2string_last_eq [of vl nx dst] by (simp add: ll2string_loop.simps [of dst nx vl])
  next
    case True
    define dst1 where "dst1 = dst[nx := digits_table ! ((vl mod 100) * 2 + 1), nx - 1 := digits_table ! ((vl mod 100) * 2)]"
    have dv: "dec vl = dec (vl div 100) @ [digit_char (vl mod 100 div 10), digit_char (vl mod 100 mod 10)]"
      by (rule dec_100 [OF True])
    obtain k where k: "length (dec (vl div 100)) = Suc k" by (cases "dec (vl div 100)") auto
    then have "Suc (Suc k) \<le> nx" using "1.prems"(1) dv by simp
    then obtain i where i: "nx = Suc (Suc i)" and ki: "k \<le> i"
      by (metis Suc_le_D Suc_le_mono)
    have d1: "dst1 = take (Suc i) dst @ digit_char (vl mod 100 div 10) # digit_char (vl mod 100 mod 10) # drop (Suc nx) dst"
      using "1.prems"(2) i list_update_last2 [of "Suc i" dst] digits_table_pair [of "vl mod 100"]
      by (simp add: dst1_def)
    have "ll2string_loop dst1 i (vl div 100) = (dst', nx', vl')"
      using "1.prems"(3) True unfolding dst1_def by (subst (asm) ll2string_loop.simps) (simp add: Let_def i)
    then have "ll2string_last dst' nx' vl' =
        take (Suc i - length (dec (vl div 100))) dst1 @ dec (vl div 100) @ drop (Suc i) dst1"
      using "1.IH" [OF True refl] "1.prems"(2) i k ki by (simp add: dst1_def)
    moreover have "take (Suc i - Suc k) dst1 = take (i - k) dst"
      using "1.prems"(2) i by (simp add: d1)
    moreover have "drop (Suc i) dst1 = [digit_char (vl mod 100 div 10), digit_char (vl mod 100 mod 10)] @ drop (Suc nx) dst"
      using "1.prems"(2) i by (simp add: d1)
    ultimately show ?thesis using i k ki dv by simp
  qed
qed


lemma length_show_int: "length (show_int v) = digits10 (nat \<bar>v\<bar>) + (if v < 0 then 1 else 0)"
  by (simp add: show_int_def digits10_eq)

lemma ll2string_spec:
  assumes "in_sint 64 v"
  shows "ll2string dst v =
     (if length (show_int v) < length dst
      then (length (show_int v), show_int v @ 0 # drop (Suc (length (show_int v))) dst)
      else (0, dst))"
proof -
  define w where "w = nat \<bar>v\<bar>"
  define o' where "o' = (if v < 0 then 1 else 0 :: nat)"
  have vw: "(if v < 0 then ((if v \<noteq> - (2 ^ 63) then nat (- v) else LLONG_MAX + 1), True) else (nat v, False))
      = (w, v < 0)"
    by (simp add: w_def LLONG_MAX_def)
  have len: "digits10 w + (if v < 0 then 1 else 0) = length (show_int v)"
    by (simp add: length_show_int w_def)
  let ?l = "length (show_int v)"
  have unf: "ll2string dst v = (if ?l \<ge> length dst then (0, dst) else
      (let (d, n, u) = ll2string_loop (dst[?l := 0]) (?l - 1) w in
       (?l, if v < 0 then (ll2string_last d n u)[0 := 45] else ll2string_last d n u)))"
    unfolding ll2string_def vw Let_def case_prod_conv len ll2string_last_def by (simp split: prod.splits)
  show ?thesis
  proof (cases "?l < length dst")
    case False
    then show ?thesis by (simp add: unf)
  next
    case True
    obtain d n u where lp: "ll2string_loop (dst[?l := 0]) (?l - 1) w = (d, n, u)" by (metis prod_cases3)
    have lw: "?l = o' + length (dec w)" by (simp add: show_int_def o'_def w_def)
    have "0 < length (dec w)" by simp
    then have l0: "Suc (?l - 1) = ?l" "?l - 1 < length (dst[?l := 0])" using lw True by (simp_all del: length_greater_0_conv)
    have last: "ll2string_last d n u = take o' (dst[?l := 0]) @ dec w @ drop ?l (dst[?l := 0])"
      using ll2string_loop_spec [OF _ l0(2) lp] l0(1) lw by simp
    have dr: "drop ?l (dst[?l := 0]) = 0 # drop (Suc ?l) dst"
      using True by (metis Cons_nth_drop_Suc drop_update_cancel length_list_update lessI nth_list_update_eq)
    show ?thesis
    proof (cases "v < 0")
      case neg: True
      have "take 1 (dst[?l := 0]) = [hd (dst[?l := 0])]"
        using True by (cases "dst[?l := 0]") auto
      then have "(ll2string_last d n u)[0 := 45] = show_int v @ 0 # drop (Suc ?l) dst"
        using neg last dr by (simp add: o'_def show_int_def w_def)
      then show ?thesis using True neg lp by (simp add: unf)
    next
      case False
      then have "ll2string_last d n u = show_int v @ 0 # drop (Suc ?l) dst"
        using last dr by (simp add: o'_def show_int_def w_def)
      then show ?thesis using True False lp by (simp add: unf)
    qed
  qed
qed


section \<open>Properties\<close>

text \<open>
  C28. \<open>string2ll\<close> accepts exactly the canonical decimal notations of the 64 bit signed
  integers and returns the denoted value: no spaces, no leading zeros, no plus sign, no
  minus zero, and nothing out of range, including at the intermediate overflow checks.
\<close>

theorem string2ll_iff: "string2ll s = Some v \<longleftrightarrow> in_sint 64 v \<and> s = show_int v"
  using string2ll_sound string2ll_complete by blast

text \<open>
  C29. \<open>ll2string\<close> stores exactly the canonical notation and its NUL terminator, leaves
  the rest of the buffer alone and returns the length, when the buffer is large enough;
  otherwise it returns 0 and does not touch the buffer.  The two-digits-at-a-time table
  loop and the comparison tree of \<open>digits10\<close> agree with plain decimal notation.
\<close>

theorem ll2string_correct:
  assumes "in_sint 64 v"
  shows "ll2string dst v =
     (if length (show_int v) < length dst
      then (length (show_int v), show_int v @ 0 # drop (Suc (length (show_int v))) dst)
      else (0, dst))"
  using assms by (rule ll2string_spec)

theorem ll2string_correct_witness:
  "in_sint 64 (-120) \<and> ll2string (replicate 6 7) (-120) = (4, [45, 49, 50, 48, 0, 7])"
proof -
  have h: "in_sint 64 (-120)" by (simp add: in_sint_def)
  have "show_int (-120) = [45, 49, 50, 48]"
    by (simp add: show_int_def dec.simps digit_char_def)
  with ll2string_correct [OF h, of "replicate 6 7"] h show ?thesis
    by (simp add: numeral_eq_Suc)
qed

text \<open>C30. Printing a 64 bit integer into any large enough buffer and parsing the bytes
  before the terminator gives the integer back.\<close>

theorem ll2string_string2ll_roundtrip:
  assumes "in_sint 64 v" and "21 < length dst"
  shows "string2ll (take (fst (ll2string dst v)) (snd (ll2string dst v))) = Some v"
proof -
  have "nat \<bar>v\<bar> < 10 ^ 20" using assms(1) by (auto simp: in_sint_def)
  then have "length (dec (nat \<bar>v\<bar>)) \<le> 20" by (simp add: length_dec_less [symmetric])
  then have "length (show_int v) < length dst"
    using assms(2) unfolding length_show_int digits10_eq by (cases "v < 0") auto
  then show ?thesis using assms(1) by (simp add: ll2string_spec string2ll_complete)
qed

theorem ll2string_string2ll_roundtrip_witness:
  "string2ll (take (fst (ll2string (replicate 32 0) (- (2 ^ 63)))) (snd (ll2string (replicate 32 0) (- (2 ^ 63)))))
   = Some (- (2 ^ 63))"
  using ll2string_string2ll_roundtrip [of "- (2 ^ 63)" "replicate 32 0"] by (simp add: in_sint_def)

end
