(* ===== verification/Bitops.thy ===== *)
theory Bitops
  imports Util
begin

text \<open>The bit level of \<open>bitops.c\<close>: integers of up to 64 bits at any bit offset of a string, the overflow
  checks of BITFIELD, the search for the first bit of a value, the parsers of offsets and types and
  the commands BITFIELD, SETBIT and GETBIT on the string value of their key.  A shift by the whole
  width of its operand is undefined in C: it makes the result \<open>None\<close>.  A string shared or encoded as
  an integer is represented by its bytes.\<close>

unbundle bit_operations_syntax

section \<open>Integers in a bitmap\<close>

text \<open>The 64 bit variables of the loops are words; an offset is a number, since the parser keeps it
  below \<open>2^32\<close> and the width is at most 64.\<close>

definition set_bit_step :: "bytes \<Rightarrow> nat \<Rightarrow> bool \<Rightarrow> bytes" where
  "set_bit_step p offset b =
     (let byte = offset div 8; bi = 7 - offset mod 8;
          byteval = (ucast (p ! byte) :: 64 word);
          byteval1 = byteval AND NOT (push_bit bi 1);
          byteval2 = byteval1 OR push_bit bi (of_bool b)
      in p[byte := ucast (byteval2 AND 0xff)])"

fun setUnsignedBitfield :: "bytes \<Rightarrow> nat \<Rightarrow> nat \<Rightarrow> 64 word \<Rightarrow> bytes" where
  "setUnsignedBitfield p offset 0 v = p"
| "setUnsignedBitfield p offset (Suc bits) v =
     setUnsignedBitfield (set_bit_step p offset (bit v bits)) (offset + 1) bits v"

definition setSignedBitfield :: "bytes \<Rightarrow> nat \<Rightarrow> nat \<Rightarrow> 64 word \<Rightarrow> bytes" where
  "setSignedBitfield p offset bits v = setUnsignedBitfield p offset bits v"

definition get_bit_step :: "bytes \<Rightarrow> nat \<Rightarrow> 64 word" where
  "get_bit_step p offset =
     (let byte = offset div 8; bi = 7 - offset mod 8; byteval = (ucast (p ! byte) :: 64 word)
      in drop_bit bi byteval AND 1)"

fun getUnsigned_loop :: "bytes \<Rightarrow> nat \<Rightarrow> nat \<Rightarrow> 64 word \<Rightarrow> 64 word" where
  "getUnsigned_loop p offset 0 v = v"
| "getUnsigned_loop p offset (Suc bits) v =
     getUnsigned_loop p (offset + 1) bits (push_bit 1 v OR get_bit_step p offset)"

definition getUnsignedBitfield :: "bytes \<Rightarrow> nat \<Rightarrow> nat \<Rightarrow> 64 word" where
  "getUnsignedBitfield p offset bits = getUnsigned_loop p offset bits 0"

definition shl64 :: "64 word \<Rightarrow> nat \<Rightarrow> 64 word option" where
  "shl64 x n = (if n < 64 then Some (push_bit n x) else None)"

definition getSignedBitfield :: "bytes \<Rightarrow> nat \<Rightarrow> nat \<Rightarrow> 64 word option" where
  "getSignedBitfield p offset bits =
     (let v = getUnsignedBitfield p offset bits in
      if v AND push_bit (bits - 1) 1 \<noteq> 0 then map_option (\<lambda>m. v OR m) (shl64 (- 1) bits) else Some v)"

section \<open>Overflow\<close>

datatype owtype = BFOVERFLOW_WRAP | BFOVERFLOW_SAT | BFOVERFLOW_FAIL

text \<open>The result is the returned number and what \<open>*limit\<close> is set to, if it is.\<close>

definition unsigned_wrap :: "64 word \<Rightarrow> 64 word \<Rightarrow> nat \<Rightarrow> (int \<times> 64 word option) option" where
  "unsigned_wrap v incr bits = map_option (\<lambda>mask. (1, Some ((v + incr) AND NOT mask))) (shl64 (- 1) bits)"

definition checkUnsignedBitfieldOverflow :: "64 word \<Rightarrow> 64 word \<Rightarrow> nat \<Rightarrow> owtype \<Rightarrow> (int \<times> 64 word option) option" where
  "checkUnsignedBitfieldOverflow v incr bits ow =
     (let max = (if bits = 64 then - 1 else push_bit bits 1 - 1 :: 64 word);
          maxincr = max - v; minincr = - v in
      if v > max \<or> (sint incr > 0 \<and> sint incr > sint maxincr) then
        (case ow of BFOVERFLOW_WRAP \<Rightarrow> unsigned_wrap v incr bits
         | BFOVERFLOW_SAT \<Rightarrow> Some (1, Some max) | BFOVERFLOW_FAIL \<Rightarrow> Some (1, None))
      else if sint incr < 0 \<and> sint incr < sint minincr then
        (case ow of BFOVERFLOW_WRAP \<Rightarrow> unsigned_wrap v incr bits
         | BFOVERFLOW_SAT \<Rightarrow> Some (- 1, Some 0) | BFOVERFLOW_FAIL \<Rightarrow> Some (- 1, None))
      else Some (0, None))"

definition signed_wrap :: "64 word \<Rightarrow> 64 word \<Rightarrow> nat \<Rightarrow> (int \<times> 64 word option) option" where
  "signed_wrap v incr bits = map_option (\<lambda>mask.
     (let msb = push_bit (bits - 1) 1; c = v + incr in
      (1, Some (if c AND msb \<noteq> 0 then c OR mask else c AND NOT mask)))) (shl64 (- 1) bits)"

definition checkSignedBitfieldOverflow :: "64 word \<Rightarrow> 64 word \<Rightarrow> nat \<Rightarrow> owtype \<Rightarrow> (int \<times> 64 word option) option" where
  "checkSignedBitfieldOverflow v incr bits ow =
     (let max = (if bits = 64 then push_bit 63 1 - 1 else push_bit (bits - 1) 1 - 1 :: 64 word);
          min = - max - 1; maxincr = max - v; minincr = min - v in
      if sint v > sint max \<or> (bits \<noteq> 64 \<and> sint incr > sint maxincr) \<or>
         (sint v \<ge> 0 \<and> sint incr > 0 \<and> sint incr > sint maxincr) then
        (case ow of BFOVERFLOW_WRAP \<Rightarrow> signed_wrap v incr bits
         | BFOVERFLOW_SAT \<Rightarrow> Some (1, Some max) | BFOVERFLOW_FAIL \<Rightarrow> Some (1, None))
      else if sint v < sint min \<or> (bits \<noteq> 64 \<and> sint incr < sint minincr) \<or>
         (sint v < 0 \<and> sint incr < 0 \<and> sint incr < sint minincr) then
        (case ow of BFOVERFLOW_WRAP \<Rightarrow> signed_wrap v incr bits
         | BFOVERFLOW_SAT \<Rightarrow> Some (- 1, Some min) | BFOVERFLOW_FAIL \<Rightarrow> Some (- 1, None))
      else Some (0, None))"

section \<open>The first bit of a value\<close>

text \<open>\<open>addr\<close> is the address of the string, of which only the alignment matters.  The loops return the
  rest of the string and the position.\<close>

fun bitpos_align :: "nat \<Rightarrow> byte \<Rightarrow> bytes \<Rightarrow> nat \<Rightarrow> bool \<times> bytes \<times> nat" where
  "bitpos_align addr skipval [] pos = (False, [], pos)"
| "bitpos_align addr skipval (c # cs) pos =
     (if addr mod 8 = 0 then (False, c # cs, pos)
      else if c \<noteq> skipval then (True, c # cs, pos)
      else bitpos_align (addr + 1) skipval cs (pos + 8))"

function bitpos_words :: "nat \<Rightarrow> bytes \<Rightarrow> nat \<Rightarrow> bytes \<times> nat" where
  "bitpos_words skipval s pos =
     (if length s < 8 then (s, pos)
      else if le_nat (take 8 s) \<noteq> skipval then (s, pos)
      else bitpos_words skipval (drop 8 s) (pos + 64))"
  by auto
termination
  by (relation "measure (\<lambda>(_, s, _). length s)") auto

declare bitpos_words.simps [simp del]

fun bitpos_load :: "nat \<Rightarrow> bytes \<Rightarrow> 64 word \<Rightarrow> 64 word" where
  "bitpos_load 0 cs w = w"
| "bitpos_load (Suc j) [] w = bitpos_load j [] (push_bit 8 w)"
| "bitpos_load (Suc j) (c # cs) w = bitpos_load j cs (push_bit 8 w OR ucast c)"

text \<open>The scan moves a single one from the top bit down; when it is shifted out the code panics.\<close>

fun bitpos_scan :: "nat \<Rightarrow> 64 word \<Rightarrow> bool \<Rightarrow> nat \<Rightarrow> int option" where
  "bitpos_scan 0 w b pos = None"
| "bitpos_scan (Suc k) w b pos =
     (if ((push_bit k 1 AND w) \<noteq> 0) = b then Some (int pos) else bitpos_scan k w b (pos + 1))"

definition redisBitpos :: "nat \<Rightarrow> bytes \<Rightarrow> bool \<Rightarrow> int option" where
  "redisBitpos addr s b =
     (case bitpos_align addr (if b then 0 else 255) s 0 of (found, s1, pos1) \<Rightarrow>
      case (if found then (s1, pos1) else bitpos_words (if b then 0 else ULLONG_MAX) s1 pos1) of (s2, pos2) \<Rightarrow>
      let word = bitpos_load 8 s2 0 in
      if b \<and> word = 0 then Some (- 1) else bitpos_scan 64 word b pos2)"

section \<open>Parsing\<close>

definition lower_byte :: "byte \<Rightarrow> byte" where
  "lower_byte b = (if 65 \<le> unat b \<and> unat b \<le> 90 then b + 32 else b)"

definition strcaseeq :: "bytes \<Rightarrow> string \<Rightarrow> bool" where
  "strcaseeq s name \<longleftrightarrow> map lower_byte (cstr s) = map lower_byte (ascii name)"

text \<open>The product of a \<open>#\<close> offset is computed in a signed 64 bit integer: out of range is undefined.
  \<open>Inl ()\<close> is the error reply.\<close>

definition getBitOffsetFromArgument :: "bytes \<Rightarrow> bool \<Rightarrow> nat \<Rightarrow> (unit + nat) option" where
  "getBitOffsetFromArgument p hash bits =
     (let usehash = (pat_at p 0 = 35 \<and> hash \<and> bits > 0) in
      case string2ll (if usehash then drop 1 p else p) of
        None \<Rightarrow> Some (Inl ())
      | Some loffset0 \<Rightarrow>
          let loffset = (if usehash then loffset0 * int bits else loffset0) in
          if \<not> in_sint 64 loffset then None
          else if loffset < 0 \<or> loffset div 8 \<ge> 512 * 1024 * 1024 then Some (Inl ())
          else Some (Inr (nat loffset)))"

definition getBitfieldTypeFromArgument :: "bytes \<Rightarrow> (bool \<times> nat) option" where
  "getBitfieldTypeFromArgument p =
     (if pat_at p 0 = 105 \<or> pat_at p 0 = 117 then
        (let sign = (pat_at p 0 = 105) in
         case string2ll (cstr (drop 1 p)) of
           None \<Rightarrow> None
         | Some llbits \<Rightarrow>
             if llbits < 1 \<or> (sign \<and> llbits > 64) \<or> (\<not> sign \<and> llbits > 63) then None
             else Some (sign, nat llbits))
      else None)"

section \<open>BITFIELD\<close>

datatype bitfield_opcode = BITFIELDOP_GET | BITFIELDOP_SET | BITFIELDOP_INCRBY

record bitfieldOp =
  bo_offset :: nat
  bo_i64 :: int
  bo_opcode :: bitfield_opcode
  bo_owtype :: owtype
  bo_bits :: nat
  bo_sign :: bool

datatype bitfield_error = Err_overflow_type | Err_syntax | Err_type | Err_offset | Err_integer | Err_wrongtype | Err_single_key | Err_bit_argument

definition bitfield_subcommand :: "bytes \<Rightarrow> nat \<Rightarrow> bitfield_opcode option" where
  "bitfield_subcommand subcmd remargs =
     (if strcaseeq subcmd ''get'' \<and> remargs \<ge> 2 then Some BITFIELDOP_GET
      else if strcaseeq subcmd ''set'' \<and> remargs \<ge> 3 then Some BITFIELDOP_SET
      else if strcaseeq subcmd ''incrby'' \<and> remargs \<ge> 3 then Some BITFIELDOP_INCRBY
      else None)"

definition bitfield_owtype :: "bytes \<Rightarrow> owtype option" where
  "bitfield_owtype s =
     (if strcaseeq s ''wrap'' then Some BFOVERFLOW_WRAP
      else if strcaseeq s ''sat'' then Some BFOVERFLOW_SAT
      else if strcaseeq s ''fail'' then Some BFOVERFLOW_FAIL else None)"

text \<open>The loop over the arguments after the key; the outer \<open>None\<close> is undefined behaviour.\<close>

function bitfield_parse :: "bytes list \<Rightarrow> owtype \<Rightarrow> bitfieldOp list \<Rightarrow> (bitfield_error + bitfieldOp list) option" where
  "bitfield_parse args ow ops =
     (case args of
        [] \<Rightarrow> Some (Inr ops)
      | subcmd # rest \<Rightarrow>
          (case bitfield_subcommand subcmd (length rest) of
             None \<Rightarrow>
               if strcaseeq subcmd ''overflow'' \<and> length rest \<ge> 1 then
                 (case bitfield_owtype (rest ! 0) of
                    None \<Rightarrow> Some (Inl Err_overflow_type)
                  | Some ow2 \<Rightarrow> bitfield_parse (drop 1 rest) ow2 ops)
               else Some (Inl Err_syntax)
           | Some opcode \<Rightarrow>
               (case getBitfieldTypeFromArgument (rest ! 0) of
                  None \<Rightarrow> Some (Inl Err_type)
                | Some (sign, bits) \<Rightarrow>
                    (case getBitOffsetFromArgument (rest ! 1) True bits of
                       None \<Rightarrow> None
                     | Some (Inl _) \<Rightarrow> Some (Inl Err_offset)
                     | Some (Inr bitoffset) \<Rightarrow>
                         (case (if opcode = BITFIELDOP_GET then Some 0 else string2ll (rest ! 2)) of
                            None \<Rightarrow> Some (Inl Err_integer)
                          | Some i64 \<Rightarrow>
                              bitfield_parse (drop (if opcode = BITFIELDOP_GET then 2 else 3) rest) ow
                                (ops @ [\<lparr>bo_offset = bitoffset, bo_i64 = i64, bo_opcode = opcode,
                                   bo_owtype = ow, bo_bits = bits, bo_sign = sign\<rparr>]))))))"
  by auto
termination
  by (relation "measure (\<lambda>(args, _, _). length args)") auto

declare bitfield_parse.simps [simp del]

definition highest_write_offset :: "bitfieldOp list \<Rightarrow> nat" where
  "highest_write_offset ops = fold (\<lambda>thisop h.
     if bo_opcode thisop \<noteq> BITFIELDOP_GET \<and> h < bo_offset thisop + bo_bits thisop - 1
     then bo_offset thisop + bo_bits thisop - 1 else h) ops 0"

datatype bitfield_reply = Reply_integer int | Reply_null

definition bitfield_signed :: "bitfieldOp \<Rightarrow> bytes \<Rightarrow> (bitfield_reply \<times> bytes) option" where
  "bitfield_signed thisop p =
     (case getSignedBitfield p (bo_offset thisop) (bo_bits thisop) of None \<Rightarrow> None | Some oldval \<Rightarrow>
      let i64 = word_of_int (bo_i64 thisop); incrby = (bo_opcode thisop = BITFIELDOP_INCRBY) in
      (case (if incrby then checkSignedBitfieldOverflow oldval i64 (bo_bits thisop) (bo_owtype thisop)
             else checkSignedBitfieldOverflow i64 0 (bo_bits thisop) (bo_owtype thisop)) of
         None \<Rightarrow> None
       | Some (overflow, wrapped) \<Rightarrow>
           if overflow \<noteq> 0 \<and> bo_owtype thisop = BFOVERFLOW_FAIL then Some (Reply_null, p)
           else
             (let newval = (if overflow \<noteq> 0 then the wrapped else if incrby then oldval + i64 else i64);
                  retval = (if incrby then newval else oldval) in
              Some (Reply_integer (sint retval), setSignedBitfield p (bo_offset thisop) (bo_bits thisop) newval))))"

definition bitfield_unsigned :: "bitfieldOp \<Rightarrow> bytes \<Rightarrow> (bitfield_reply \<times> bytes) option" where
  "bitfield_unsigned thisop p =
     (let oldval = getUnsignedBitfield p (bo_offset thisop) (bo_bits thisop);
          i64 = word_of_int (bo_i64 thisop); incrby = (bo_opcode thisop = BITFIELDOP_INCRBY) in
      (case (if incrby then checkUnsignedBitfieldOverflow oldval i64 (bo_bits thisop) (bo_owtype thisop)
             else checkUnsignedBitfieldOverflow i64 0 (bo_bits thisop) (bo_owtype thisop)) of
         None \<Rightarrow> None
       | Some (overflow, wrapped) \<Rightarrow>
           if overflow \<noteq> 0 \<and> bo_owtype thisop = BFOVERFLOW_FAIL then Some (Reply_null, p)
           else
             (let newval = (if overflow \<noteq> 0 then the wrapped else if incrby then oldval + i64 else i64);
                  retval = (if incrby then newval else oldval) in
              Some (Reply_integer (sint retval), setUnsignedBitfield p (bo_offset thisop) (bo_bits thisop) newval))))"

definition bitfield_get :: "bitfieldOp \<Rightarrow> bytes \<Rightarrow> bitfield_reply option" where
  "bitfield_get thisop src =
     (let byte = bo_offset thisop div 8;
          buf = take 9 (drop byte src) @ replicate (9 - length (take 9 (drop byte src))) 0 in
      if bo_sign thisop
      then map_option (\<lambda>v. Reply_integer (sint v)) (getSignedBitfield buf (bo_offset thisop - byte * 8) (bo_bits thisop))
      else Some (Reply_integer (sint (getUnsignedBitfield buf (bo_offset thisop - byte * 8) (bo_bits thisop)))))"

definition bitfield_op :: "bitfieldOp \<Rightarrow> bytes \<Rightarrow> (bitfield_reply \<times> bytes) option" where
  "bitfield_op thisop p =
     (if bo_opcode thisop = BITFIELDOP_GET then map_option (\<lambda>r. (r, p)) (bitfield_get thisop p)
      else if bo_sign thisop then bitfield_signed thisop p
      else bitfield_unsigned thisop p)"

fun bitfield_exec :: "bitfieldOp list \<Rightarrow> bytes \<Rightarrow> (bitfield_reply list \<times> bytes) option" where
  "bitfield_exec [] p = Some ([], p)"
| "bitfield_exec (thisop # ops) p =
     (case bitfield_op thisop p of
        None \<Rightarrow> None
      | Some (r, p1) \<Rightarrow> map_option (\<lambda>(rs, p2). (r # rs, p2)) (bitfield_exec ops p1))"

datatype key_value = No_key | String_value bytes | Other_value

definition lookupStringForBitCommand :: "key_value \<Rightarrow> nat \<Rightarrow> bytes option" where
  "lookupStringForBitCommand obj maxbit =
     (let byte = maxbit div 8 in
      case obj of
        No_key \<Rightarrow> Some (replicate (byte + 1) 0)
      | Other_value \<Rightarrow> None
      | String_value p \<Rightarrow> Some (if length p < byte + 1 then p @ replicate (byte + 1 - length p) 0 else p))"

text \<open>The result is the error or the replies, and the new value of the key.\<close>

definition bitfieldCommand :: "bytes list \<Rightarrow> key_value \<Rightarrow> ((bitfield_error + bitfield_reply list) \<times> key_value) option" where
  "bitfieldCommand args obj =
     (case bitfield_parse args BFOVERFLOW_WRAP [] of
        None \<Rightarrow> None
      | Some (Inl e) \<Rightarrow> Some (Inl e, obj)
      | Some (Inr ops) \<Rightarrow>
          if list_all (\<lambda>thisop. bo_opcode thisop = BITFIELDOP_GET) ops then
            (case obj of
               Other_value \<Rightarrow> Some (Inl Err_wrongtype, obj)
             | No_key \<Rightarrow> map_option (\<lambda>(rs, _). (Inr rs, No_key)) (bitfield_exec ops [])
             | String_value p \<Rightarrow> map_option (\<lambda>(rs, _). (Inr rs, String_value p)) (bitfield_exec ops p))
          else
            (case lookupStringForBitCommand obj (highest_write_offset ops) of
               None \<Rightarrow> Some (Inl Err_wrongtype, obj)
             | Some p \<Rightarrow> map_option (\<lambda>(rs, p2). (Inr rs, String_value p2)) (bitfield_exec ops p)))"

section \<open>SETBIT and GETBIT\<close>

text \<open>The reply is the old bit; \<open>on\<close> is the parsed third argument.\<close>

definition setbitCommand :: "bytes \<Rightarrow> bytes \<Rightarrow> key_value \<Rightarrow> ((bitfield_error + bool) \<times> key_value) option" where
  "setbitCommand offset_arg bit_arg obj =
     (case getBitOffsetFromArgument offset_arg False 0 of
        None \<Rightarrow> None
      | Some (Inl _) \<Rightarrow> Some (Inl Err_offset, obj)
      | Some (Inr bitoffset) \<Rightarrow>
          (case string2ll bit_arg of
             None \<Rightarrow> Some (Inl Err_integer, obj)
           | Some on \<Rightarrow>
               if on \<noteq> 0 \<and> on \<noteq> 1 then Some (Inl Err_integer, obj)
               else
                 (case lookupStringForBitCommand obj bitoffset of
                    None \<Rightarrow> Some (Inl Err_wrongtype, obj)
                  | Some p \<Rightarrow>
                      let byte = bitoffset div 8; byteval = p ! byte; bi = 7 - bitoffset mod 8 in
                      Some (Inr (byteval AND push_bit bi 1 \<noteq> 0),
                        String_value (p[byte := (byteval AND NOT (push_bit bi 1)) OR push_bit bi (of_bool (on = 1))])))))"

definition getbitCommand :: "bytes \<Rightarrow> key_value \<Rightarrow> (bitfield_error + bool) option" where
  "getbitCommand offset_arg obj =
     (case getBitOffsetFromArgument offset_arg False 0 of
        None \<Rightarrow> None
      | Some (Inl _) \<Rightarrow> Some (Inl Err_offset)
      | Some (Inr bitoffset) \<Rightarrow>
          (case obj of
             No_key \<Rightarrow> Some (Inr False)
           | Other_value \<Rightarrow> Some (Inl Err_wrongtype)
           | String_value p \<Rightarrow>
               let byte = bitoffset div 8; bi = 7 - bitoffset mod 8 in
               Some (Inr (byte < length p \<and> p ! byte AND push_bit bi 1 \<noteq> 0))))"

end
