(* ===== verification/Bitops_Correct.thy ===== *)
theory Bitops_Correct
  imports Bitops
begin

text \<open>The bit operations against an infinite bitmap: the bits a write changes and a read returns, the
  overflow checks on exact integers, the refinement of the whole BITFIELD command, the first bit of a
  value, SETBIT with GETBIT, and what happens at the limits of the widths.\<close>

unbundle bit_operations_syntax

section \<open>The bits of a string\<close>

text \<open>Bit 0 is the most significant bit of the first byte; past its end the string is zero.\<close>

definition bit_at :: "bytes \<Rightarrow> nat \<Rightarrow> bool" where
  "bit_at p i = (i div 8 < length p \<and> bit (p ! (i div 8)) (7 - i mod 8))"

lemma bit_255: "bit (255 :: int) k \<longleftrightarrow> k < 8" "bit (255 :: nat) k \<longleftrightarrow> k < 8"
proof -
  have e: "(255 :: int) = mask 8" "(255 :: nat) = mask 8"
    by (simp_all add: mask_eq_exp_minus_1)
  show "bit (255 :: int) k \<longleftrightarrow> k < 8" "bit (255 :: nat) k \<longleftrightarrow> k < 8"
    unfolding e bit_mask_iff by simp_all
qed

lemma set_bit_step_byte:
  assumes "bi \<le> 7"
  shows "(ucast ((((ucast (x :: byte) :: 64 word) AND NOT (push_bit bi 1)) OR push_bit bi (of_bool b)) AND 0xff) :: byte) =
    (x AND NOT (push_bit bi 1)) OR push_bit bi (of_bool b)"
proof (rule bit_word_eqI)
  fix k assume "k < LENGTH(8)"
  then show "bit (ucast ((((ucast (x :: byte) :: 64 word) AND NOT (push_bit bi 1)) OR push_bit bi (of_bool b)) AND 0xff) :: byte) k =
    bit ((x AND NOT (push_bit bi 1)) OR push_bit bi (of_bool b)) k"
    using assms by (simp add: bit_simps bit_255)
qed

lemma bit_set_byte:
  fixes x :: byte
  assumes "bi \<le> 7" "k \<le> 7"
  shows "bit ((x AND NOT (push_bit bi 1)) OR push_bit bi (of_bool b)) k = (if k = bi then b else bit x k)"
  using assms by (auto simp: bit_simps)

lemma length_set_bit_step [simp]: "length (set_bit_step p i b) = length p"
  by (simp add: set_bit_step_def Let_def)

lemma set_bit_step_eq:
  "set_bit_step p i b =
    p[i div 8 := (p ! (i div 8) AND NOT (push_bit (7 - i mod 8) 1)) OR push_bit (7 - i mod 8) (of_bool b)]"
  unfolding set_bit_step_def Let_def by (subst set_bit_step_byte) simp_all

lemma bit_at_set_bit_step:
  assumes "i < 8 * length p"
  shows "bit_at (set_bit_step p i b) j = (if j = i then b else bit_at p j)"
proof -
  have f: "i div 8 < length p" using assms by auto
  have e: "7 - j mod 8 = 7 - i mod 8 \<longleftrightarrow> j = i" if "j div 8 = i div 8"
  proof -
    have "7 - j mod 8 = 7 - i mod 8 \<longleftrightarrow> j mod 8 = i mod 8"
      using mod_less_divisor [of 8 j] mod_less_divisor [of 8 i] by arith
    also have "\<dots> \<longleftrightarrow> j = i"
      using that by (metis div_mult_mod_eq)
    finally show ?thesis .
  qed
  let ?x = "p ! (i div 8)"
  note x = set_bit_step_eq [of p i b]
  show ?thesis
  proof (cases "j div 8 = i div 8")
    case True
    have "bit_at (set_bit_step p i b) j =
        bit ((?x AND NOT (push_bit (7 - i mod 8) 1)) OR push_bit (7 - i mod 8) (of_bool b)) (7 - j mod 8)"
      using f unfolding bit_at_def x True by (simp only: nth_list_update_eq length_list_update simp_thms)
    also have "\<dots> = (if j = i then b else bit_at p j)"
      using f by (subst bit_set_byte) (simp_all add: bit_at_def e [OF True] True)
    finally show ?thesis .
  next
    case False
    then show ?thesis
      unfolding bit_at_def x by auto
  qed
qed

lemma setUnsignedBitfield_bits:
  assumes "offset + bits \<le> 8 * length p"
  shows "length (setUnsignedBitfield p offset bits v) = length p \<and>
    bit_at (setUnsignedBitfield p offset bits v) j =
      (if offset \<le> j \<and> j < offset + bits then bit v (bits - 1 - (j - offset)) else bit_at p j)"
  using assms
proof (induction p offset bits v rule: setUnsignedBitfield.induct)
  case (2 p offset bits v)
  then show ?case
    by (auto simp: bit_at_set_bit_step)
qed auto

lemma shift_in_bit: "bit (push_bit 1 v OR of_bool b :: 64 word) m = (m < 64 \<and> (if m = 0 then b else bit v (m - 1)))"
  unfolding bit_or_iff bit_push_bit_iff by (auto simp: bit_simps)

lemma get_bit_step: "i < 8 * length p \<Longrightarrow> get_bit_step p i = of_bool (bit_at p i)"
proof (rule bit_word_eqI)
  fix k assume i: "i < 8 * length p" and "k < LENGTH(64)"
  then show "bit (get_bit_step p i) k = bit (of_bool (bit_at p i) :: 64 word) k"
    by (auto simp: get_bit_step_def Let_def bit_at_def bit_simps)
qed

lemma getUnsigned_loop_bits:
  assumes "offset + bits \<le> 8 * length p" "bits \<le> 64"
  shows "bit (getUnsigned_loop p offset bits v) k =
    (if k < bits then bit_at p (offset + bits - 1 - k) else k < 64 \<and> bit v (k - bits))"
  using assms
proof (induction p offset bits v arbitrary: k rule: getUnsigned_loop.induct)
  case (1 p offset v)
  then show ?case using bit_imp_le_length [of v k] by auto
next
  case (2 p offset bits v)
  define v1 where "v1 = push_bit 1 v OR get_bit_step p offset"
  have v1: "bit v1 m = (m < 64 \<and> (if m = 0 then bit_at p offset else bit v (m - 1)))" for m
    using 2(2) by (simp only: v1_def get_bit_step shift_in_bit)
  have "bit (getUnsigned_loop p (offset + 1) bits v1) k =
      (if k < bits then bit_at p (offset + 1 + bits - 1 - k) else k < 64 \<and> bit v1 (k - bits))"
    using 2(1) [of k] 2(2,3) unfolding v1_def by (simp only: add_Suc_right add_Suc Suc_eq_plus1)
  then show ?case
    unfolding getUnsigned_loop.simps v1_def [symmetric] v1
    using 2(3) by (auto simp: le_Suc_eq less_Suc_eq)
qed

section \<open>The abstract bitmap\<close>

text \<open>The specification: a bitmap is an infinite sequence of bits; a field is the number its bits denote,
  the first bit being the most significant; \<open>put\<close> writes the two's complement of a number.\<close>

definition field :: "(nat \<Rightarrow> bool) \<Rightarrow> nat \<Rightarrow> nat \<Rightarrow> int" where
  "field B offset bits = horner_sum of_bool 2 (map (\<lambda>k. B (offset + bits - 1 - k)) [0..<bits])"

definition wrapped :: "bool \<Rightarrow> nat \<Rightarrow> int \<Rightarrow> int" where
  "wrapped sign bits t = (if sign then (t + 2 ^ (bits - 1)) mod 2 ^ bits - 2 ^ (bits - 1) else t mod 2 ^ bits)"

definition lowest :: "bool \<Rightarrow> nat \<Rightarrow> int" where
  "lowest sign bits = (if sign then - (2 ^ (bits - 1)) else 0)"

definition highest :: "bool \<Rightarrow> nat \<Rightarrow> int" where
  "highest sign bits = (if sign then 2 ^ (bits - 1) - 1 else 2 ^ bits - 1)"

definition put :: "(nat \<Rightarrow> bool) \<Rightarrow> nat \<Rightarrow> nat \<Rightarrow> int \<Rightarrow> nat \<Rightarrow> bool" where
  "put B offset bits v j = (if offset \<le> j \<and> j < offset + bits then bit v (bits - 1 - (j - offset)) else B j)"

lemma getUnsigned_bit:
  assumes "offset + bits \<le> 8 * length p" "bits \<le> 64"
  shows "bit (getUnsignedBitfield p offset bits) k = (k < bits \<and> bit_at p (offset + bits - 1 - k))"
  using getUnsigned_loop_bits [OF assms, of 0 k] by (simp add: getUnsignedBitfield_def)

lemma getUnsigned_field:
  assumes "offset + bits \<le> 8 * length p" "bits \<le> 64"
  shows "uint (getUnsignedBitfield p offset bits) = field (bit_at p) offset bits"
proof -
  let ?w = "getUnsignedBitfield p offset bits"
  have "uint ?w = take_bit bits (uint ?w)"
    by (rule bit_eqI) (auto simp: bit_take_bit_iff bit_uint_iff getUnsigned_bit [OF assms])
  also have "\<dots> = horner_sum of_bool 2 (map (bit (uint ?w)) [0..<bits])"
    by (simp add: horner_sum_bit_eq_take_bit)
  also have "map (bit (uint ?w)) [0..<bits] = map (\<lambda>k. bit_at p (offset + bits - 1 - k)) [0..<bits]"
    using assms(2) by (auto simp: bit_uint_iff getUnsigned_bit [OF assms])
  finally show ?thesis
    by (simp add: field_def)
qed

lemma field_range: "0 \<le> field B offset bits" "field B offset bits < 2 ^ bits"
proof -
  have "field B offset bits = take_bit bits (field B offset bits)"
    unfolding field_def by (rule bit_eqI) (auto simp: bit_take_bit_iff bit_horner_sum_bit_iff)
  then show "0 \<le> field B offset bits" "field B offset bits < 2 ^ bits"
    by (metis take_bit_nonnegative, metis take_bit_int_less_exp)
qed

lemma setUnsigned_put:
  assumes "offset + bits \<le> 8 * length p" "bits \<le> 64"
  shows "bit_at (setUnsignedBitfield p offset bits (word_of_int v)) = put (bit_at p) offset bits v"
proof
  fix j
  show "bit_at (setUnsignedBitfield p offset bits (word_of_int v)) j = put (bit_at p) offset bits v j"
    using setUnsignedBitfield_bits [OF assms(1), of "word_of_int v" j] assms(2)
    by (auto simp: put_def bit_simps)
qed

section \<open>Overflow checks\<close>

lemma sint_word_of_int_range:
  "- (2 ^ 63) \<le> x \<Longrightarrow> x < 2 ^ 63 \<Longrightarrow> sint (word_of_int x :: 64 word) = x"
  by (simp add: sint_sbintrunc' signed_take_bit_int_eq_self)

lemma uint_word_of_int_range:
  "0 \<le> x \<Longrightarrow> x < 2 ^ 64 \<Longrightarrow> uint (word_of_int x :: 64 word) = x"
  by (simp only: uint_word_of_int_eq take_bit_int_eq_self) (simp add: take_bit_int_eq_self)

lemma keep_low_bits:
  assumes "bits < 64"
  shows "(word_of_int x :: 64 word) AND NOT (push_bit bits (- 1)) = word_of_int (x mod 2 ^ bits)"
proof (rule bit_word_eqI)
  fix k assume "k < LENGTH(64)"
  then show "bit ((word_of_int x :: 64 word) AND NOT (push_bit bits (- 1))) k = bit (word_of_int (x mod 2 ^ bits) :: 64 word) k"
    using assms by (auto simp: bit_simps simp flip: take_bit_eq_mod)
qed

lemma sign_extend:
  assumes "1 \<le> bits" "bits < 64"
  shows "(if (word_of_int x :: 64 word) AND push_bit (bits - 1) 1 \<noteq> 0 then (word_of_int x :: 64 word) OR push_bit bits (- 1)
          else word_of_int x AND NOT (push_bit bits (- 1))) = (word_of_int (wrapped True bits x) :: 64 word)"
proof -
  obtain n where n: "bits = Suc n" "n < 63" using assms by (cases bits) auto
  have w: "wrapped True bits x = signed_take_bit n x"
    by (simp add: wrapped_def n signed_take_bit_eq_take_bit_shift take_bit_eq_mod)
  have msb: "(word_of_int x :: 64 word) AND push_bit (bits - 1) 1 \<noteq> 0 \<longleftrightarrow> bit x n"
    using n(2) by (simp add: n(1) and_exp_eq_0_iff_not_bit push_bit_of_1 bit_word_of_int_iff)
  show ?thesis
    unfolding msb w
    by (rule bit_word_eqI) (use n in \<open>auto simp: bit_simps min_def not_less\<close>,
        (metis le_antisym not_less_eq_eq)+)
qed

text \<open>What both checks report, for a sum \<open>t\<close>: a code, and the value to store instead.\<close>

definition check_spec :: "bool \<Rightarrow> nat \<Rightarrow> owtype \<Rightarrow> int \<Rightarrow> int \<times> 64 word option" where
  "check_spec sign bits ow t =
     (if t > highest sign bits then
        (1, case ow of BFOVERFLOW_WRAP \<Rightarrow> Some (word_of_int (wrapped sign bits t))
            | BFOVERFLOW_SAT \<Rightarrow> Some (word_of_int (highest sign bits)) | BFOVERFLOW_FAIL \<Rightarrow> None)
      else if t < lowest sign bits then
        (case ow of BFOVERFLOW_WRAP \<Rightarrow> (1, Some (word_of_int (wrapped sign bits t)))
         | BFOVERFLOW_SAT \<Rightarrow> (- 1, Some (word_of_int (lowest sign bits))) | BFOVERFLOW_FAIL \<Rightarrow> (- 1, None))
      else (0, None))"

lemma power_le_63: "n \<le> 63 \<Longrightarrow> (2 :: int) ^ n \<le> 2 ^ 63"
  by (rule power_increasing) simp_all

lemma push_bit_minus_1: "bits \<le> 63 \<Longrightarrow> (push_bit bits 1 - 1 :: 64 word) = word_of_int (2 ^ bits - 1)"
  by (simp add: push_bit_of_1)

lemma checkUnsigned_exact:
  assumes "1 \<le> bits" "bits \<le> 63" "0 \<le> V" "V < 2 ^ 64" "- (2 ^ 63) \<le> I" "I < 2 ^ 63" "V < 2 ^ bits \<or> I = 0"
  shows "checkUnsignedBitfieldOverflow (word_of_int V) (word_of_int I) bits ow = Some (check_spec False bits ow (V + I))"
proof -
  let ?max = "2 ^ bits - 1 :: int"
  note p = power_le_63 [OF assms(2)]
  have b: "bits \<noteq> 64" "bits < 64" using assms(2) by simp_all
  have I: "sint (word_of_int I :: 64 word) = I"
    by (rule sint_word_of_int_range) (use assms in simp_all)
  have gt: "(word_of_int V :: 64 word) > word_of_int ?max \<longleftrightarrow> V > ?max"
    unfolding word_less_alt using p assms(3,4) by (subst (1 2) uint_word_of_int_range) auto
  have sum: "(word_of_int V + word_of_int I :: 64 word) = word_of_int (V + I)" by simp
  have wrap: "unsigned_wrap (word_of_int V) (word_of_int I) bits = Some (1, Some (word_of_int (wrapped False bits (V + I))))"
    unfolding unsigned_wrap_def shl64_def sum using keep_low_bits [OF b(2), of "V + I"] b by (simp add: wrapped_def)
  show ?thesis
  proof (cases "V > ?max")
    case True
    then have "I = 0" using assms(7) by linarith
    then show ?thesis
      using True gt wrap b unfolding checkUnsignedBitfieldOverflow_def Let_def push_bit_minus_1 [OF assms(2)]
      by (simp add: check_spec_def highest_def split: owtype.split)
  next
    case False
    have mx: "sint (word_of_int ?max - word_of_int V :: 64 word) = ?max - V"
      using sint_word_of_int_range [of "?max - V"] False assms(3) p by simp
    have mn: "sint (- word_of_int V :: 64 word) = - V"
      using sint_word_of_int_range [of "- V"] False assms(3) p by simp
    show ?thesis
      using False gt wrap b assms(3)
      unfolding checkUnsignedBitfieldOverflow_def Let_def push_bit_minus_1 [OF assms(2)] if_not_P [OF b(1)] mx mn I
      by (auto simp: check_spec_def highest_def lowest_def split: owtype.split)
  qed
qed

lemma checkSigned_exact:
  assumes "1 \<le> bits" "bits \<le> 63" "- (2 ^ 63) \<le> V" "V < 2 ^ 63" "- (2 ^ 63) \<le> I" "I < 2 ^ 63"
    and "(lowest True bits \<le> V \<and> V \<le> highest True bits) \<or> (I = 0 \<and> - (2 ^ 63) + 2 ^ (bits - 1) \<le> V)"
  shows "checkSignedBitfieldOverflow (word_of_int V) (word_of_int I) bits ow = Some (check_spec True bits ow (V + I))"
proof -
  define P :: int where "P = 2 ^ (bits - 1)"
  have p: "P \<le> 4611686018427387904" "1 \<le> P"
    using power_increasing [of "bits - 1" 62 "2 :: int"] assms(2) by (simp_all add: P_def)
  have b: "bits \<noteq> 64" "bits < 64" "bits - 1 \<le> 63" using assms(2) by simp_all
  have r: "- 9223372036854775808 \<le> V" "V < 9223372036854775808" "- 9223372036854775808 \<le> I" "I < 9223372036854775808"
    using assms(3-6) by simp_all
  have c: "(- P \<le> V \<and> V \<le> P - 1) \<or> (I = 0 \<and> - 9223372036854775808 + P \<le> V)"
    using assms(7) by (simp add: lowest_def highest_def P_def)
  note sr = sint_word_of_int_range [simplified]
  have V: "sint (word_of_int V :: 64 word) = V" and I: "sint (word_of_int I :: 64 word) = I"
    using r by (simp_all add: sr)
  have M: "sint (word_of_int (P - 1) :: 64 word) = P - 1"
    by (rule sr) (use p in linarith)+
  have m: "sint (- word_of_int (P - 1) - 1 :: 64 word) = - (P - 1) - 1"
    using sr [of "- (P - 1) - 1"] p by simp
  have mx: "sint (word_of_int (P - 1) - word_of_int V :: 64 word) = P - 1 - V" if "V \<le> P - 1"
    using sr [of "P - 1 - V"] that c r p by auto
  have mn: "sint (- word_of_int (P - 1) - 1 - word_of_int V :: 64 word) = - (P - 1) - 1 - V" if "V \<le> P - 1"
    using sr [of "- (P - 1) - 1 - V"] that c r p by auto
  have sum: "(word_of_int V + word_of_int I :: 64 word) = word_of_int (V + I)" by simp
  have wrap: "signed_wrap (word_of_int V) (word_of_int I) bits = Some (1, Some (word_of_int (wrapped True bits (V + I))))"
    unfolding signed_wrap_def shl64_def if_P [OF b(2)] option.map Let_def sum sign_extend [OF assms(1) b(2)] by (rule refl)
  have lh: "lowest True bits = - P" "highest True bits = P - 1"
    by (simp_all add: lowest_def highest_def P_def)
  note def = checkSignedBitfieldOverflow_def Let_def push_bit_minus_1 [OF b(3), folded P_def] if_not_P [OF b(1)]
  show ?thesis
  proof (cases "V > P - 1")
    case True
    then have "I = 0" using c by auto
    then show ?thesis
      using True V M wrap b unfolding def check_spec_def lh by (simp split: owtype.split)
  next
    case False
    then have F: "V \<le> P - 1" by simp
    show ?thesis
      using F wrap b c p unfolding def check_spec_def lh mx [OF F] mn [OF F] V I M m
      by (auto split: owtype.split)
  qed
qed

section \<open>BITFIELD refines its specification\<close>

definition field_value :: "bool \<Rightarrow> (nat \<Rightarrow> bool) \<Rightarrow> nat \<Rightarrow> nat \<Rightarrow> int" where
  "field_value sign B offset bits = wrapped sign bits (field B offset bits)"

definition spec_new :: "bool \<Rightarrow> nat \<Rightarrow> owtype \<Rightarrow> int \<Rightarrow> int option" where
  "spec_new sign bits ow t =
     (if lowest sign bits \<le> t \<and> t \<le> highest sign bits then Some t
      else case ow of BFOVERFLOW_WRAP \<Rightarrow> Some (wrapped sign bits t)
        | BFOVERFLOW_SAT \<Rightarrow> Some (if t > highest sign bits then highest sign bits else lowest sign bits)
        | BFOVERFLOW_FAIL \<Rightarrow> None)"

definition spec_op :: "bitfieldOp \<Rightarrow> (nat \<Rightarrow> bool) \<Rightarrow> bitfield_reply \<times> (nat \<Rightarrow> bool)" where
  "spec_op thisop B =
     (let old = field_value (bo_sign thisop) B (bo_offset thisop) (bo_bits thisop);
          t = (if bo_opcode thisop = BITFIELDOP_INCRBY then old + bo_i64 thisop
               else if bo_sign thisop then bo_i64 thisop else bo_i64 thisop mod 2 ^ 64) in
      if bo_opcode thisop = BITFIELDOP_GET then (Reply_integer old, B)
      else case spec_new (bo_sign thisop) (bo_bits thisop) (bo_owtype thisop) t of
        None \<Rightarrow> (Reply_null, B)
      | Some n \<Rightarrow> (Reply_integer (if bo_opcode thisop = BITFIELDOP_INCRBY then n else old),
          put B (bo_offset thisop) (bo_bits thisop) n))"

fun spec_exec :: "bitfieldOp list \<Rightarrow> (nat \<Rightarrow> bool) \<Rightarrow> bitfield_reply list \<times> (nat \<Rightarrow> bool)" where
  "spec_exec [] B = ([], B)"
| "spec_exec (thisop # ops) B =
     (case spec_op thisop B of (r, B1) \<Rightarrow> case spec_exec ops B1 of (rs, B2) \<Rightarrow> (r # rs, B2))"

definition op_ok :: "nat \<Rightarrow> bitfieldOp \<Rightarrow> bool" where
  "op_ok len thisop = (1 \<le> bo_bits thisop \<and> bo_bits thisop \<le> 63 \<and> in_sint 64 (bo_i64 thisop) \<and>
     (bo_opcode thisop = BITFIELDOP_SET \<and> bo_sign thisop \<longrightarrow> - (2 ^ 63) + 2 ^ (bo_bits thisop - 1) \<le> bo_i64 thisop) \<and>
     (bo_opcode thisop \<noteq> BITFIELDOP_GET \<longrightarrow> bo_offset thisop + bo_bits thisop \<le> 8 * len))"

lemma wrapped_range:
  assumes "1 \<le> bits"
  shows "lowest sign bits \<le> wrapped sign bits t" "wrapped sign bits t \<le> highest sign bits"
proof -
  obtain n where n: "bits = Suc n" using assms by (cases bits) auto
  have "0 \<le> x mod 2 ^ bits" "x mod 2 ^ bits < 2 ^ bits" for x :: int
    by simp_all
  note this [of t] this [of "t + 2 ^ n"]
  then show "lowest sign bits \<le> wrapped sign bits t" "wrapped sign bits t \<le> highest sign bits"
    by (auto simp: n lowest_def highest_def wrapped_def)
qed

lemma spec_new_range:
  "spec_new sign bits ow t = Some n \<Longrightarrow> 1 \<le> bits \<Longrightarrow> lowest sign bits \<le> n \<and> n \<le> highest sign bits"
  using wrapped_range [of bits sign t]
  by (auto simp: spec_new_def lowest_def highest_def split: if_splits owtype.splits)

lemma range_sint:
  assumes "1 \<le> bits" "bits \<le> 63" "lowest sign bits \<le> n" "n \<le> highest sign bits"
  shows "sint (word_of_int n :: 64 word) = n"
proof -
  have "(2 :: int) ^ bits \<le> 2 ^ 63" "(2 :: int) ^ (bits - 1) \<le> 2 ^ 63"
    using power_le_63 [of bits] power_le_63 [of "bits - 1"] assms(2) by auto
  then show ?thesis
    using assms(3,4) by (intro sint_word_of_int_range) (auto simp: lowest_def highest_def split: if_splits)
qed

lemma check_spec_new:
  assumes "check_spec sign bits ow t = (c, w)"
  shows "c \<noteq> 0 \<and> ow = BFOVERFLOW_FAIL \<longleftrightarrow> spec_new sign bits ow t = None"
    "spec_new sign bits ow t = Some n \<Longrightarrow> (if c \<noteq> 0 then the w else word_of_int t) = word_of_int n"
  using assms by (auto simp: check_spec_def spec_new_def split: if_splits owtype.splits)

lemma getUnsigned_word:
  assumes "offset + bits \<le> 8 * length p" "bits \<le> 63"
  shows "getUnsignedBitfield p offset bits = word_of_int (field_value False (bit_at p) offset bits)"
proof -
  have "getUnsignedBitfield p offset bits = word_of_int (field (bit_at p) offset bits)"
    using assms(2) by (subst getUnsigned_field [OF assms(1), symmetric]) simp_all
  then show ?thesis
    using field_range by (simp add: field_value_def wrapped_def)
qed

lemma getSigned_word:
  assumes "offset + bits \<le> 8 * length p" "1 \<le> bits" "bits \<le> 63"
  shows "getSignedBitfield p offset bits = Some (word_of_int (field_value True (bit_at p) offset bits))"
proof -
  let ?F = "field (bit_at p) offset bits"
  have b: "bits < 64" using assms(3) by simp
  have v: "getUnsignedBitfield p offset bits = word_of_int ?F"
    using getUnsigned_word [OF assms(1,3)] field_range by (simp add: field_value_def wrapped_def)
  have low: "(word_of_int ?F :: 64 word) AND NOT (push_bit bits (- 1)) = word_of_int ?F"
    using keep_low_bits [OF b, of ?F] field_range by simp
  have "getSignedBitfield p offset bits = Some (if (word_of_int ?F :: 64 word) AND push_bit (bits - 1) 1 \<noteq> 0
      then (word_of_int ?F :: 64 word) OR push_bit bits (- 1) else word_of_int ?F AND NOT (push_bit bits (- 1)))"
    unfolding getSignedBitfield_def Let_def v low shl64_def if_P [OF b] by (simp only: option.map split: if_split) blast
  then show ?thesis
    unfolding sign_extend [OF assms(2) b] field_value_def .
qed

text \<open>The common end of both write paths.\<close>

lemma bitfield_write:
  assumes "1 \<le> bits" "bits \<le> 63" "off + bits \<le> 8 * length p"
    and "lowest sign bits \<le> old" "old \<le> highest sign bits" "check_spec sign bits ow t = (c, w)"
    and "new = (if c \<noteq> 0 then the w else word_of_int t)"
  shows "case spec_new sign bits ow t of
      None \<Rightarrow> c \<noteq> 0 \<and> ow = BFOVERFLOW_FAIL
    | Some n \<Rightarrow> \<not> (c \<noteq> 0 \<and> ow = BFOVERFLOW_FAIL) \<and> sint new = n \<and> sint (word_of_int old :: 64 word) = old \<and>
        length (setUnsignedBitfield p off bits new) = length p \<and>
        bit_at (setUnsignedBitfield p off bits new) = put (bit_at p) off bits n"
proof (cases "spec_new sign bits ow t")
  case None
  then show ?thesis
    using check_spec_new(1) [OF assms(6)] by simp
next
  case (Some n)
  have new: "new = word_of_int n"
    using check_spec_new(2) [OF assms(6) Some] assms(7) by simp
  have "bits \<le> 64" using assms(2) by simp
  then show ?thesis
    using Some new check_spec_new(1) [OF assms(6)] range_sint [OF assms(1,2), of sign n]
      range_sint [OF assms(1,2,4,5)] spec_new_range [OF Some assms(1)] setUnsigned_put [OF assms(3), of n]
      setUnsignedBitfield_bits [OF assms(3), THEN conjunct1, of "word_of_int n"]
    by simp
qed

lemma word_of_int_mod_64: "(word_of_int (x mod 2 ^ 64) :: 64 word) = word_of_int x"
  by (simp add: word_of_int_eq_iff take_bit_eq_mod)

lemma bitfield_unsigned_spec:
  assumes "op_ok (length p) thisop" "bo_opcode thisop \<noteq> BITFIELDOP_GET" "\<not> bo_sign thisop"
  shows "\<exists>r p2. bitfield_unsigned thisop p = Some (r, p2) \<and> length p2 = length p \<and> spec_op thisop (bit_at p) = (r, bit_at p2)"
proof -
  define old where "old = field_value False (bit_at p) (bo_offset thisop) (bo_bits thisop)"
  define t where "t = (if bo_opcode thisop = BITFIELDOP_INCRBY then old + bo_i64 thisop else bo_i64 thisop mod 2 ^ 64)"
  have b: "1 \<le> bo_bits thisop" "bo_bits thisop \<le> 63" "bo_offset thisop + bo_bits thisop \<le> 8 * length p"
    "- (2 ^ 63) \<le> bo_i64 thisop" "bo_i64 thisop < 2 ^ 63"
    using assms(1,2) by (auto simp: op_ok_def in_sint_def)
  have old: "0 \<le> old" "old < 2 ^ bo_bits thisop" "lowest False (bo_bits thisop) \<le> old" "old \<le> highest False (bo_bits thisop)"
    using field_range [where B = "bit_at p" and offset = "bo_offset thisop" and bits = "bo_bits thisop"]
    by (simp_all add: old_def field_value_def wrapped_def lowest_def highest_def)
  have old64: "old < 2 ^ 64"
    using old(2) power_le_63 [OF b(2)] by simp
  have chk: "(if bo_opcode thisop = BITFIELDOP_INCRBY
      then checkUnsignedBitfieldOverflow (word_of_int old) (word_of_int (bo_i64 thisop)) (bo_bits thisop) (bo_owtype thisop)
      else checkUnsignedBitfieldOverflow (word_of_int (bo_i64 thisop)) 0 (bo_bits thisop) (bo_owtype thisop)) =
      Some (check_spec False (bo_bits thisop) (bo_owtype thisop) t)"
  proof (cases "bo_opcode thisop = BITFIELDOP_INCRBY")
    case True
    then show ?thesis
      using checkUnsigned_exact [OF b(1,2) old(1) old64 b(4,5) disjI1 [OF old(2)]] by (simp only: simp_thms if_True t_def)
  next
    case False
    have "checkUnsignedBitfieldOverflow (word_of_int (bo_i64 thisop mod 2 ^ 64)) (word_of_int 0) (bo_bits thisop) (bo_owtype thisop)
        = Some (check_spec False (bo_bits thisop) (bo_owtype thisop) (bo_i64 thisop mod 2 ^ 64 + 0))"
      by (rule checkUnsigned_exact [OF b(1,2)]) simp_all
    then show ?thesis
      using False by (simp only: word_of_int_mod_64 word_of_int_0 add_0_right if_False t_def)
  qed
  obtain c w where cw: "check_spec False (bo_bits thisop) (bo_owtype thisop) t = (c, w)" by fastforce
  have t: "(if bo_opcode thisop = BITFIELDOP_INCRBY then word_of_int old + word_of_int (bo_i64 thisop)
      else word_of_int (bo_i64 thisop) :: 64 word) = word_of_int t"
    using word_of_int_mod_64 [of "bo_i64 thisop"] by (simp add: t_def)
  define new where "new = (if c \<noteq> 0 then the w else word_of_int t)"
  have spec: "spec_op thisop (bit_at p) = (case spec_new False (bo_bits thisop) (bo_owtype thisop) t of
        None \<Rightarrow> (Reply_null, bit_at p)
      | Some n \<Rightarrow> (Reply_integer (if bo_opcode thisop = BITFIELDOP_INCRBY then n else old),
          put (bit_at p) (bo_offset thisop) (bo_bits thisop) n))"
    by (simp only: spec_op_def Let_def t_def old_def assms(2,3) if_False if_True simp_thms)
  have code: "bitfield_unsigned thisop p = (if c \<noteq> 0 \<and> bo_owtype thisop = BFOVERFLOW_FAIL then Some (Reply_null, p)
      else Some (Reply_integer (sint (if bo_opcode thisop = BITFIELDOP_INCRBY then new else word_of_int old)),
        setUnsignedBitfield p (bo_offset thisop) (bo_bits thisop) new))"
    unfolding bitfield_unsigned_def Let_def getUnsigned_word [OF b(3,2)] old_def [symmetric] option.case chk cw prod.case t new_def [symmetric] by (rule refl)
  show ?thesis
    using bitfield_write [OF b(1-3) old(3,4) cw new_def] unfolding spec code
    by (cases "spec_new False (bo_bits thisop) (bo_owtype thisop) t") simp_all
qed

lemma bitfield_signed_spec:
  assumes "op_ok (length p) thisop" "bo_opcode thisop \<noteq> BITFIELDOP_GET" "bo_sign thisop"
  shows "\<exists>r p2. bitfield_signed thisop p = Some (r, p2) \<and> length p2 = length p \<and> spec_op thisop (bit_at p) = (r, bit_at p2)"
proof -
  define old where "old = field_value True (bit_at p) (bo_offset thisop) (bo_bits thisop)"
  define t where "t = (if bo_opcode thisop = BITFIELDOP_INCRBY then old + bo_i64 thisop else bo_i64 thisop)"
  have b: "1 \<le> bo_bits thisop" "bo_bits thisop \<le> 63" "bo_offset thisop + bo_bits thisop \<le> 8 * length p"
    "- (2 ^ 63) \<le> bo_i64 thisop" "bo_i64 thisop < 2 ^ 63"
    using assms(1,2) by (auto simp: op_ok_def in_sint_def)
  have old: "lowest True (bo_bits thisop) \<le> old" "old \<le> highest True (bo_bits thisop)"
    using wrapped_range [OF b(1)] by (simp_all add: old_def field_value_def)
  have old64: "- (2 ^ 63) \<le> old" "old < 2 ^ 63"
    using old power_le_63 [OF diff_le_self [THEN le_trans], OF b(2), of 1] by (simp_all add: lowest_def highest_def)
  have chk: "(if bo_opcode thisop = BITFIELDOP_INCRBY
      then checkSignedBitfieldOverflow (word_of_int old) (word_of_int (bo_i64 thisop)) (bo_bits thisop) (bo_owtype thisop)
      else checkSignedBitfieldOverflow (word_of_int (bo_i64 thisop)) 0 (bo_bits thisop) (bo_owtype thisop)) =
      Some (check_spec True (bo_bits thisop) (bo_owtype thisop) t)"
  proof (cases "bo_opcode thisop = BITFIELDOP_INCRBY")
    case True
    then show ?thesis
      using checkSigned_exact [OF b(1,2) old64 b(4,5) disjI1 [OF conjI [OF old]]] by (simp only: simp_thms if_True t_def)
  next
    case False
    then have "bo_opcode thisop = BITFIELDOP_SET"
      using assms(2) by (cases "bo_opcode thisop") auto
    then have low: "- (2 ^ 63) + 2 ^ (bo_bits thisop - 1) \<le> bo_i64 thisop"
      using assms(1,3) by (simp add: op_ok_def)
    have "checkSignedBitfieldOverflow (word_of_int (bo_i64 thisop)) (word_of_int 0) (bo_bits thisop) (bo_owtype thisop)
        = Some (check_spec True (bo_bits thisop) (bo_owtype thisop) (bo_i64 thisop + 0))"
      by (rule checkSigned_exact [OF b(1,2,4,5) _ _ disjI2]) (use low in simp_all)
    then show ?thesis
      using False by (simp only: word_of_int_0 add_0_right if_False t_def)
  qed
  obtain c w where cw: "check_spec True (bo_bits thisop) (bo_owtype thisop) t = (c, w)" by fastforce
  have t: "(if bo_opcode thisop = BITFIELDOP_INCRBY then word_of_int old + word_of_int (bo_i64 thisop)
      else word_of_int (bo_i64 thisop) :: 64 word) = word_of_int t"
    by (simp add: t_def)
  define new where "new = (if c \<noteq> 0 then the w else word_of_int t)"
  have spec: "spec_op thisop (bit_at p) = (case spec_new True (bo_bits thisop) (bo_owtype thisop) t of
        None \<Rightarrow> (Reply_null, bit_at p)
      | Some n \<Rightarrow> (Reply_integer (if bo_opcode thisop = BITFIELDOP_INCRBY then n else old),
          put (bit_at p) (bo_offset thisop) (bo_bits thisop) n))"
    by (simp only: spec_op_def Let_def t_def old_def assms(2,3) if_False if_True simp_thms)
  have code: "bitfield_signed thisop p = (if c \<noteq> 0 \<and> bo_owtype thisop = BFOVERFLOW_FAIL then Some (Reply_null, p)
      else Some (Reply_integer (sint (if bo_opcode thisop = BITFIELDOP_INCRBY then new else word_of_int old)),
        setUnsignedBitfield p (bo_offset thisop) (bo_bits thisop) new))"
    unfolding bitfield_signed_def Let_def getSigned_word [OF b(3,1,2)] setSignedBitfield_def old_def [symmetric] option.case chk cw prod.case t new_def [symmetric] by (rule refl)
  show ?thesis
    using bitfield_write [OF b(1-3) old cw new_def] unfolding spec code
    by (cases "spec_new True (bo_bits thisop) (bo_owtype thisop) t") simp_all
qed

lemma bit_at_buf:
  assumes "j < 72"
  shows "bit_at (take 9 (drop k src) @ replicate (9 - length (take 9 (drop k src))) 0) j = bit_at src (k * 8 + j)"
proof -
  have "j div 8 < 9" using assms by auto
  then show ?thesis
    by (auto simp: bit_at_def nth_append)
qed

lemma field_cong:
  assumes "\<And>j. j < bits \<Longrightarrow> B (offset + j) = B' (offset' + j)"
  shows "field B offset bits = field B' offset' bits"
proof -
  have "B (offset + bits - 1 - k) = B' (offset' + bits - 1 - k)" if "k < bits" for k
  proof -
    have e: "offset + bits - 1 - k = offset + (bits - 1 - k)" "offset' + bits - 1 - k = offset' + (bits - 1 - k)"
      using that by simp_all
    show ?thesis
      unfolding e using that by (intro assms) simp
  qed
  then show ?thesis
    unfolding field_def by (intro arg_cong [of _ _ "horner_sum of_bool 2"] map_cong) auto
qed

lemma bitfield_get_spec:
  assumes "1 \<le> bo_bits thisop" "bo_bits thisop \<le> 63"
  shows "bitfield_get thisop src =
    Some (Reply_integer (field_value (bo_sign thisop) (bit_at src) (bo_offset thisop) (bo_bits thisop)))"
proof -
  define k where "k = bo_offset thisop div 8"
  define buf where "buf = take 9 (drop k src) @ replicate (9 - length (take 9 (drop k src))) (0 :: byte)"
  have off: "bo_offset thisop - k * 8 = bo_offset thisop mod 8"
    by (simp add: k_def minus_div_mult_eq_mod)
  have len: "length buf = 9" by (simp add: buf_def)
  have fit: "bo_offset thisop mod 8 + bo_bits thisop \<le> 8 * length buf"
    using assms(2) mod_less_divisor [of 8 "bo_offset thisop"] by (simp add: len)
  have fld: "field (bit_at buf) (bo_offset thisop mod 8) (bo_bits thisop) = field (bit_at src) (bo_offset thisop) (bo_bits thisop)"
  proof (rule field_cong)
    fix j assume "j < bo_bits thisop"
    then have "bo_offset thisop mod 8 + j < 72" using fit len by simp
    from bit_at_buf [OF this, of k src] show "bit_at buf (bo_offset thisop mod 8 + j) = bit_at src (bo_offset thisop + j)"
      by (simp add: buf_def k_def add.assoc [symmetric])
  qed
  note v = wrapped_range [OF assms(1)]
  show ?thesis
    unfolding bitfield_get_def Let_def k_def [symmetric] buf_def [symmetric] off
      getSigned_word [OF fit assms] getUnsigned_word [OF fit assms(2)] field_value_def fld
    by (simp add: range_sint [OF assms v])
qed

lemma bitfield_op_spec:
  assumes "op_ok (length p) thisop"
  shows "\<exists>r p2. bitfield_op thisop p = Some (r, p2) \<and> length p2 = length p \<and> spec_op thisop (bit_at p) = (r, bit_at p2)"
proof (cases "bo_opcode thisop = BITFIELDOP_GET")
  case True
  then show ?thesis
    using bitfield_get_spec [of thisop p] assms by (auto simp: bitfield_op_def op_ok_def spec_op_def Let_def)
next
  case False
  then show ?thesis
    using bitfield_signed_spec [OF assms False] bitfield_unsigned_spec [OF assms False]
    by (cases "bo_sign thisop") (simp_all add: bitfield_op_def)
qed

lemma bitfield_exec_spec:
  assumes "list_all (op_ok (length p)) ops"
  shows "\<exists>rs p2. bitfield_exec ops p = Some (rs, p2) \<and> length p2 = length p \<and> spec_exec ops (bit_at p) = (rs, bit_at p2)"
  using assms
proof (induction ops arbitrary: p)
  case (Cons thisop ops)
  then obtain r p1 where 1: "bitfield_op thisop p = Some (r, p1)" "length p1 = length p" "spec_op thisop (bit_at p) = (r, bit_at p1)"
    using bitfield_op_spec [of p thisop] by auto
  from Cons.IH [of p1] Cons.prems 1 show ?case by auto
qed simp

section \<open>The whole command\<close>

definition parsed_op :: "bitfieldOp \<Rightarrow> bool" where
  "parsed_op thisop = (1 \<le> bo_bits thisop \<and> bo_bits thisop \<le> 64 \<and> (\<not> bo_sign thisop \<longrightarrow> bo_bits thisop \<le> 63) \<and>
     bo_offset thisop < 2 ^ 32 \<and> in_sint 64 (bo_i64 thisop))"

lemma type_range:
  "getBitfieldTypeFromArgument p = Some (sign, bits) \<Longrightarrow> 1 \<le> bits \<and> bits \<le> 64 \<and> (\<not> sign \<longrightarrow> bits \<le> 63)"
  by (auto simp: getBitfieldTypeFromArgument_def Let_def split: if_splits option.splits)

lemma offset_range: "getBitOffsetFromArgument p hash bits = Some (Inr off) \<Longrightarrow> off < 2 ^ 32"
  by (auto simp: getBitOffsetFromArgument_def Let_def split: if_splits option.splits)

lemma parsed_ops:
  "bitfield_parse args ow ops = Some (Inr ops') \<Longrightarrow> list_all parsed_op ops \<Longrightarrow> list_all parsed_op ops'"
proof (induction args ow ops rule: bitfield_parse.induct)
  case (1 args ow ops)
  show ?case
  proof (cases args)
    case Nil
    with 1 show ?thesis by (simp add: bitfield_parse.simps)
  next
    case (Cons subcmd rest)
    show ?thesis
    proof (cases "bitfield_subcommand subcmd (length rest)")
      case None
      then show ?thesis
        using 1 Cons by (auto simp: bitfield_parse.simps [of "subcmd # rest"] split: if_splits option.splits)
    next
      case (Some opcode)
      then obtain sign bits off i64 where o: "getBitfieldTypeFromArgument (rest ! 0) = Some (sign, bits)"
        "getBitOffsetFromArgument (rest ! 1) True bits = Some (Inr off)"
        "(if opcode = BITFIELDOP_GET then Some 0 else string2ll (rest ! 2)) = Some i64"
        using 1(3) Cons by (auto simp: bitfield_parse.simps [of "subcmd # rest"] split: option.splits sum.splits)
      have "parsed_op \<lparr>bo_offset = off, bo_i64 = i64, bo_opcode = opcode, bo_owtype = ow, bo_bits = bits, bo_sign = sign\<rparr>"
        using type_range [OF o(1)] offset_range [OF o(2)] o(3) string2ll_sound [of "rest ! 2" i64]
        by (auto simp: parsed_op_def in_sint_def split: if_splits)
      then show ?thesis
        using 1(2) [OF Cons Some o(1) refl o(2) _ o(3)] 1(3,4) Cons Some o
        by (simp add: bitfield_parse.simps [of "subcmd # rest"])
    qed
  qed
qed

lemma highest_write_ge:
  assumes "thisop \<in> set ops" "bo_opcode thisop \<noteq> BITFIELDOP_GET"
  shows "bo_offset thisop + bo_bits thisop - 1 \<le> highest_write_offset ops"
proof -
  let ?f = "\<lambda>thisop h. if bo_opcode thisop \<noteq> BITFIELDOP_GET \<and> h < bo_offset thisop + bo_bits thisop - 1
     then bo_offset thisop + bo_bits thisop - 1 else h"
  have "h \<le> fold ?f ops h \<and> (\<forall>x \<in> set ops. bo_opcode x \<noteq> BITFIELDOP_GET \<longrightarrow> bo_offset x + bo_bits x - 1 \<le> fold ?f ops h)" for h
  proof (induction ops arbitrary: h)
    case (Cons a ops)
    from Cons.IH [of "?f a h"] show ?case by fastforce
  qed simp
  then show ?thesis
    using assms unfolding highest_write_offset_def by blast
qed

definition key_bits :: "key_value \<Rightarrow> nat \<Rightarrow> bool" where
  "key_bits obj = (case obj of String_value p \<Rightarrow> bit_at p | _ \<Rightarrow> (\<lambda>_. False))"

lemma bit_at_Nil: "bit_at [] = (\<lambda>_. False)"
  by (simp add: bit_at_def fun_eq_iff)

lemma bit_at_padded: "bit_at (p @ replicate n 0) = bit_at p"
  by (auto simp: bit_at_def fun_eq_iff nth_append)

lemma lookup_bits:
  assumes "lookupStringForBitCommand obj maxbit = Some p"
  shows "bit_at p = key_bits obj" "maxbit < 8 * length p"
proof -
  show "bit_at p = key_bits obj"
    using assms bit_at_padded bit_at_padded [of "[]"]
    by (auto simp: lookupStringForBitCommand_def Let_def key_bits_def bit_at_Nil simp del: replicate_Suc
        split: key_value.splits if_splits)
  have "maxbit div 8 < length p"
    using assms by (auto simp: lookupStringForBitCommand_def Let_def split: key_value.splits if_splits)
  then show "maxbit < 8 * length p"
    by (simp add: div_less_iff_less_mult mult.commute)
qed

text \<open>C4. BITFIELD refines its specification on an infinite bitmap.  Let its arguments parse to
  operations on integers of at most 63 bits, and let no signed SET be within one field's width of the
  least 64 bit integer.  Then the command on a missing key or a string is defined; its replies and the
  bits of the key afterwards are those of the specification: a read gives the number the bits denote,
  past the end of the string too; a write changes the bits of the field only and stores the exact
  result, or the wrapped or saturated one, or nothing, as the overflow mode says; and a command that
  only reads leaves the key alone.\<close>

theorem bitfieldCommand_refines:
  assumes "bitfield_parse args BFOVERFLOW_WRAP [] = Some (Inr ops)" "obj \<noteq> Other_value"
    and "\<forall>thisop \<in> set ops. bo_bits thisop \<le> 63 \<and>
      (bo_opcode thisop = BITFIELDOP_SET \<and> bo_sign thisop \<longrightarrow> - (2 ^ 63) + 2 ^ (bo_bits thisop - 1) \<le> bo_i64 thisop)"
  shows "\<exists>rs obj'. bitfieldCommand args obj = Some (Inr rs, obj') \<and> spec_exec ops (key_bits obj) = (rs, key_bits obj') \<and>
    (list_all (\<lambda>thisop. bo_opcode thisop = BITFIELDOP_GET) ops \<longrightarrow> obj' = obj)"
proof -
  have ops: "list_all parsed_op ops"
    using parsed_ops [OF assms(1)] by simp
  have ok: "list_all (op_ok (length p)) ops"
    if "\<And>x. x \<in> set ops \<Longrightarrow> bo_opcode x \<noteq> BITFIELDOP_GET \<Longrightarrow> bo_offset x + bo_bits x \<le> 8 * length p" for p :: bytes
    using ops assms(3) that by (auto simp: op_ok_def list_all_iff parsed_op_def)
  have frame: "spec_exec xs B = (rs, B') \<Longrightarrow> list_all (\<lambda>thisop. bo_opcode thisop = BITFIELDOP_GET) xs \<Longrightarrow> B' = B"
    for xs B rs B'
    by (induction xs arbitrary: B rs) (auto simp: spec_op_def Let_def split: prod.splits)
  show ?thesis
  proof (cases "list_all (\<lambda>thisop. bo_opcode thisop = BITFIELDOP_GET) ops")
    case True
    have run: "\<exists>rs p2. bitfield_exec ops p = Some (rs, p2) \<and> spec_exec ops (bit_at p) = (rs, bit_at p)" for p
      using bitfield_exec_spec [OF ok, of p] frame [of ops "bit_at p"] True by (fastforce simp: list_all_iff)
    show ?thesis
      using run [of "[]"] run True assms(1,2)
      by (cases obj) (fastforce simp: bitfieldCommand_def key_bits_def bit_at_Nil)+
  next
    case False
    obtain p where p: "lookupStringForBitCommand obj (highest_write_offset ops) = Some p"
      using assms(2) by (cases obj) (auto simp: lookupStringForBitCommand_def Let_def)
    have "bo_offset x + bo_bits x \<le> 8 * length p" if "x \<in> set ops" "bo_opcode x \<noteq> BITFIELDOP_GET" for x
      using highest_write_ge [OF that] lookup_bits(2) [OF p] by linarith
    from bitfield_exec_spec [OF ok [OF this]] obtain rs p2 where
      "bitfield_exec ops p = Some (rs, p2)" "spec_exec ops (bit_at p) = (rs, bit_at p2)" by auto
    then show ?thesis
      using False p assms(1) lookup_bits(1) [OF p] by (simp add: bitfieldCommand_def key_bits_def)
  qed
qed

section \<open>The first bit of a value\<close>

lemma bitpos_align_spec:
  assumes "bitpos_align addr skip s pos = (found, s1, pos1)"
  shows "\<exists>n. s1 = drop n s \<and> pos1 = pos + 8 * n \<and> n \<le> length s \<and> (\<forall>i < n. s ! i = skip) \<and>
    (found \<longrightarrow> s1 \<noteq> [] \<and> hd s1 \<noteq> skip)"
  using assms
proof (induction addr skip s pos rule: bitpos_align.induct)
  case (2 addr skip c cs pos)
  show ?case
  proof (cases "addr mod 8 = 0 \<or> c \<noteq> skip")
    case True
    with 2(2) show ?thesis by (intro exI [of _ 0]) (auto split: if_splits)
  next
    case False
    with 2 obtain n where "s1 = drop n cs" "pos1 = pos + 8 + 8 * n" "n \<le> length cs" "\<forall>i < n. cs ! i = skip"
      "found \<longrightarrow> s1 \<noteq> [] \<and> hd s1 \<noteq> skip" by auto
    with False show ?thesis by (intro exI [of _ "Suc n"]) (auto simp: nth_Cons split: nat.split)
  qed
qed simp

lemma le_nat_replicate:
  fixes b :: byte
  assumes "length xs = n"
  shows "le_nat xs = le_nat (replicate n b) \<longleftrightarrow> xs = replicate n b"
  using assms le_bytes_le_nat [of xs] le_bytes_le_nat [of "replicate n b"] by (metis length_replicate)

lemma skip_words: "le_nat (replicate 8 (if b then 0 else 255)) = (if b then 0 else ULLONG_MAX)"
proof -
  have r: "replicate 8 x = [x, x, x, x, x, x, x, x]" for x :: byte
    by (simp add: eval_nat_numeral)
  show ?thesis
    unfolding r by (simp add: ULLONG_MAX_def)
qed

lemma bitpos_words_spec:
  assumes "bitpos_words (if b then 0 else ULLONG_MAX) s pos = (s2, pos2)"
  shows "\<exists>n. s2 = drop n s \<and> pos2 = pos + 8 * n \<and> n \<le> length s \<and> (\<forall>i < n. s ! i = (if b then 0 else 255)) \<and>
    (length s2 < 8 \<or> take 8 s2 \<noteq> replicate 8 (if b then 0 else 255))"
  using assms
proof (induction "if b then 0 else ULLONG_MAX :: nat" s pos rule: bitpos_words.induct)
  case (1 s pos)
  have t: "le_nat (take 8 s) = (if b then 0 else ULLONG_MAX) \<longleftrightarrow> take 8 s = replicate 8 (if b then 0 else 255)"
    if "\<not> length s < 8"
    using le_nat_replicate [of "take 8 s" 8 "if b then 0 else 255"] that unfolding skip_words by simp
  show ?case
  proof (cases "length s < 8 \<or> le_nat (take 8 s) \<noteq> (if b then 0 else ULLONG_MAX)")
    case True
    with 1(2) t show ?thesis by (intro exI [of _ 0]) (auto simp: bitpos_words.simps [of _ s] split: if_splits)
  next
    case False
    then have e: "take 8 s = replicate 8 (if b then 0 else 255)" "8 \<le> length s" using t by auto
    from False 1 obtain n where n: "s2 = drop n (drop 8 s)" "pos2 = pos + 64 + 8 * n" "n \<le> length (drop 8 s)"
      "\<forall>i < n. drop 8 s ! i = (if b then 0 else 255)" "length s2 < 8 \<or> take 8 s2 \<noteq> replicate 8 (if b then 0 else 255)"
      by (auto simp: bitpos_words.simps [of _ s])
    have "s ! i = (if b then 0 else 255)" if "i < n + 8" for i
    proof (cases "i < 8")
      case True
      then show ?thesis using arg_cong [OF e(1), of "\<lambda>xs. xs ! i"] by simp
    next
      case False
      then show ?thesis using n(4) that e(2) by (auto dest: spec [of _ "i - 8"])
    qed
    with n e(2) show ?thesis by (intro exI [of _ "n + 8"]) (auto simp: add.commute)
  qed
qed

lemma bit_at_Cons: "bit_at (c # cs) i = (if i < 8 then bit c (7 - i) else bit_at cs (i - 8))"
proof (cases "i < 8")
  case False
  then obtain j where "i = j + 8" by (metis add.commute le_Suc_ex not_less)
  moreover have "(j + 8) div 8 = Suc (j div 8)" by simp
  ultimately show ?thesis unfolding bit_at_def by simp
qed (simp add: bit_at_def)

lemma shift_in_byte:
  "bit (push_bit 8 w OR ucast (c :: byte) :: 64 word) d = (d < 64 \<and> (if d < 8 then bit c d else bit w (d - 8)))"
  unfolding bit_or_iff bit_push_bit_iff by (auto simp: bit_simps dest: bit_imp_le_length)

lemma shift_in_zero: "bit (push_bit 8 w :: 64 word) d = (d < 64 \<and> 8 \<le> d \<and> bit w (d - 8))"
  unfolding bit_push_bit_iff by auto

lemma bitpos_load_bits:
  assumes "n \<le> 8"
  shows "bit (bitpos_load n cs w) k = (k < 64 \<and> (if k < 8 * n then bit_at cs (8 * n - 1 - k) else bit w (k - 8 * n)))"
  using assms
proof (induction n cs w rule: bitpos_load.induct)
  case (1 cs w)
  then show ?case using bit_imp_le_length [of w k] by auto
next
  case (2 j w)
  have "bit (bitpos_load j [] (push_bit 8 w)) k = (k < 64 \<and> 8 * Suc j \<le> k \<and> bit w (k - 8 * Suc j))"
    using 2 by (auto simp: bit_at_Nil shift_in_zero add.commute)
  then show ?case by (simp add: bit_at_Nil not_less)
next
  case (3 j c cs w)
  have "bit (bitpos_load j cs (push_bit 8 w OR ucast c)) k =
      (k < 64 \<and> (if k < 8 * j then bit_at cs (8 * j - 1 - k)
        else if k < 8 * Suc j then bit c (k - 8 * j) else bit w (k - 8 * Suc j)))"
    using 3 by (auto simp: shift_in_byte add.commute)
  then show ?case by (auto simp: bit_at_Cons)
qed

lemma bitpos_scan_first:
  assumes "k \<le> 64" "m < k" "bit w (k - 1 - m) = b" "\<And>j. j < m \<Longrightarrow> bit w (k - 1 - j) \<noteq> b"
  shows "bitpos_scan k w b pos = Some (int (pos + m))"
  using assms
proof (induction k arbitrary: m pos)
  case (Suc k)
  have step: "((push_bit k 1 AND w) \<noteq> 0) = bit w k"
    using Suc.prems(1) by (simp add: and.commute and_exp_eq_0_iff_not_bit push_bit_of_1)
  show ?case
  proof (cases m)
    case 0
    then show ?thesis using Suc.prems(3) unfolding bitpos_scan.simps step by simp
  next
    case (Suc m')
    have "bit w k \<noteq> b" using Suc.prems(4) [of 0] Suc by simp
    moreover have "bitpos_scan k w b (pos + 1) = Some (int (pos + 1 + m'))"
    proof (rule Suc.IH)
      fix j assume "j < m'"
      then show "bit w (k - 1 - j) \<noteq> b" using Suc.prems(4) [of "Suc j"] Suc by simp
    qed (use Suc.prems Suc in auto)
    ultimately show ?thesis unfolding bitpos_scan.simps step by (simp add: Suc)
  qed
qed simp

definition skipped :: "bool \<Rightarrow> bytes \<Rightarrow> bytes \<Rightarrow> nat \<Rightarrow> bool" where
  "skipped b s s2 pos2 = (\<exists>n. s2 = drop n s \<and> pos2 = 8 * n \<and> n \<le> length s \<and> (\<forall>i < n. s ! i = (if b then 0 else 255)) \<and>
     (length s2 < 8 \<or> take 8 s2 \<noteq> replicate 8 (if b then 0 else 255)))"

lemma bitpos_skipped:
  assumes "bitpos_align addr (if b then 0 else 255) s 0 = (found, s1, pos1)"
    and "(if found then (s1, pos1) else bitpos_words (if b then 0 else ULLONG_MAX) s1 pos1) = (s2, pos2)"
  shows "skipped b s s2 pos2"
proof -
  let ?skip = "if b then 0 else 255 :: byte"
  obtain n where n: "s1 = drop n s" "pos1 = 8 * n" "n \<le> length s" "\<forall>i < n. s ! i = ?skip" "found \<longrightarrow> s1 \<noteq> [] \<and> hd s1 \<noteq> ?skip"
    using bitpos_align_spec [OF assms(1)] by auto
  show ?thesis
  proof (cases found)
    case True
    then have "s2 = s1" "pos2 = pos1" "s1 \<noteq> []" "hd s1 \<noteq> ?skip" using assms(2) n(5) by auto
    moreover from this(3,4) have "take 8 s1 \<noteq> replicate 8 ?skip"
      by (cases s1) (auto simp: eval_nat_numeral)
    ultimately show ?thesis using n unfolding skipped_def by blast
  next
    case False
    then obtain m where m: "s2 = drop m s1" "pos2 = pos1 + 8 * m" "m \<le> length s1" "\<forall>i < m. s1 ! i = ?skip"
      "length s2 < 8 \<or> take 8 s2 \<noteq> replicate 8 ?skip"
      using bitpos_words_spec [of b s1 pos1 s2 pos2] assms(2) by auto
    have "s ! i = ?skip" if "i < n + m" for i
      using n m that by (cases "i < n") (auto dest: spec [of _ "i - n"])
    then show ?thesis
      unfolding skipped_def using n m by (intro exI [of _ "n + m"]) (auto simp: add.commute)
  qed
qed

lemma bit_at_drop: "bit_at (drop n s) j = bit_at s (8 * n + j)"
  by (auto simp: bit_at_def)

lemma bit_at_byte:
  assumes "k < 8"
  shows "bit_at s (8 * i + (7 - k)) = (i < length s \<and> bit (s ! i) k)"
proof -
  define j where "j = 7 - k"
  have "j < 8" by (simp add: j_def)
  then have d: "(8 * i + j) div 8 = i" "(8 * i + j) mod 8 = j" by simp_all
  have "7 - j = k" using assms by (simp add: j_def)
  then show ?thesis
    unfolding bit_at_def j_def [symmetric] d by simp
qed

lemma bit_skip: "k \<le> 7 \<Longrightarrow> bit (if b then 0 else 255 :: byte) k = (\<not> b)"
  using bit_255(1) [of k] by (auto simp: bit_simps)

lemma skipped_bits: "skipped b s s2 pos2 \<Longrightarrow> j < pos2 \<Longrightarrow> bit_at s j = (\<not> b)"
  using bit_skip [of "7 - j mod 8" b] by (auto simp: skipped_def bit_at_def)

lemma skipped_next:
  assumes "skipped b s s2 pos2" "\<not> b \<or> (\<exists>m < 64. bit_at s (pos2 + m))"
  shows "\<exists>m < 64. bit_at s (pos2 + m) = b"
proof (cases b)
  case False
  obtain n where n: "s2 = drop n s" "pos2 = 8 * n" "length s2 < 8 \<or> take 8 s2 \<noteq> replicate 8 255"
    using assms(1) False by (auto simp: skipped_def)
  show ?thesis
  proof (cases "length s2 < 8")
    case True
    then have "\<not> bit_at s2 (8 * length s2)" by (simp add: bit_at_def)
    with True n False show ?thesis by (intro exI [of _ "8 * length s2"]) (auto simp: bit_at_drop)
  next
    case long: False
    then obtain i where i: "i < 8" "s2 ! i \<noteq> 255"
      using n(3) by (auto simp: list_eq_iff_nth_eq)
    then obtain k where k: "k < 8" "\<not> bit (s2 ! i) k"
      using bit_word_eqI [of "s2 ! i" 255] bit_255(1) by (auto simp: bit_simps)
    have "\<not> bit_at s2 (8 * i + (7 - k))"
      using k by (simp only: bit_at_byte simp_thms)
    with i(1) n False show ?thesis
      by (intro exI [of _ "8 * i + (7 - k)"]) (auto simp: bit_at_drop)
  qed
qed (use assms in auto)

text \<open>After the skipping loops the answer depends on one word, loaded from the rest of the string.\<close>

lemma redisBitpos_last_word:
  obtains s2 pos2 w where "redisBitpos addr s b = (if b \<and> w = 0 then Some (- 1) else bitpos_scan 64 w b pos2)"
    "skipped b s s2 pos2" "\<And>m. m < 64 \<Longrightarrow> bit w (63 - m) = bit_at s (pos2 + m)"
proof -
  obtain found s1 pos1 s2 pos2 where a: "bitpos_align addr (if b then 0 else 255) s 0 = (found, s1, pos1)"
    "(if found then (s1, pos1) else bitpos_words (if b then 0 else ULLONG_MAX) s1 pos1) = (s2, pos2)"
    by (metis prod_cases3 surj_pair)
  define w where "w = bitpos_load 8 s2 0"
  note sk = bitpos_skipped [OF a]
  obtain n where n: "s2 = drop n s" "pos2 = 8 * n"
    using sk by (auto simp: skipped_def)
  have run: "redisBitpos addr s b = (if b \<and> w = 0 then Some (- 1) else bitpos_scan 64 w b pos2)"
    unfolding redisBitpos_def a prod.case Let_def w_def [symmetric] by (rule refl)
  have bits: "bit w (63 - m) = bit_at s (pos2 + m)" if "m < 64" for m
  proof -
    have "63 - m < 64" "8 * 8 - 1 - (63 - m) = m" using that by simp_all
    then show ?thesis
      using bitpos_load_bits [of 8 s2 0 "63 - m"] by (simp add: w_def n bit_at_drop)
  qed
  show thesis by (rule that [OF run sk bits])
qed

lemma last_word_zero:
  assumes sk: "skipped True s s2 pos2" and z: "\<And>m. m < 64 \<Longrightarrow> \<not> bit_at s (pos2 + m)"
  shows "\<not> bit_at s i"
proof -
  obtain n where n: "s2 = drop n s" "pos2 = 8 * n" "n \<le> length s" "length s2 < 8 \<or> take 8 s2 \<noteq> replicate 8 0"
    using sk by (auto simp: skipped_def)
  have "length s2 < 8"
  proof (rule ccontr)
    assume "\<not> length s2 < 8"
    then obtain i where i: "i < 8" "s2 ! i \<noteq> 0" "i < length s2"
      using n(4) by (auto simp: list_eq_iff_nth_eq)
    then obtain k where k: "k < 8" "bit (s2 ! i) k"
      using bit_word_eqI [of "s2 ! i" 0] by auto
    have "bit_at s2 (8 * i + (7 - k))"
      using k i(3) by (simp only: bit_at_byte simp_thms)
    moreover have "8 * i + (7 - k) < 64" using i(1) by linarith
    ultimately show False using z [of "8 * i + (7 - k)"] by (simp add: n(1,2) bit_at_drop)
  qed
  then show ?thesis
    using skipped_bits [OF sk, of i] z [of "i - pos2"] n
    by (cases "i < pos2"; cases "i < pos2 + 64") (auto simp: bit_at_def)
qed

lemma last_word_found:
  assumes sk: "skipped b s s2 pos2" and bits: "\<And>m. m < 64 \<Longrightarrow> bit w (63 - m) = bit_at s (pos2 + m)"
    and nz: "\<not> (b \<and> w = 0)"
  shows "\<exists>i \<le> 8 * length s. bitpos_scan 64 w b pos2 = Some (int i) \<and> bit_at s i = b \<and> (\<forall>j < i. bit_at s j \<noteq> b)"
proof -
  have "\<not> b \<or> (\<exists>m < 64. bit_at s (pos2 + m))"
  proof (rule ccontr)
    assume h: "\<not> (\<not> b \<or> (\<exists>m < 64. bit_at s (pos2 + m)))"
    have "w = 0"
    proof (rule bit_word_eqI)
      fix k assume "k < LENGTH(64)"
      then have k: "63 - (63 - k) = k" "63 - k < 64" by simp_all
      have "\<not> bit w k" using h k(2) bits [OF k(2), unfolded k(1)] by blast
      then show "bit w k = bit 0 k" by simp
    qed
    with h nz show False by blast
  qed
  from skipped_next [OF sk this] obtain m0 where "m0 < 64 \<and> bit_at s (pos2 + m0) = b" by blast
  then obtain m where m: "m < 64" "bit_at s (pos2 + m) = b" "\<And>j. j < m \<Longrightarrow> bit_at s (pos2 + j) \<noteq> b"
    using exists_least_iff [of "\<lambda>m. m < 64 \<and> bit_at s (pos2 + m) = b"] by (metis less_trans)
  have "bitpos_scan 64 w b pos2 = Some (int (pos2 + m))"
    by (rule bitpos_scan_first) (use m bits in auto)
  moreover have first: "bit_at s j \<noteq> b" if "j < pos2 + m" for j
    using skipped_bits [OF sk, of j] m(3) [of "j - pos2"] that by (cases "j < pos2") auto
  moreover have "pos2 + m \<le> 8 * length s"
    using first [of "8 * length s"] m(2) by (cases b) (auto simp: bit_at_def not_le [symmetric])
  ultimately show ?thesis using m(2) by blast
qed

text \<open>The position of the first bit with the value, whatever the alignment of the string: looking for a
  one the result is -1 exactly when the string has none, looking for a zero it is the length of the
  string when it has none, the string being zero padded.  The panic is never reached.\<close>

lemma redisBitpos_correct:
  "\<exists>r. redisBitpos addr s b = Some r \<and>
     (r = - 1 \<and> b \<and> (\<forall>i. \<not> bit_at s i) \<or>
      (\<exists>i \<le> 8 * length s. r = int i \<and> bit_at s i = b \<and> (\<forall>j < i. bit_at s j \<noteq> b)))"
proof -
  obtain s2 pos2 w where run: "redisBitpos addr s b = (if b \<and> w = 0 then Some (- 1) else bitpos_scan 64 w b pos2)"
    and sk: "skipped b s s2 pos2" and bits: "\<And>m. m < 64 \<Longrightarrow> bit w (63 - m) = bit_at s (pos2 + m)"
    using redisBitpos_last_word [of addr s b] by metis
  show ?thesis
  proof (cases "b \<and> w = 0")
    case True
    have z: "\<not> bit_at s (pos2 + m)" if "m < 64" for m
      using bits [OF that] True by simp
    have "skipped True s s2 pos2" using sk True by simp
    then have "\<not> bit_at s i" for i
      by (rule last_word_zero) (rule z)
    with True show ?thesis unfolding run by simp
  next
    case False
    from last_word_found [OF sk bits False] show ?thesis
      unfolding run if_not_P [OF False] by blast
  qed
qed

section \<open>Overflow checks and their limits\<close>

text \<open>C36. For every width up to 63 bits, every value the type can hold and every 64 bit increment, the
  overflow checks classify the exact sum: code 1 above the type's maximum, 0 within the type, -1 below
  its minimum (1 there too when wrapping); the value to store instead is the sum reduced to the type's
  range when wrapping, the nearer bound when saturating, and none is given when failing.\<close>

theorem bitfield_overflow_exact:
  assumes "1 \<le> bits" "bits \<le> 63" "lowest sign bits \<le> V" "V \<le> highest sign bits" "- (2 ^ 63) \<le> I" "I < 2 ^ 63"
  shows "(if sign then checkSignedBitfieldOverflow else checkUnsignedBitfieldOverflow)
      (word_of_int V) (word_of_int I) bits ow = Some (check_spec sign bits ow (V + I))"
proof (cases sign)
  case True
  have "- (2 ^ 63) \<le> V" "V < 2 ^ 63"
    using assms(3,4) power_le_63 [OF diff_le_self [THEN le_trans], OF assms(2), of 1] True
    by (simp_all add: lowest_def highest_def)
  then show ?thesis
    using checkSigned_exact [OF assms(1,2) _ _ assms(5,6)] assms(3,4) True by simp
next
  case False
  have "0 \<le> V" "V < 2 ^ bits" "V < 2 ^ 64"
    using assms(3,4) power_le_63 [OF assms(2)] False by (simp_all add: lowest_def highest_def)
  then show ?thesis
    using checkUnsigned_exact [OF assms(1,2) _ _ assms(5,6)] False by simp
qed

theorem bitfield_overflow_exact_witness:
  "lowest True 8 \<le> (100 :: int) \<and>
   checkSignedBitfieldOverflow (word_of_int 100) (word_of_int 100) 8 BFOVERFLOW_WRAP = Some (1, Some (word_of_int (- 56)))"
  using bitfield_overflow_exact [of 8 True 100 100 BFOVERFLOW_WRAP]
  by (simp add: lowest_def highest_def check_spec_def wrapped_def)



theorem bitfieldCommand_refines_witness:
  "\<exists>rs obj'. bitfieldCommand [ascii ''SET'', ascii ''u8'', ascii ''#1'', ascii ''300'', ascii ''GET'', ascii ''i4'', ascii ''10'']
     No_key = Some (Inr rs, obj')"
proof -
  let ?args = "[ascii ''SET'', ascii ''u8'', ascii ''#1'', ascii ''300'', ascii ''GET'', ascii ''i4'', ascii ''10'']"
  let ?ops = "[\<lparr>bo_offset = 8, bo_i64 = 300, bo_opcode = BITFIELDOP_SET, bo_owtype = BFOVERFLOW_WRAP, bo_bits = 8, bo_sign = False\<rparr>,
      \<lparr>bo_offset = 10, bo_i64 = 0, bo_opcode = BITFIELDOP_GET, bo_owtype = BFOVERFLOW_WRAP, bo_bits = 4, bo_sign = True\<rparr>]"
  have n: "string2ll (ascii ''300'') = Some 300" "string2ll (ascii ''8'') = Some 8" "string2ll (ascii ''1'') = Some 1"
    "string2ll (ascii ''4'') = Some 4" "string2ll (ascii ''10'') = Some 10"
    using string2ll_complete [of 300] string2ll_complete [of 8] string2ll_complete [of 1] string2ll_complete [of 4]
      string2ll_complete [of 10]
    by (simp_all add: in_sint_def show_int_def dec.simps digit_char_def ascii_def)
  have "bitfield_parse ?args BFOVERFLOW_WRAP [] = Some (Inr ?ops)"
    using n by (simp add: bitfield_parse.simps bitfield_subcommand_def strcaseeq_def ascii_def cstr_def lower_byte_def
        getBitfieldTypeFromArgument_def getBitOffsetFromArgument_def pat_at_def in_sint_def Let_def)
  from bitfieldCommand_refines [OF this, of No_key] show ?thesis
    by auto
qed

section \<open>SETBIT and GETBIT\<close>

lemma and_push_bit_byte: "bi < 8 \<Longrightarrow> (x AND push_bit bi 1 \<noteq> 0) = bit (x :: byte) bi"
  by (simp add: and_exp_eq_0_iff_not_bit push_bit_of_1)

lemma getbit_reads:
  assumes "getBitOffsetFromArgument off_arg False 0 = Some (Inr off)" "obj \<noteq> Other_value"
  shows "getbitCommand off_arg obj = Some (Inr (key_bits obj off))"
  using assms and_push_bit_byte [of "7 - off mod 8"]
  by (auto simp: getbitCommand_def key_bits_def bit_at_def Let_def split: key_value.splits)

text \<open>C39. SETBIT replies the old bit and changes that bit only, creating or growing the string with
  zeros when it must, and GETBIT then reads the new bit.\<close>

theorem setbit_getbit:
  assumes "setbitCommand off_arg bit_arg obj = Some (Inr old, obj')" "getBitOffsetFromArgument off_arg False 0 = Some (Inr off)"
  shows "old = key_bits obj off \<and> key_bits obj' = (key_bits obj)(off := (string2ll bit_arg = Some 1)) \<and>
    getbitCommand off_arg obj' = Some (Inr (string2ll bit_arg = Some 1))"
proof -
  obtain on p where on: "string2ll bit_arg = Some on" and p: "lookupStringForBitCommand obj off = Some p"
    using assms by (auto simp: setbitCommand_def split: option.splits if_splits)
  have o: "old = (p ! (off div 8) AND push_bit (7 - off mod 8) 1 \<noteq> 0)" "obj' = String_value (set_bit_step p off (on = 1))"
    using assms on p unfolding set_bit_step_eq
    by (simp_all only: setbitCommand_def option.case sum.case Let_def split: if_splits) simp_all
  note l = lookup_bits [OF p]
  have old: "old = key_bits obj off"
    using l(2) and_push_bit_byte [of "7 - off mod 8" "p ! (off div 8)"] unfolding o(1) l(1) [symmetric] bit_at_def
    by (auto simp: less_mult_imp_div_less mult.commute)
  have new: "key_bits obj' = (key_bits obj)(off := (string2ll bit_arg = Some 1))"
    using bit_at_set_bit_step [OF l(2)] l(1) on by (auto simp: o(2) key_bits_def fun_eq_iff)
  show ?thesis
    using old new getbit_reads [OF assms(2), of obj'] o(2) by simp
qed

theorem setbit_getbit_witness:
  "key_bits (String_value [0, 128]) 8 \<and>
   getbitCommand (ascii ''8'') (String_value [0, 128]) = Some (Inr True)"
proof -
  have n: "string2ll (ascii ''8'') = Some 8" "string2ll (ascii ''1'') = Some 1"
    using string2ll_complete [of 8] string2ll_complete [of 1]
    by (simp_all add: in_sint_def show_int_def dec.simps digit_char_def ascii_def)
  have off: "getBitOffsetFromArgument (ascii ''8'') False 0 = Some (Inr 8)"
    using n(1) by (simp add: getBitOffsetFromArgument_def in_sint_def)
  have "setbitCommand (ascii ''8'') (ascii ''1'') (String_value [0]) = Some (Inr False, String_value [0, 128])"
    using off n(2) by (simp add: setbitCommand_def lookupStringForBitCommand_def Let_def)
  from setbit_getbit [OF this off] show ?thesis
    using n(2) by simp
qed

end
