(* ===== verification/Bitmaps.thy ===== *)
theory Bitmaps
  imports Bitops_Correct
begin

text \<open>The bitmap commands of \<open>bitops.c\<close>: BITOP, BITCOUNT and BITPOS, with the population count on
  28 bytes at a time and the word-wise fast path of BITOP.  An address matters only by its alignment;
  memory is little endian.  The key space that BITOP reads and writes is a function from keys to
  values.  The theorems state the commands on the bits of the strings.\<close>

unbundle bit_operations_syntax

section \<open>Counting the ones\<close>

definition bitsinbyte :: "nat list" where
  "bitsinbyte =
    [0,1,1,2,1,2,2,3,1,2,2,3,2,3,3,4,1,2,2,3,2,3,3,4,2,3,3,4,3,4,4,5,
     1,2,2,3,2,3,3,4,2,3,3,4,3,4,4,5,2,3,3,4,3,4,4,5,3,4,4,5,4,5,5,6,
     1,2,2,3,2,3,3,4,2,3,3,4,3,4,4,5,2,3,3,4,3,4,4,5,3,4,4,5,4,5,5,6,
     2,3,3,4,3,4,4,5,3,4,4,5,4,5,5,6,3,4,4,5,4,5,5,6,4,5,5,6,5,6,6,7,
     1,2,2,3,2,3,3,4,2,3,3,4,3,4,4,5,2,3,3,4,3,4,4,5,3,4,4,5,4,5,5,6,
     2,3,3,4,3,4,4,5,3,4,4,5,4,5,5,6,3,4,4,5,4,5,5,6,4,5,5,6,5,6,6,7,
     2,3,3,4,3,4,4,5,3,4,4,5,4,5,5,6,3,4,4,5,4,5,5,6,4,5,5,6,5,6,6,7,
     3,4,4,5,4,5,5,6,4,5,5,6,5,6,6,7,4,5,5,6,5,6,6,7,5,6,6,7,6,7,7,8]"

text \<open>\<open>aux_fold\<close> are the two assignments to one of the seven words, \<open>aux_sum\<close> is its summand of the
  final product.\<close>

definition aux_fold :: "32 word \<Rightarrow> 32 word" where
  "aux_fold aux =
     (let aux = aux - (drop_bit 1 aux AND 0x55555555)
      in (aux AND 0x33333333) + (drop_bit 2 aux AND 0x33333333))"

definition aux_sum :: "32 word \<Rightarrow> 32 word" where
  "aux_sum aux = (aux + drop_bit 4 aux) AND 0x0F0F0F0F"

definition load32 :: "bytes \<Rightarrow> nat \<Rightarrow> 32 word" where
  "load32 m p = word_of_nat (le_nat (buf_read p 4 m))"

definition popcount_28 :: "bytes \<Rightarrow> 32 word" where
  "popcount_28 p =
     (let aux1 = load32 p 0; aux2 = load32 p 4; aux3 = load32 p 8; aux4 = load32 p 12;
          aux5 = load32 p 16; aux6 = load32 p 20; aux7 = load32 p 24;
          aux1 = aux_fold aux1; aux2 = aux_fold aux2; aux3 = aux_fold aux3; aux4 = aux_fold aux4;
          aux5 = aux_fold aux5; aux6 = aux_fold aux6; aux7 = aux_fold aux7
      in drop_bit 24 ((aux_sum aux1 + aux_sum aux2 + aux_sum aux3 + aux_sum aux4 +
           aux_sum aux5 + aux_sum aux6 + aux_sum aux7) * 0x01010101))"

fun popcount_align :: "nat \<Rightarrow> bytes \<Rightarrow> 64 word \<Rightarrow> bytes \<times> 64 word" where
  "popcount_align addr [] bits = ([], bits)"
| "popcount_align addr (p # ps) bits =
     (if addr mod 4 = 0 then (p # ps, bits)
      else popcount_align (addr + 1) ps (bits + word_of_nat (bitsinbyte ! unat p)))"

function popcount_blocks :: "bytes \<Rightarrow> 64 word \<Rightarrow> bytes \<times> 64 word" where
  "popcount_blocks p bits =
     (if length p \<ge> 28 then popcount_blocks (drop 28 p) (bits + ucast (popcount_28 (take 28 p)))
      else (p, bits))"
  by auto
termination
  by (relation "measure (\<lambda>(p, _). length p)") auto

declare popcount_blocks.simps [simp del]

fun popcount_bytes :: "bytes \<Rightarrow> 64 word \<Rightarrow> 64 word" where
  "popcount_bytes [] bits = bits"
| "popcount_bytes (p # ps) bits = popcount_bytes ps (bits + word_of_nat (bitsinbyte ! unat p))"

definition redisPopcount :: "nat \<Rightarrow> bytes \<Rightarrow> 64 word" where
  "redisPopcount addr s =
     (case popcount_align addr s 0 of (p, bits) \<Rightarrow>
      case popcount_blocks p bits of (p, bits) \<Rightarrow> popcount_bytes p bits)"

section \<open>BITOP\<close>

datatype bitop = BITOP_AND | BITOP_OR | BITOP_XOR | BITOP_NOT

definition bitop_opname :: "bytes \<Rightarrow> bitop option" where
  "bitop_opname opname =
     (if (pat_at opname 0 = 97 \<or> pat_at opname 0 = 65) \<and> strcaseeq opname ''and'' then Some BITOP_AND
      else if (pat_at opname 0 = 111 \<or> pat_at opname 0 = 79) \<and> strcaseeq opname ''or'' then Some BITOP_OR
      else if (pat_at opname 0 = 120 \<or> pat_at opname 0 = 88) \<and> strcaseeq opname ''xor'' then Some BITOP_XOR
      else if (pat_at opname 0 = 110 \<or> pat_at opname 0 = 78) \<and> strcaseeq opname ''not'' then Some BITOP_NOT
      else None)"

type_synonym bit_db = "bytes \<Rightarrow> key_value"

text \<open>The loop over the source keys: the strings, the longest and the shortest length.  \<open>None\<close> is the
  wrong type.\<close>

fun bitop_lookup :: "bit_db \<Rightarrow> bytes list \<Rightarrow> nat \<Rightarrow> bytes list \<Rightarrow> nat \<Rightarrow> nat \<Rightarrow> (bytes list \<times> nat \<times> nat) option" where
  "bitop_lookup db [] j src maxlen minlen = Some (src, maxlen, minlen)"
| "bitop_lookup db (k # ks) j src maxlen minlen =
     (case db k of
        No_key \<Rightarrow> bitop_lookup db ks (j + 1) (src @ [[]]) maxlen 0
      | Other_value \<Rightarrow> None
      | String_value p \<Rightarrow>
          bitop_lookup db ks (j + 1) (src @ [p]) (if length p > maxlen then length p else maxlen)
            (if j = 0 \<or> length p < minlen then length p else minlen))"

definition bitop2 :: "bitop \<Rightarrow> 'a::len word \<Rightarrow> 'a word \<Rightarrow> 'a word" where
  "bitop2 op x y = (case op of BITOP_AND \<Rightarrow> x AND y | BITOP_OR \<Rightarrow> x OR y | BITOP_XOR \<Rightarrow> x XOR y | BITOP_NOT \<Rightarrow> x)"

definition load64 :: "bytes \<Rightarrow> nat \<Rightarrow> 64 word" where
  "load64 m p = word_of_nat (le_nat (buf_read p 8 m))"

definition store64 :: "nat \<Rightarrow> 64 word \<Rightarrow> bytes \<Rightarrow> bytes" where
  "store64 p w m = buf_write p (le_bytes 8 (unat w)) m"

text \<open>Four words of one source, or of the result alone for NOT.\<close>

definition bitop_words :: "bitop \<Rightarrow> nat \<Rightarrow> bytes \<Rightarrow> bytes \<Rightarrow> bytes" where
  "bitop_words op j lp lres =
     fold (\<lambda>k lres. store64 (j + 8 * k) (bitop2 op (load64 lres (j + 8 * k)) (load64 lp (j + 8 * k))) lres) [0..<4] lres"

definition bitop_not_words :: "nat \<Rightarrow> bytes \<Rightarrow> bytes" where
  "bitop_not_words j lres =
     fold (\<lambda>k lres. store64 (j + 8 * k) (NOT (load64 lres (j + 8 * k))) lres) [0..<4] lres"

function bitop_fast :: "bitop \<Rightarrow> bytes list \<Rightarrow> nat \<Rightarrow> nat \<Rightarrow> bytes \<Rightarrow> nat \<times> bytes" where
  "bitop_fast op src minlen j lres =
     (if minlen \<ge> 32 then
        bitop_fast op src (minlen - 32) (j + 32)
          (if op = BITOP_NOT then bitop_not_words j lres else fold (bitop_words op j) (drop 1 src) lres)
      else (j, lres))"
  by auto
termination
  by (relation "measure (\<lambda>(_, _, minlen, _). minlen)") auto

declare bitop_fast.simps [simp del]

definition bitop_byte :: "bitop \<Rightarrow> bytes list \<Rightarrow> nat \<Rightarrow> byte" where
  "bitop_byte op src j =
     (let output = pat_at (hd src) j;
          output = (if op = BITOP_NOT then NOT output else output)
      in fold (\<lambda>sp output. bitop2 op output (pat_at sp j)) (drop 1 src) output)"

definition bitop_result :: "bitop \<Rightarrow> bytes list \<Rightarrow> nat \<Rightarrow> nat \<Rightarrow> bytes" where
  "bitop_result op src maxlen minlen =
     (let res = replicate maxlen 0;
          (j, res) = (if minlen \<ge> 32 \<and> length src \<le> 16
                      then bitop_fast op src minlen 0 (buf_write 0 (take minlen (hd src)) res) else (0, res))
      in fold (\<lambda>j res. res[j := bitop_byte op src j]) [j..<maxlen] res)"

definition bitopCommand :: "bytes \<Rightarrow> bytes \<Rightarrow> bytes list \<Rightarrow> bit_db \<Rightarrow> (bitfield_error + nat) \<times> bit_db" where
  "bitopCommand opname targetkey keys db =
     (case bitop_opname opname of
        None \<Rightarrow> (Inl Err_syntax, db)
      | Some op \<Rightarrow>
          if op = BITOP_NOT \<and> length keys \<noteq> 1 then (Inl Err_single_key, db)
          else
            (case bitop_lookup db keys 0 [] 0 0 of
               None \<Rightarrow> (Inl Err_wrongtype, db)
             | Some (src, maxlen, minlen) \<Rightarrow>
                 (Inr maxlen, if maxlen \<noteq> 0 then db(targetkey := String_value (bitop_result op src maxlen minlen))
                              else db(targetkey := No_key))))"

section \<open>BITCOUNT and BITPOS\<close>

text \<open>Both commands turn negative indexes into offsets from the end and clip them.\<close>

definition clip_range :: "int \<Rightarrow> int \<Rightarrow> int \<Rightarrow> int \<times> int" where
  "clip_range strlen start end' =
     (let start = (if start < 0 then strlen + start else start);
          end' = (if end' < 0 then strlen + end' else end');
          start = (if start < 0 then 0 else start);
          end' = (if end' < 0 then 0 else end');
          end' = (if end' \<ge> strlen then strlen - 1 else end')
      in (start, end'))"

definition bitcount_range :: "nat \<Rightarrow> bytes \<Rightarrow> int \<Rightarrow> int \<Rightarrow> nat" where
  "bitcount_range addr p start end' =
     (if start > end' then 0
      else unat (redisPopcount (addr + nat start) (buf_read (nat start) (nat (end' - start + 1)) p)))"

definition bitcountCommand :: "nat \<Rightarrow> bytes list \<Rightarrow> key_value \<Rightarrow> bitfield_error + nat" where
  "bitcountCommand addr args obj =
     (case obj of
        No_key \<Rightarrow> Inr 0
      | Other_value \<Rightarrow> Inl Err_wrongtype
      | String_value p \<Rightarrow>
          (case args of
             [] \<Rightarrow> Inr (bitcount_range addr p 0 (int (length p) - 1))
           | [start_arg, end_arg] \<Rightarrow>
               (case string2ll start_arg of
                  None \<Rightarrow> Inl Err_integer
                | Some start \<Rightarrow>
                    (case string2ll end_arg of
                       None \<Rightarrow> Inl Err_integer
                     | Some end' \<Rightarrow>
                         if start < 0 \<and> end' < 0 \<and> start > end' then Inr 0
                         else (case clip_range (int (length p)) start end' of (start, end') \<Rightarrow>
                           Inr (bitcount_range addr p start end'))))
           | _ \<Rightarrow> Inl Err_syntax))"

text \<open>The last part of \<open>bitposCommand\<close>, with the range parsed; \<open>None\<close> is the panic of \<open>redisBitpos\<close>.\<close>

definition bitpos_range :: "nat \<Rightarrow> bytes \<Rightarrow> bool \<Rightarrow> int \<Rightarrow> int \<Rightarrow> bool \<Rightarrow> int option" where
  "bitpos_range addr p b start end' end_given =
     (if start > end' then Some (- 1)
      else
        (let bytes = nat (end' - start + 1) in
         case redisBitpos (addr + nat start) (buf_read (nat start) bytes p) b of
           None \<Rightarrow> None
         | Some pos \<Rightarrow>
             if end_given \<and> \<not> b \<and> pos = int (bytes * 8) then Some (- 1)
             else Some (if pos \<noteq> - 1 then pos + start * 8 else pos)))"

definition bitpos_args :: "nat \<Rightarrow> bytes list \<Rightarrow> bitfield_error + int \<times> int \<times> bool" where
  "bitpos_args strlen args =
     (case args of
        [] \<Rightarrow> Inr (0, int strlen - 1, False)
      | start_arg # rest \<Rightarrow>
          if length rest > 1 then Inl Err_syntax
          else
            (case string2ll start_arg of
               None \<Rightarrow> Inl Err_integer
             | Some start \<Rightarrow>
                 (case (if rest = [] then Some (int strlen - 1) else string2ll (hd rest)) of
                    None \<Rightarrow> Inl Err_integer
                  | Some end' \<Rightarrow>
                      (case clip_range (int strlen) start end' of (start, end') \<Rightarrow> Inr (start, end', rest \<noteq> [])))))"

definition bitposCommand :: "nat \<Rightarrow> bytes \<Rightarrow> bytes list \<Rightarrow> key_value \<Rightarrow> (bitfield_error + int) option" where
  "bitposCommand addr bit_arg args obj =
     (case string2ll bit_arg of
        None \<Rightarrow> Some (Inl Err_integer)
      | Some bi \<Rightarrow>
          if bi \<noteq> 0 \<and> bi \<noteq> 1 then Some (Inl Err_bit_argument)
          else
            (case obj of
               No_key \<Rightarrow> Some (Inr (if bi = 1 then - 1 else 0))
             | Other_value \<Rightarrow> Some (Inl Err_wrongtype)
             | String_value p \<Rightarrow>
                 (case bitpos_args (length p) args of
                    Inl e \<Rightarrow> Some (Inl e)
                  | Inr (start, end', end_given) \<Rightarrow>
                      map_option Inr (bitpos_range addr p (bi = 1) start end' end_given))))"

section \<open>Digits\<close>

text \<open>\<open>digits k n f\<close> is the number with the \<open>n\<close> digits \<open>f 0, f 1, \<dots>\<close> of \<open>k\<close> bits each, the least one first.\<close>

primrec digits :: "nat \<Rightarrow> nat \<Rightarrow> (nat \<Rightarrow> nat) \<Rightarrow> nat" where
  "digits k 0 f = 0"
| "digits k (Suc n) f = f 0 + 2 ^ k * digits k n (\<lambda>i. f (Suc i))"

lemma bit_add_high:
  assumes "a < 2 ^ k"
  shows "bit (a + 2 ^ k * b :: nat) j = (if j < k then bit a j else bit b (j - k))"
proof (cases "j < k")
  case True
  have "bit (a + 2 ^ k * b) j = bit (take_bit k (a + 2 ^ k * b)) j"
    using True by (simp add: bit_take_bit_iff)
  also have "take_bit k (a + 2 ^ k * b) = a"
    using assms by (simp add: take_bit_eq_mod)
  finally show ?thesis using True by simp
next
  case False
  have "bit (a + 2 ^ k * b) j = bit (drop_bit k (a + 2 ^ k * b)) (j - k)"
    using False by (simp add: bit_drop_bit_eq)
  also have "drop_bit k (a + 2 ^ k * b) = b"
    using assms by (simp add: drop_bit_eq_div)
  finally show ?thesis using False by simp
qed

lemma digits_cong: "(\<And>i. i < n \<Longrightarrow> f i = g i) \<Longrightarrow> digits k n f = digits k n g"
proof (induction n arbitrary: f g)
  case (Suc n)
  have "digits k n (\<lambda>i. f (Suc i)) = digits k n (\<lambda>i. g (Suc i))"
    by (rule Suc.IH) (simp add: Suc.prems)
  then show ?case by (simp add: Suc.prems)
qed simp

lemma digits_add: "digits k n f + digits k n g = digits k n (\<lambda>i. f i + g i)"
proof (induction n arbitrary: f g)
  case (Suc n)
  show ?case using Suc [of "\<lambda>i. f (Suc i)" "\<lambda>i. g (Suc i)"] by (simp add: algebra_simps flip: distrib_left)
qed simp

lemma digits_less: "(\<And>i. f i < 2 ^ k) \<Longrightarrow> digits k n f < 2 ^ (k * n)"
proof (induction n arbitrary: f)
  case (Suc n)
  have "digits k n (\<lambda>i. f (Suc i)) + 1 \<le> 2 ^ (k * n)" using Suc.IH [of "\<lambda>i. f (Suc i)"] Suc.prems by simp
  then have "2 ^ k * (digits k n (\<lambda>i. f (Suc i)) + 1) \<le> 2 ^ k * 2 ^ (k * n)" by (rule mult_le_mono2)
  with Suc.prems [of 0] show ?case by (simp add: algebra_simps power_add)
qed simp

lemma exp_double: "(2 :: nat) ^ (2 * k) = 2 ^ k * 2 ^ k"
  by (simp add: mult_2 power_add)

lemma digits_pairs: "digits k (2 * n) f = digits (2 * k) n (\<lambda>i. f (2 * i) + 2 ^ k * f (Suc (2 * i)))"
proof (induction n arbitrary: f)
  case (Suc n)
  show ?case using Suc [of "\<lambda>i. f (Suc (Suc i))"] by (simp add: exp_double distrib_left mult.assoc)
qed simp

lemma digits_last: "f n = 0 \<Longrightarrow> digits k (Suc n) f = digits k n f"
  by (induction n arbitrary: f) simp_all

lemma digits_and:
  assumes "\<And>i. f i < 2 ^ k" "m < 2 ^ k"
  shows "digits k n f AND digits k n (\<lambda>_. m) = digits k n (\<lambda>i. f i AND m)"
  using assms(1)
proof (induction n arbitrary: f)
  case (Suc n)
  have m: "f 0 AND m < 2 ^ k" using Suc.prems [of 0] assms(2) by (metis take_bit_and take_bit_nat_eq_self_iff)
  have "f 0 + 2 ^ k * a AND m + 2 ^ k * b = (f 0 AND m) + 2 ^ k * (a AND b)" for a b
    by (rule bit_eqI) (simp add: bit_and_iff bit_add_high [OF Suc.prems] bit_add_high [OF assms(2)] bit_add_high [OF m])
  then show ?case using Suc.IH [of "\<lambda>i. f (Suc i)"] Suc.prems by simp
qed simp

lemma digits_even:
  assumes "\<And>i. g i < 2 ^ k"
  shows "digits k (2 * n) g AND digits (2 * k) n (\<lambda>_. mask k) = digits (2 * k) n (\<lambda>i. g (2 * i))"
proof -
  have b: "g i + 2 ^ k * g j < 2 ^ (2 * k)" for i j
  proof -
    have "2 ^ k * (g j + 1) \<le> 2 ^ k * 2 ^ k" using assms [of j] by (intro mult_le_mono2) simp
    with assms [of i] show ?thesis by (simp add: exp_double)
  qed
  have m: "mask k < (2 :: nat) ^ (2 * k)"
    by (rule less_le_trans [of _ "2 ^ k"]) (simp_all add: mask_eq_exp_minus_1)
  have e: "g i + 2 ^ k * g j AND mask k = g i" for i j
    using assms [of i] by (simp add: take_bit_eq_mask [symmetric] take_bit_eq_mod)
  show ?thesis
    unfolding digits_pairs digits_and [OF b m] e ..
qed

lemma digits_shift: "f 0 < 2 ^ k \<Longrightarrow> f n = 0 \<Longrightarrow> drop_bit k (digits k n f) = digits k n (\<lambda>i. f (Suc i))"
  by (cases n) (simp_all add: drop_bit_eq_div digits_last [of "\<lambda>i. f (Suc i)"] del: digits.simps(2) add: digits.simps(2) [of k _ f])

lemma digits_odd:
  assumes "\<And>i. g i < 2 ^ k" "g (2 * n) = 0"
  shows "drop_bit k (digits k (2 * n) g) AND digits (2 * k) n (\<lambda>_. mask k) = digits (2 * k) n (\<lambda>i. g (Suc (2 * i)))"
  unfolding digits_shift [of g, OF assms(1) assms(2)] using digits_even [of "\<lambda>i. g (Suc i)" k n] assms(1) by simp

section \<open>The ones of a word\<close>

definition bit_of :: "'a::len word \<Rightarrow> nat \<Rightarrow> nat" where
  "bit_of w i = of_bool (bit w i)"

lemma bit_of_le: "bit_of w i \<le> 1"
  by (simp add: bit_of_def)

lemma bit_of_beyond: "LENGTH('a) \<le> i \<Longrightarrow> bit_of (w :: 'a::len word) i = 0"
  by (auto simp: bit_of_def dest: bit_imp_le_length)

lemma digits_horner: "digits 1 n (\<lambda>i. of_bool (b i)) = horner_sum of_bool 2 (map b [0..<n])"
proof (induction n arbitrary: b)
  case (Suc n)
  have "map b [0..<Suc n] = b 0 # map (\<lambda>i. b (Suc i)) [0..<n]"
    by (simp add: upt_conv_Cons map_Suc_upt [symmetric] del: upt_Suc)
  then show ?case using Suc [of "\<lambda>i. b (Suc i)"] by (simp del: upt_Suc)
qed simp

lemma unat_digits: "unat (w :: 'a::len word) = digits 1 LENGTH('a) (bit_of w)"
proof -
  have "digits 1 LENGTH('a) (bit_of w) = horner_sum of_bool 2 (map (bit (unat w)) [0..<LENGTH('a)])"
    unfolding bit_of_def digits_horner by (rule arg_cong [of _ _ "horner_sum of_bool 2"]) (simp add: bit_unsigned_iff)
  also have "\<dots> = unat w"
    by (simp add: horner_sum_bit_eq_take_bit take_bit_nat_eq_self)
  finally show ?thesis by simp
qed

definition ones :: "'a::len word \<Rightarrow> nat" where
  "ones w = (\<Sum>i<LENGTH('a). bit_of w i)"

lemma digits_numeral:
  "digits k (numeral n) f = f 0 + 2 ^ k * digits k (pred_numeral n) (\<lambda>i. f (Suc i))"
  by (simp add: numeral_eq_Suc)

lemma masks: "digits 2 16 (\<lambda>_. mask 1) = 0x55555555" "digits 4 8 (\<lambda>_. mask 2) = 0x33333333"
  "digits 8 4 (\<lambda>_. mask 4) = 0x0F0F0F0F"
  by (simp_all add: digits_numeral mask_eq_exp_minus_1)

lemma aux_fold_digits:
  "unat (aux_fold x) = digits 4 8 (\<lambda>i. bit_of x (4 * i) + bit_of x (4 * i + 1) + bit_of x (4 * i + 2) + bit_of x (4 * i + 3))"
proof -
  define f where "f = bit_of x"
  define s where "s = (\<lambda>i. f (2 * i) + f (Suc (2 * i)))"
  define y where "y = x - (drop_bit 1 x AND 0x55555555)"
  have f: "f i < 2 ^ 1" for i using bit_of_le [of x i] by (simp add: f_def)
  have f32: "f (2 * 16) = 0" by (simp add: f_def bit_of_beyond)
  have s: "s i < 2 ^ 2" for i using f [of "2 * i"] f [of "Suc (2 * i)"] by (simp add: s_def)
  have s16: "s (2 * 8) = 0" by (simp add: s_def f_def bit_of_beyond)
  have x: "unat x = digits 1 (2 * 16) f"
    unfolding unat_digits by (simp add: f_def)
  have odd: "unat (drop_bit 1 x AND 0x55555555) = digits (2 * 1) 16 (\<lambda>i. f (Suc (2 * i)))"
    unfolding unsigned_and_eq unat_drop_bit_eq x digits_odd [of f 1 16, OF f f32, symmetric] by (simp only: masks mult_1_right unat_numeral) simp
  have "unat x = digits 2 16 s + digits 2 16 (\<lambda>i. f (Suc (2 * i)))"
  proof -
    have "f (2 * i) + 2 ^ 1 * f (Suc (2 * i)) = s i + f (Suc (2 * i))" for i by (simp add: s_def)
    then show ?thesis unfolding x digits_pairs digits_add by (simp only: mult_1_right)
  qed
  then have y: "unat y = digits 2 (2 * 8) s"
    unfolding y_def using odd by (simp add: unat_sub word_le_nat_alt)
  have e: "unat (y AND 0x33333333) = digits (2 * 2) 8 (\<lambda>i. s (2 * i))"
    using digits_even [of s 2 8, OF s] by (simp add: masks unsigned_and_eq y)
  have o: "unat (drop_bit 2 y AND 0x33333333) = digits (2 * 2) 8 (\<lambda>i. s (Suc (2 * i)))"
    using digits_odd [of s 2 8, OF s s16] by (simp add: masks unsigned_and_eq unat_drop_bit_eq y)
  have t: "digits 4 8 (\<lambda>i. s (2 * i)) + digits 4 8 (\<lambda>i. s (Suc (2 * i))) = digits 4 8 (\<lambda>i. s (2 * i) + s (Suc (2 * i)))"
    by (rule digits_add)
  have lt: "s (2 * i) + s (Suc (2 * i)) < 2 ^ 4" for i using s [of "2 * i"] s [of "Suc (2 * i)"] by simp
  have "unat (aux_fold x) = digits 4 8 (\<lambda>i. s (2 * i) + s (Suc (2 * i)))"
    unfolding aux_fold_def Let_def y_def [symmetric]
    using e o t digits_less [of "\<lambda>i. s (2 * i) + s (Suc (2 * i))" 4 8, OF lt] by (simp add: unat_add_lem [THEN iffD1])
  moreover have "s (2 * i) + s (Suc (2 * i)) = f (4 * i) + f (4 * i + 1) + f (4 * i + 2) + f (4 * i + 3)" for i
  proof -
    have a: "2 * (2 * i) = 4 * i" "2 * Suc (2 * i) = 4 * i + 2" "4 * i + 1 = Suc (4 * i)" "4 * i + 3 = Suc (4 * i + 2)"
      by simp_all
    show ?thesis unfolding s_def a by (simp only: add.assoc)
  qed
  ultimately show ?thesis by (simp only: f_def)
qed

text \<open>The summand of a word holds the number of ones of each of its bytes.\<close>

definition byte_ones :: "32 word \<Rightarrow> nat \<Rightarrow> nat" where
  "byte_ones x i = (\<Sum>j<8. bit_of x (8 * i + j))"

lemma byte_ones_le: "byte_ones x i \<le> 8"
  unfolding byte_ones_def using sum_bounded_above [of "{..<8}" "\<lambda>j. bit_of x (8 * i + j)" 1] bit_of_le [of x] by simp

lemma aux_sum_digits: "unat (aux_sum (aux_fold x)) = digits 8 4 (byte_ones x)"
proof -
  define t where "t = (\<lambda>i. bit_of x (4 * i) + bit_of x (4 * i + 1) + bit_of x (4 * i + 2) + bit_of x (4 * i + 3))"
  define z where "z = aux_fold x"
  have t: "t i \<le> 4" for i
    using bit_of_le [of x "4 * i"] bit_of_le [of x "4 * i + 1"] bit_of_le [of x "4 * i + 2"] bit_of_le [of x "4 * i + 3"]
    by (simp add: t_def)
  have t8: "t 8 = 0" by (simp add: t_def bit_of_beyond)
  have z: "unat z = digits 4 8 t"
    unfolding z_def t_def by (rule aux_fold_digits)
  have "unat (drop_bit 4 z) = digits 4 8 (\<lambda>i. t (Suc i))"
    unfolding unat_drop_bit_eq z using t [of 0] t8 by (intro digits_shift) simp_all
  moreover have lt: "t i + t (Suc i) < 2 ^ 4" for i using t [of i] t [of "Suc i"] by simp
  ultimately have s: "unat (z + drop_bit 4 z) = digits 4 (2 * 4) (\<lambda>i. t i + t (Suc i))"
    using digits_less [of "\<lambda>i. t i + t (Suc i)" 4 8, OF lt] by (simp add: z digits_add unat_add_lem [THEN iffD1])
  have "unat (aux_sum z) = digits (2 * 4) 4 (\<lambda>i. t (2 * i) + t (Suc (2 * i)))"
    unfolding aux_sum_def unsigned_and_eq s digits_even [of "\<lambda>i. t i + t (Suc i)" 4 4, OF lt, symmetric]
    by (simp add: masks)
  moreover have "t (2 * i) + t (Suc (2 * i)) = byte_ones x i" for i
  proof -
    have a: "4 * (2 * i) = 8 * i" "4 * Suc (2 * i) = 8 * i + 4" by simp_all
    show ?thesis unfolding t_def byte_ones_def a by (simp add: lessThan_nat_numeral lessThan_Suc ac_simps)
  qed
  ultimately show ?thesis by (simp add: z_def)
qed

lemma horizontal_sum:
  assumes d: "unat (w :: 32 word) = digits 8 4 d" and le: "\<And>i. d i \<le> 56"
  shows "unat (drop_bit 24 (w * 0x01010101)) = d 0 + d 1 + d 2 + d 3"
proof -
  define q where "q = d 1 + d 2 + d 3 + 256 * (d 2 + d 3) + 65536 * d 3"
  define r where "r = d 0 + 256 * (d 0 + d 1) + 65536 * (d 0 + d 1 + d 2)"
  define e where "e = d 0 + d 1 + d 2 + d 3"
  have "r < 16777216" "e < 256"
    using le [of 0] le [of 1] le [of 2] le [of 3] by (simp_all add: r_def e_def)
  have "digits 8 4 d = d 0 + 256 * d 1 + 65536 * d 2 + 16777216 * d 3"
    by (simp add: digits_numeral numeral_2_eq_2 [symmetric] numeral_3_eq_3 [symmetric])
  then have "unat w * 0x01010101 = r + 16777216 * e + 4294967296 * q"
    unfolding d by (simp add: q_def r_def e_def)
  then have "(unat w * 0x01010101) mod 2 ^ 32 div 2 ^ 24 = e"
    using \<open>r < 16777216\<close> \<open>e < 256\<close> by simp
  then show ?thesis
    by (simp add: unat_drop_bit_eq unat_word_ariths drop_bit_eq_div e_def)
qed

lemma ones_bytes: "ones (x :: 32 word) = byte_ones x 0 + byte_ones x 1 + byte_ones x 2 + byte_ones x 3"
  by (simp add: ones_def byte_ones_def lessThan_nat_numeral lessThan_Suc add.assoc)

lemma bit_le_nat: "bit (le_nat bs) m = (m div 8 < length bs \<and> bit (bs ! (m div 8)) (m mod 8))"
proof (induction bs arbitrary: m)
  case (Cons b bs)
  have lt: "unat b < 2 ^ 8" using unat_byte_less [of b] by simp
  show ?case
  proof (cases "m < 8")
    case True
    then show ?thesis using bit_add_high [OF lt, of "le_nat bs" m] by (simp add: bit_unsigned_iff)
  next
    case False
    then have "m div 8 = Suc ((m - 8) div 8)" "m mod 8 = (m - 8) mod 8" by (auto simp: le_div_geq le_mod_geq)
    with False show ?thesis using bit_add_high [OF lt, of "le_nat bs" m] Cons.IH [of "m - 8"] by simp
  qed
qed simp

lemma bit_word_of_nat: "bit (word_of_nat n :: 'a::len word) j = (j < LENGTH('a) \<and> bit n j)"
  using bit_word_of_int_iff [of "int n" j, where 'a = 'a] by (simp add: bit_of_nat_iff)

lemma bit_load32: "p + 4 \<le> length m \<Longrightarrow> bit (load32 m p) j = (j < 32 \<and> bit (m ! (p + j div 8)) (j mod 8))"
  by (auto simp: load32_def bit_word_of_nat bit_le_nat)

lemma byte_ones_load32:
  assumes "p + 4 \<le> length m" "i < 4"
  shows "byte_ones (load32 m p) i = ones (m ! (p + i))"
proof -
  have "(8 * i + j) div 8 = i" "(8 * i + j) mod 8 = j" "8 * i + j < 32" if "j < 8" for j
    using that assms(2) by auto
  then show ?thesis
    unfolding byte_ones_def ones_def bit_of_def bit_load32 [OF assms(1)] by (intro sum.cong) simp_all
qed

lemma ones_load32: "p + 4 \<le> length m \<Longrightarrow> ones (load32 m p) = sum_list (map ones (buf_read p 4 m))"
proof -
  assume p: "p + 4 \<le> length m"
  have "buf_read p 4 m = [m ! p, m ! (p + 1), m ! (p + 2), m ! (p + 3)]"
    using p by (intro nth_equalityI) (auto simp: less_Suc_eq numeral_eq_Suc)
  then show ?thesis
    using byte_ones_load32 [OF p, of 0] byte_ones_load32 [OF p, of 1] byte_ones_load32 [OF p, of 2] byte_ones_load32 [OF p, of 3]
    by (simp add: ones_bytes)
qed

lemma sum_seven_words:
  assumes a: "unat (a :: 32 word) = digits 8 4 f" and b: "unat b = digits 8 4 g" and le: "\<And>i. f i + g i \<le> 56"
  shows "unat (a + b) = digits 8 4 (\<lambda>i. f i + g i)"
proof -
  have "f i + g i < 2 ^ 8" for i using le [of i] by simp
  then have "digits 8 4 (\<lambda>i. f i + g i) < 2 ^ (8 * 4)" by (rule digits_less)
  then show ?thesis using a b by (simp add: digits_add unat_add_lem [THEN iffD1])
qed

lemma blocks_of_28:
  assumes "length p = 28"
  shows "p = buf_read 0 4 p @ buf_read 4 4 p @ buf_read 8 4 p @ buf_read 12 4 p @ buf_read 16 4 p @ buf_read 20 4 p @ buf_read 24 4 p"
proof -
  have "drop n p = buf_read n 4 p @ drop (n + 4) p" for n
    unfolding buf_read_def by (metis add.commute append_take_drop_id drop_drop)
  from this [of 0] this [of 4] this [of 8] this [of 12] this [of 16] this [of 20] this [of 24] show ?thesis
    using assms by simp
qed

lemma popcount_28_ones:
  assumes p: "length p = 28"
  shows "unat (popcount_28 p) = sum_list (map ones p)"
proof -
  let ?x = "load32 p"
  let ?F = "\<lambda>i. byte_ones (?x 0) i + byte_ones (?x 4) i + byte_ones (?x 8) i + byte_ones (?x 12) i +
    byte_ones (?x 16) i + byte_ones (?x 20) i + byte_ones (?x 24) i"
  let ?s = "\<lambda>a. aux_sum (aux_fold (?x a))"
  have le: "?F i \<le> 56" for i
    using byte_ones_le [of "?x 0" i] byte_ones_le [of "?x 4" i] byte_ones_le [of "?x 8" i] byte_ones_le [of "?x 12" i]
      byte_ones_le [of "?x 16" i] byte_ones_le [of "?x 20" i] byte_ones_le [of "?x 24" i] by linarith
  have "unat (?s 0 + ?s 4 + ?s 8 + ?s 12 + ?s 16 + ?s 20 + ?s 24) = digits 8 4 ?F"
    by (intro sum_seven_words aux_sum_digits) (use le in \<open>meson add_leE\<close>)+
  from horizontal_sum [OF this le] have "unat (popcount_28 p) = ?F 0 + ?F 1 + ?F 2 + ?F 3"
    unfolding popcount_28_def Let_def .
  also have "\<dots> = ones (?x 0) + ones (?x 4) + ones (?x 8) + ones (?x 12) + ones (?x 16) + ones (?x 20) + ones (?x 24)"
    by (simp add: ones_bytes)
  also have "\<dots> = sum_list (map ones p)"
    by (subst (8) blocks_of_28 [OF p]) (simp add: ones_load32 p)
  finally show ?thesis .
qed

text \<open>The table holds the number of ones of every byte: each doubling of it adds one to a copy.\<close>

primrec ones_table :: "nat \<Rightarrow> nat list" where
  "ones_table 0 = [0]"
| "ones_table (Suc n) = ones_table n @ map Suc (ones_table n)"

lemma bitsinbyte_doubling: "bitsinbyte = ones_table 8"
  by (simp add: bitsinbyte_def numeral_eq_Suc)

lemma length_ones_table [simp]: "length (ones_table n) = 2 ^ n"
  by (induction n) simp_all

lemma nth_ones_table: "i < 2 ^ n \<Longrightarrow> ones_table n ! i = (\<Sum>k<n. of_bool (bit i k))"
proof (induction n arbitrary: i)
  case (Suc n)
  show ?case
  proof (cases "i < 2 ^ n")
    case True
    then have "\<not> bit i n" by (simp add: bit_iff_odd)
    with True Suc.IH show ?thesis by (simp add: nth_append)
  next
    case False
    define j where "j = i - 2 ^ n"
    have j: "j < 2 ^ n" "i = j + 2 ^ n * 1" using False Suc.prems by (simp_all add: j_def)
    have "bit i k = (if k < n then bit j k else k = n)" if "k \<le> n" for k
      unfolding j(2) bit_add_high [OF j(1)] using that by (auto simp: bit_0)
    then have "(\<Sum>k<Suc n. of_bool (bit i k)) = Suc (\<Sum>k<n. of_bool (bit j k))" by simp
    with False Suc.IH [OF j(1)] j(1) show ?thesis by (simp add: nth_append j_def [symmetric])
  qed
qed simp

lemma bitsinbyte_ones: "bitsinbyte ! unat b = ones (b :: byte)"
  using nth_ones_table [of "unat b" 8] unat_byte_less [of b]
  by (simp add: bitsinbyte_doubling ones_def bit_of_def bit_unsigned_iff)

lemma popcount_align_ones:
  assumes "popcount_align addr s bits = (p, bits')"
  shows "bits' + word_of_nat (sum_list (map ones p)) = bits + word_of_nat (sum_list (map ones s))"
  using assms by (induction addr s bits rule: popcount_align.induct) (auto simp: bitsinbyte_ones add.assoc split: if_splits)

lemma popcount_blocks_ones:
  assumes "popcount_blocks s bits = (p, bits')"
  shows "bits' + word_of_nat (sum_list (map ones p)) = bits + word_of_nat (sum_list (map ones s))"
  using assms
proof (induction s bits rule: popcount_blocks.induct)
  case (1 s bits)
  show ?case
  proof (cases "length s \<ge> 28")
    case True
    have "(ucast (popcount_28 (take 28 s)) :: 64 word) = word_of_nat (unat (popcount_28 (take 28 s)))"
      by simp
    then have "(ucast (popcount_28 (take 28 s)) :: 64 word) = word_of_nat (sum_list (map ones (take 28 s)))"
      using popcount_28_ones [of "take 28 s"] True by simp
    moreover have "sum_list (map ones s) = sum_list (map ones (take 28 s)) + sum_list (map ones (drop 28 s))"
      by (metis append_take_drop_id map_append sum_list_append)
    ultimately show ?thesis
      using 1 True by (simp add: popcount_blocks.simps [of s] add.assoc)
  next
    case False
    with 1(2) show ?thesis by (simp add: popcount_blocks.simps [of s])
  qed
qed

lemma popcount_bytes_ones: "popcount_bytes p bits = bits + word_of_nat (sum_list (map ones p))"
  by (induction p bits rule: popcount_bytes.induct) (simp_all add: bitsinbyte_ones add.assoc)

lemma redisPopcount_ones: "redisPopcount addr s = word_of_nat (sum_list (map ones s))"
  using popcount_align_ones [of addr s 0] popcount_blocks_ones
  by (auto simp: redisPopcount_def popcount_bytes_ones split: prod.splits)

lemma sum_split: "(\<Sum>i<(m::nat) + n. f i :: nat) = (\<Sum>i<m. f i) + (\<Sum>i<n. f (m + i))"
  by (induction n) (simp_all add: add.assoc)

lemma sum_bits: "(\<Sum>i<8 * length s. of_bool (bit_at s i)) = sum_list (map ones s)"
proof (induction s)
  case (Cons b s)
  have "(\<Sum>i<8. of_bool (bit b (7 - i)) :: nat) = ones b"
    by (simp add: ones_def bit_of_def lessThan_nat_numeral lessThan_Suc del: sum_of_bool_eq)
  with Cons show ?case
    using sum_split [of "\<lambda>i. of_bool (bit_at (b # s) i)" 8 "8 * length s"]
    by (simp add: bit_at_Cons del: sum_of_bool_eq)
qed simp

lemma card_bits: "card {i. bit_at s i} = sum_list (map ones s)"
proof -
  have e: "{..<8 * length s} \<inter> {i. bit_at s i} = {i. bit_at s i}"
    by (auto simp: bit_at_def)
  show ?thesis
    unfolding sum_bits [symmetric] by (simp add: e)
qed

section \<open>BITOP bit by bit\<close>

text \<open>One bit of an operation, and the operation on the corresponding bits of all sources.\<close>

definition bitop_bit :: "bitop \<Rightarrow> bool \<Rightarrow> bool \<Rightarrow> bool" where
  "bitop_bit op x y = (case op of BITOP_AND \<Rightarrow> x \<and> y | BITOP_OR \<Rightarrow> x \<or> y | BITOP_XOR \<Rightarrow> x \<noteq> y | BITOP_NOT \<Rightarrow> x)"

definition bitop_spec :: "bitop \<Rightarrow> bool list \<Rightarrow> bool" where
  "bitop_spec op bs = (case op of
     BITOP_AND \<Rightarrow> list_all id bs
   | BITOP_OR \<Rightarrow> list_ex id bs
   | BITOP_XOR \<Rightarrow> odd (length (filter id bs))
   | BITOP_NOT \<Rightarrow> \<not> hd bs)"

lemma bit_bitop2: "bit (bitop2 op x y) k = bitop_bit op (bit x k) (bit y k)"
  by (auto simp: bitop2_def bitop_bit_def bit_simps split: bitop.splits dest: bit_imp_le_length)

lemma bit_le_bytes: "i < n \<Longrightarrow> k < 8 \<Longrightarrow> bit (le_bytes n v ! i) k = bit v (8 * i + k)"
proof (induction n arbitrary: v i)
  case (Suc n)
  show ?case
  proof (cases i)
    case 0
    with Suc.prems show ?thesis by (simp add: bit_word_of_nat)
  next
    case (Suc j)
    have "bit (v div 256) (8 * j + k) = bit v (8 * Suc j + k)"
      using bit_drop_bit_eq [of 8 v] by (simp add: drop_bit_eq_div add.assoc)
    with Suc.IH [of j "v div 256"] Suc.prems Suc show ?thesis by simp
  qed
qed simp

lemma bit_load64: "p + 8 \<le> length m \<Longrightarrow> bit (load64 m p) j = (j < 64 \<and> bit (m ! (p + j div 8)) (j mod 8))"
  by (auto simp: load64_def bit_word_of_nat bit_le_nat)

lemma length_store64 [simp]: "p + 8 \<le> length m \<Longrightarrow> length (store64 p w m) = length m"
  by (simp add: store64_def)

lemma nth_store64:
  assumes "p + 8 \<le> length m" "i < length m" "k < 8"
  shows "bit (store64 p w m ! i) k = (if p \<le> i \<and> i < p + 8 then bit w (8 * (i - p) + k) else bit (m ! i) k)"
  using assms by (auto simp: store64_def nth_buf_write bit_le_bytes bit_unsigned_iff)

lemma store_bytewise:
  assumes m: "p + 8 \<le> length m" "i < length m"
    and w: "\<And>j. j < 64 \<Longrightarrow> bit w j = bit (g (p + j div 8)) (j mod 8)"
  shows "store64 p w m ! i = (if p \<le> i \<and> i < p + 8 then g i else m ! i)"
proof (rule bit_word_eqI)
  fix k assume "k < LENGTH(8)"
  then have k: "k < 8" by simp
  have "bit w (8 * (i - p) + k) = bit (g i) k" if "p \<le> i" "i < p + 8"
  proof -
    have "8 * (i - p) + k < 64" "(8 * (i - p) + k) div 8 = i - p" "(8 * (i - p) + k) mod 8 = k"
      using that k by auto
    then show ?thesis using w [of "8 * (i - p) + k"] that by simp
  qed
  then show "bit (store64 p w m ! i) k = bit (if p \<le> i \<and> i < p + 8 then g i else m ! i) k"
    using nth_store64 [OF m k] by simp
qed

lemma store_op:
  assumes "p + 8 \<le> length m" "p + 8 \<le> length lp" "i < length m"
  shows "store64 p (bitop2 op (load64 m p) (load64 lp p)) m ! i =
    (if p \<le> i \<and> i < p + 8 then bitop2 op (m ! i) (lp ! i) else m ! i)"
  by (rule store_bytewise) (use assms in \<open>simp_all add: bit_bitop2 bit_load64\<close>)

lemma store_not:
  assumes "p + 8 \<le> length m" "i < length m"
  shows "store64 p (NOT (load64 m p)) m ! i = (if p \<le> i \<and> i < p + 8 then NOT (m ! i) else m ! i)"
  by (rule store_bytewise) (use assms in \<open>simp_all add: bit_not_iff bit_load64\<close>)

text \<open>A loop over consecutive words that acts bytewise.\<close>

lemma fold_words:
  assumes step: "\<And>p m i. p + 8 \<le> j + 8 * n \<Longrightarrow> length m = l \<Longrightarrow> i < l \<Longrightarrow>
      length (f p m) = l \<and> f p m ! i = (if p \<le> i \<and> i < p + 8 then g i (m ! i) else m ! i)"
    and m: "length m = l" "i < l"
  shows "length (fold (\<lambda>k. f (j + 8 * k)) [0..<n] m) = l \<and>
    fold (\<lambda>k. f (j + 8 * k)) [0..<n] m ! i = (if j \<le> i \<and> i < j + 8 * n then g i (m ! i) else m ! i)"
proof -
  have "length (fold (\<lambda>k. f (j + 8 * k)) [0..<h] m) = l \<and>
    fold (\<lambda>k. f (j + 8 * k)) [0..<h] m ! i = (if j \<le> i \<and> i < j + 8 * h then g i (m ! i) else m ! i)" if "h \<le> n" for h
    using that
  proof (induction h)
    case (Suc h)
    then have "j + 8 * h + 8 \<le> j + 8 * n" by simp
    from step [OF this, of "fold (\<lambda>k. f (j + 8 * k)) [0..<h] m" i] Suc m(2) show ?case by auto
  qed (use m in auto)
  from this [OF order_refl] show ?thesis .
qed

lemma bitop_words_nth:
  assumes "j + 32 \<le> length m" "j + 32 \<le> length lp" "i < length m"
  shows "length (bitop_words op j lp m) = length m"
    "bitop_words op j lp m ! i = (if j \<le> i \<and> i < j + 32 then bitop2 op (m ! i) (lp ! i) else m ! i)"
  unfolding bitop_words_def
  using fold_words [of j 4 "length m" "\<lambda>p m. store64 p (bitop2 op (load64 m p) (load64 lp p)) m" "\<lambda>i x. bitop2 op x (lp ! i)" m i]
    assms by (simp_all add: store_op)

lemma bitop_not_words_nth:
  assumes "j + 32 \<le> length m" "i < length m"
  shows "length (bitop_not_words j m) = length m"
    "bitop_not_words j m ! i = (if j \<le> i \<and> i < j + 32 then NOT (m ! i) else m ! i)"
  unfolding bitop_not_words_def
  using fold_words [of j 4 "length m" "\<lambda>p m. store64 p (NOT (load64 m p)) m" "\<lambda>i x. NOT x" m i]
    assms by (simp_all add: store_not)

lemma fold_bitop_words_nth:
  assumes "\<And>lp. lp \<in> set lps \<Longrightarrow> j + 32 \<le> length lp" "j + 32 \<le> length m" "i < length m"
  shows "length (fold (bitop_words op j) lps m) = length m \<and>
    fold (bitop_words op j) lps m ! i =
      (if j \<le> i \<and> i < j + 32 then fold (\<lambda>sp output. bitop2 op output (pat_at sp i)) lps (m ! i) else m ! i)"
  using assms
proof (induction lps arbitrary: m)
  case (Cons lp lps)
  have lp: "j + 32 \<le> length lp" using Cons.prems(1) by simp
  note w = bitop_words_nth [OF Cons.prems(2) lp Cons.prems(3)]
  have "pat_at lp i = lp ! i" if "i < j + 32" using that lp by (simp add: pat_at_def)
  then show ?case
    using Cons.IH [of "bitop_words op j lp m"] Cons.prems w by auto
qed simp

definition sources_ok :: "bitop \<Rightarrow> bytes list \<Rightarrow> nat \<Rightarrow> bool" where
  "sources_ok op src minlen \<longleftrightarrow> src \<noteq> [] \<and> (op = BITOP_NOT \<longrightarrow> length src = 1) \<and> (\<forall>p \<in> set src. minlen \<le> length p)"

lemma fast_block:
  assumes ok: "sources_ok op src (j + minlen)" and len: "32 \<le> minlen" "j + minlen \<le> length m" "i < length m"
    and hd: "\<And>i. j \<le> i \<Longrightarrow> i < j + minlen \<Longrightarrow> m ! i = pat_at (hd src) i"
  shows "length (if op = BITOP_NOT then bitop_not_words j m else fold (bitop_words op j) (drop 1 src) m) = length m \<and>
    (if op = BITOP_NOT then bitop_not_words j m else fold (bitop_words op j) (drop 1 src) m) ! i =
      (if j \<le> i \<and> i < j + 32 then bitop_byte op src i else m ! i)"
proof (cases "op = BITOP_NOT")
  case True
  have "bitop_byte op src i = NOT (pat_at (hd src) i)"
    using ok True by (simp add: sources_ok_def bitop_byte_def)
  with True bitop_not_words_nth [of j m i] len hd [of i] show ?thesis by simp
next
  case False
  have "j + 32 \<le> length lp" if "lp \<in> set (drop 1 src)" for lp
    using ok len(1) in_set_dropD [OF that] by (force simp: sources_ok_def)
  from fold_bitop_words_nth [of "drop 1 src" j m i op, OF this] len hd [of i] False show ?thesis
    by (simp add: bitop_byte_def)
qed

lemma bitop_fast_prefix:
  assumes "bitop_fast op src minlen j m = (j', m')" "sources_ok op src (j + minlen)" "j + minlen \<le> length m"
    and "\<And>i. j \<le> i \<Longrightarrow> i < j + minlen \<Longrightarrow> m ! i = pat_at (hd src) i"
    and "\<And>i. i < j \<Longrightarrow> m ! i = bitop_byte op src i"
  shows "length m' = length m \<and> j' \<le> length m \<and> (\<forall>i < j'. m' ! i = bitop_byte op src i)"
  using assms
proof (induction op src minlen j m rule: bitop_fast.induct)
  case (1 op src minlen j m)
  show ?case
  proof (cases "32 \<le> minlen")
    case True
    let ?m = "if op = BITOP_NOT then bitop_not_words j m else fold (bitop_words op j) (drop 1 src) m"
    have eq: "j + 32 + (minlen - 32) = j + minlen" using True by simp
    note blk = fast_block [OF 1(3) True 1(4) _ 1(5)]
    have l: "length ?m = length m" using blk [of 0] True 1(4) by (cases "length m = 0") auto
    have "bitop_fast op src (minlen - 32) (j + 32) ?m = (j', m')"
      using 1(2) True by (simp add: bitop_fast.simps [of _ _ minlen])
    moreover have "?m ! i = pat_at (hd src) i" if "j + 32 \<le> i" "i < j + minlen" for i
      using blk [of i] that 1(4,5) by auto
    moreover have "?m ! i = bitop_byte op src i" if "i < j + 32" for i
      using blk [of i] that 1(4,6) True by (cases "i < j") auto
    ultimately show ?thesis
      using 1(1) [OF True] 1(3,4) l unfolding eq by auto
  next
    case False
    with 1 show ?thesis by (auto simp: bitop_fast.simps [of _ _ minlen])
  qed
qed

lemma fold_update_nth:
  "i < length m \<Longrightarrow> fold (\<lambda>j m. m[j := f j]) [j..<n] m ! i = (if j \<le> i \<and> i < n then f i else m ! i)"
  "length (fold (\<lambda>j m. m[j := f j]) [j..<n] m) = length m"
  by (induction n) (auto simp: nth_list_update less_Suc_eq)

lemma bitop_result_bytes:
  assumes "sources_ok op src minlen" "minlen \<le> maxlen"
  shows "bitop_result op src maxlen minlen = map (bitop_byte op src) [0..<maxlen]"
proof -
  define jm where "jm = (if minlen \<ge> 32 \<and> length src \<le> 16
    then bitop_fast op src minlen 0 (buf_write 0 (take minlen (hd src)) (replicate maxlen 0)) else (0, replicate maxlen 0))"
  obtain j m where jm: "jm = (j, m)" by fastforce
  have "hd src \<in> set src" using assms(1) by (simp add: sources_ok_def)
  then have hd: "minlen \<le> length (hd src)" using assms(1) by (simp add: sources_ok_def)
  have "length m = maxlen \<and> j \<le> maxlen \<and> (\<forall>i < j. m ! i = bitop_byte op src i)"
  proof (cases "minlen \<ge> 32 \<and> length src \<le> 16")
    case True
    have "bitop_fast op src minlen 0 (buf_write 0 (take minlen (hd src)) (replicate maxlen 0)) = (j, m)"
      using jm True by (simp add: jm_def)
    from bitop_fast_prefix [OF this] assms hd show ?thesis
      by (simp add: nth_buf_write pat_at_def)
  next
    case False
    with jm show ?thesis by (auto simp: jm_def)
  qed
  then show ?thesis
    unfolding bitop_result_def Let_def jm_def [symmetric] jm prod.case
    by (intro nth_equalityI) (auto simp: fold_update_nth)
qed

lemma fold_bitop_bits:
  "bit (fold (\<lambda>sp output. bitop2 op output (pat_at sp j)) src x) k =
    fold (\<lambda>sp b. bitop_bit op b (bit (pat_at sp j) k)) src (bit x k)"
  by (induction src arbitrary: x) (simp_all add: bit_bitop2)

lemma fold_bitop_bit:
  "op \<noteq> BITOP_NOT \<Longrightarrow> fold (\<lambda>y b. bitop_bit op b (g y)) ys x = bitop_spec op (x # map g ys)"
  by (induction ys arbitrary: x) (auto simp: bitop_spec_def bitop_bit_def split: bitop.splits)

lemma bitop_byte_bit:
  assumes "sources_ok op src minlen" "k < 8"
  shows "bit (bitop_byte op src j) k = bitop_spec op (map (\<lambda>p. bit (pat_at p j) k) src)"
proof (cases src)
  case (Cons p ps)
  then show ?thesis
    using assms by (cases "op = BITOP_NOT")
      (auto simp: bitop_byte_def fold_bitop_bits fold_bitop_bit sources_ok_def bit_not_iff bitop_spec_def)
qed (use assms in \<open>simp add: sources_ok_def\<close>)

lemma bit_at_pat: "bit_at p i = bit (pat_at p (i div 8)) (7 - i mod 8)"
  by (simp add: bit_at_def pat_at_def)

definition bit_value :: "key_value \<Rightarrow> bytes" where
  "bit_value obj = (case obj of String_value p \<Rightarrow> p | _ \<Rightarrow> [])"

lemma bitop_lookup_spec:
  assumes "\<And>k. k \<in> set ks \<Longrightarrow> db k \<noteq> Other_value" "j = 0 \<longleftrightarrow> src = []"
    and "\<And>p. p \<in> set src \<Longrightarrow> minlen \<le> length p" "minlen \<le> maxlen"
  shows "\<exists>minlen'. bitop_lookup db ks j src maxlen minlen =
      Some (src @ map (bit_value \<circ> db) ks, fold max (map (length \<circ> bit_value \<circ> db) ks) maxlen, minlen') \<and>
    (\<forall>p \<in> set (src @ map (bit_value \<circ> db) ks). minlen' \<le> length p) \<and>
    minlen' \<le> fold max (map (length \<circ> bit_value \<circ> db) ks) maxlen"
  using assms
proof (induction db ks j src maxlen minlen rule: bitop_lookup.induct)
  case (2 db k ks j src maxlen minlen)
  show ?case
  proof (cases "db k")
    case No_key
    from 2(1) [OF No_key] 2(3-) show ?thesis by (auto simp: No_key bit_value_def)
  next
    case (String_value p)
    define mn and mx where "mn = (if j = 0 \<or> length p < minlen then length p else minlen)" and "mx = max (length p) maxlen"
    have mx: "(if length p > maxlen then length p else maxlen) = mx" by (simp add: mx_def)
    have "mn \<le> length q" if "q \<in> set (src @ [p])" for q
      using that 2(4,5) by (cases "q = p") (force simp: mn_def)+
    moreover have "mn \<le> mx" using 2(6) by (auto simp: mn_def mx_def)
    ultimately show ?thesis
      using 2(2) [OF String_value] 2(3) by (simp add: String_value bit_value_def mx mn_def [symmetric] mx_def [symmetric])
  qed (use 2 in auto)
qed auto

lemma bitop_lookup_other: "k \<in> set ks \<Longrightarrow> db k = Other_value \<Longrightarrow> bitop_lookup db ks j src maxlen minlen = None"
  by (induction db ks j src maxlen minlen rule: bitop_lookup.induct) (auto split: key_value.splits)

lemma fold_max_Max: "fold max xs m = Max (set (m # xs) :: nat set)"
  by (simp only: Max.set_eq_fold)

text \<open>C37. BITOP on string and missing keys replies the length of the longest source and stores, for every
  bit, the operation on the corresponding bits of all sources, shorter ones being zero padded; the
  word-wise fast path makes no difference.  If all sources are empty the target is deleted.  No other
  key changes, and a source of another type is an error that changes nothing.\<close>

theorem bitopCommand_bitwise:
  assumes "bitop_opname opname = Some op" "keys \<noteq> []" "op = BITOP_NOT \<longrightarrow> length keys = 1"
  shows "if \<exists>k \<in> set keys. db k = Other_value then bitopCommand opname target keys db = (Inl Err_wrongtype, db)
    else (\<exists>v. bitopCommand opname target keys db =
        (Inr (Max (set (map (\<lambda>k. length (bit_value (db k))) keys))), db(target := v)) \<and>
      v \<noteq> Other_value \<and> (v = No_key \<longleftrightarrow> (\<forall>k \<in> set keys. bit_value (db k) = [])) \<and>
      length (bit_value v) = Max (set (map (\<lambda>k. length (bit_value (db k))) keys)) \<and>
      (\<forall>i < 8 * length (bit_value v). bit_at (bit_value v) i = bitop_spec op (map (\<lambda>k. bit_at (bit_value (db k)) i) keys)))"
proof (cases "\<exists>k \<in> set keys. db k = Other_value")
  case True
  then obtain k where "k \<in> set keys" "db k = Other_value" by blast
  from bitop_lookup_other [where db = db, OF this] True assms show ?thesis
    by (auto simp: bitopCommand_def)
next
  case False
  define src where "src = map (bit_value \<circ> db) keys"
  define n where "n = fold max (map (length \<circ> bit_value \<circ> db) keys) 0"
  obtain minlen where lk: "bitop_lookup db keys 0 [] 0 0 = Some (src, n, minlen)" and mn: "\<forall>p \<in> set src. minlen \<le> length p" "minlen \<le> n"
    using bitop_lookup_spec [of keys db 0 "[]" 0 0] False by (auto simp: src_def n_def)
  have n: "n = Max (set (map (\<lambda>k. length (bit_value (db k))) keys))"
    using assms(2) by (simp add: n_def fold_max_Max comp_def Max_insert)
  have ok: "sources_ok op src minlen" using assms mn(1) by (simp add: sources_ok_def src_def)
  define r where "r = map (bitop_byte op src) [0..<n]"
  have bits: "bit_at r i = bitop_spec op (map (\<lambda>k. bit_at (bit_value (db k)) i) keys)" if "i < 8 * n" for i
  proof -
    have "i div 8 < n" using that by auto
    then have "bit_at r i = bit (bitop_byte op src (i div 8)) (7 - i mod 8)" by (simp add: r_def bit_at_def)
    also have "\<dots> = bitop_spec op (map (\<lambda>p. bit (pat_at p (i div 8)) (7 - i mod 8)) src)"
      by (rule bitop_byte_bit [OF ok]) simp
    also have "\<dots> = bitop_spec op (map (\<lambda>k. bit_at (bit_value (db k)) i) keys)"
      by (simp add: src_def bit_at_pat comp_def)
    finally show ?thesis .
  qed
  have z: "n = 0 \<longleftrightarrow> (\<forall>k \<in> set keys. bit_value (db k) = [])"
    unfolding n using assms(2) by (auto simp: Max_eq_iff image_iff ex_in_conv)
  have "bitopCommand opname target keys db = (Inr n, db(target := if n \<noteq> 0 then String_value r else No_key))"
    using assms lk False bitop_result_bytes [OF ok mn(2)] by (auto simp: bitopCommand_def r_def)
  with False bits z show ?thesis
    unfolding n [symmetric] by (intro if_not_P [THEN iffD2] exI [of _ "if n \<noteq> 0 then String_value r else No_key"]) (auto simp: bit_value_def r_def)
qed

section \<open>The ranges of BITCOUNT and BITPOS\<close>

lemma bit_at_buf_read:
  assumes "a + n \<le> length p"
  shows "bit_at (buf_read a n p) i = (i < 8 * n \<and> bit_at p (8 * a + i))"
  using assms by (auto simp: bit_at_def)

lemma redisPopcount_card:
  assumes "length s < 2 ^ 60"
  shows "unat (redisPopcount addr s) = card {i. bit_at s i}"
proof -
  have "card {i. bit_at s i} \<le> card {..<8 * length s}"
    by (rule card_mono) (auto simp: bit_at_def)
  then show ?thesis
    using assms by (simp add: redisPopcount_ones card_bits unat_of_nat)
qed

lemma bitcount_range_card:
  assumes p: "length p < 2 ^ 60" and s: "0 \<le> start" "end' < int (length p)"
  shows "bitcount_range addr p start end' = card {i. bit_at p i \<and> start \<le> int (i div 8) \<and> int (i div 8) \<le> end'}"
proof (cases "start > end'")
  case True
  then have "{i. bit_at p i \<and> start \<le> int (i div 8) \<and> int (i div 8) \<le> end'} = {}" by auto
  with True show ?thesis by (simp add: bitcount_range_def del: Collect_empty_eq)
next
  case False
  define a n where "a = nat start" and "n = nat (end' - start + 1)"
  have n: "a + n \<le> length p" using s False by (simp add: a_def n_def)
  have "{i. bit_at p i \<and> start \<le> int (i div 8) \<and> int (i div 8) \<le> end'} = (\<lambda>i. 8 * a + i) ` {i. bit_at (buf_read a n p) i}"
    (is "?A = ?f ` ?B")
  proof (rule set_eqI, rule iffI)
    fix i assume "i \<in> ?A"
    then have i: "bit_at p i" "8 * a \<le> i" "i < 8 * (a + n)"
      using s False by (auto simp: a_def n_def)
    then have "i = ?f (i - 8 * a)" "i - 8 * a \<in> ?B" by (auto simp: bit_at_buf_read [OF n])
    then show "i \<in> ?f ` ?B" by (rule image_eqI)
  next
    fix i assume "i \<in> ?f ` ?B"
    then obtain j where j: "i = 8 * a + j" "j < 8 * n" "bit_at p i" by (auto simp: bit_at_buf_read [OF n])
    then have "i div 8 = a + j div 8" "j div 8 < n" by auto
    then show "i \<in> ?A" using j s False by (auto simp: a_def n_def)
  qed
  moreover have "length (buf_read a n p) < 2 ^ 60" using n p by simp
  ultimately show ?thesis
    using False redisPopcount_card [of "buf_read a n p" "addr + a"]
    by (simp add: bitcount_range_def a_def [symmetric] n_def [symmetric] card_image)
qed

text \<open>The bytes a pair of indexes selects: a negative index counts from the end, and an end before the
  first byte selects that byte.\<close>

definition from_end :: "nat \<Rightarrow> int \<Rightarrow> int" where
  "from_end len i = (if i < 0 then int len + i else i)"

definition in_range :: "nat \<Rightarrow> int \<Rightarrow> int \<Rightarrow> nat \<Rightarrow> bool" where
  "in_range len start end' i \<longleftrightarrow>
     from_end len start \<le> int (i div 8) \<and> int (i div 8) \<le> max 0 (from_end len end') \<and> i div 8 < len"

lemma clip_range_spec:
  assumes "clip_range (int len) start end' = (a, b)"
  shows "0 \<le> a" "b < int len" "a \<le> int (i div 8) \<and> int (i div 8) \<le> b \<longleftrightarrow> in_range len start end' i"
  using assms by (auto simp: clip_range_def Let_def in_range_def from_end_def split: if_splits)

text \<open>C38. BITCOUNT counts the ones of the whole string, or of the bytes that its two indexes select, and
  nothing for a pair of negative indexes in the wrong order, whatever the alignment of the string and
  the division of the work between the byte table and the parallel count on seven words.\<close>

theorem bitcountCommand_counts:
  assumes "length p < 2 ^ 60" "in_sint 64 start" "in_sint 64 end'"
  shows "bitcountCommand addr [] (String_value p) = Inr (card {i. bit_at p i}) \<and>
    bitcountCommand addr [show_int start, show_int end'] (String_value p) =
      Inr (if start < 0 \<and> end' < start \<and> end' < 0 then 0 else card {i. bit_at p i \<and> in_range (length p) start end' i})"
proof -
  obtain a b where ab: "clip_range (int (length p)) start end' = (a, b)" by fastforce
  note c = clip_range_spec [OF ab]
  have "{i. bit_at p i \<and> 0 \<le> int (i div 8) \<and> int (i div 8) \<le> int (length p) - 1} = {i. bit_at p i}"
    by (auto simp: bit_at_def)
  then have "bitcountCommand addr [] (String_value p) = Inr (card {i. bit_at p i})"
    using bitcount_range_card [OF assms(1), of 0 "int (length p) - 1" addr] by (simp add: bitcountCommand_def)
  moreover have "bitcount_range addr p a b = card {i. bit_at p i \<and> in_range (length p) start end' i}"
    unfolding bitcount_range_card [OF assms(1) c(1,2)] by (simp only: c(3))
  ultimately show ?thesis
    using string2ll_complete [OF assms(2)] string2ll_complete [OF assms(3)] ab by (auto simp: bitcountCommand_def)
qed

definition first_position :: "(nat \<Rightarrow> bool) \<Rightarrow> int" where
  "first_position P = (if \<exists>i. P i then int (LEAST i. P i) else - 1)"

lemma first_positionI: "P i \<Longrightarrow> (\<And>j. j < i \<Longrightarrow> \<not> P j) \<Longrightarrow> first_position P = int i"
  unfolding first_position_def by (auto intro!: Least_equality simp: not_less [symmetric])

lemma first_position_none: "(\<And>i. \<not> P i) \<Longrightarrow> first_position P = - 1"
  by (simp add: first_position_def)

text \<open>The search in the selected bytes, with positions in the whole string.\<close>

lemma redisBitpos_part:
  assumes n: "a + n \<le> length p"
  obtains (absent) "redisBitpos addr (buf_read a n p) b = Some (- 1)" "b" "\<And>i. 8 * a \<le> i \<Longrightarrow> i < 8 * (a + n) \<Longrightarrow> bit_at p i \<noteq> b"
  | (padding) "redisBitpos addr (buf_read a n p) b = Some (int (n * 8))" "\<not> b"
      "\<And>i. 8 * a \<le> i \<Longrightarrow> i < 8 * (a + n) \<Longrightarrow> bit_at p i \<noteq> b"
  | (found) i where "redisBitpos addr (buf_read a n p) b = Some (int i)" "i < 8 * n" "bit_at p (8 * a + i) = b"
      "\<And>j. 8 * a \<le> j \<Longrightarrow> j < 8 * a + i \<Longrightarrow> bit_at p j \<noteq> b"
proof -
  let ?s = "buf_read a n p"
  have len: "length ?s = n" using n by simp
  have bits: "bit_at ?s (i - 8 * a) = bit_at p i" if "8 * a \<le> i" "i < 8 * (a + n)" for i
    using that by (auto simp: bit_at_buf_read [OF n])
  obtain r where r: "redisBitpos addr ?s b = Some r" "r = - 1 \<and> b \<and> (\<forall>i. \<not> bit_at ?s i) \<or>
      (\<exists>i \<le> 8 * length ?s. r = int i \<and> bit_at ?s i = b \<and> (\<forall>j < i. bit_at ?s j \<noteq> b))"
    using redisBitpos_correct [of addr ?s b] by blast
  from r(2) show thesis
  proof (elim disjE exE conjE)
    assume "r = - 1" "b" "\<forall>i. \<not> bit_at ?s i"
    with bits r(1) show thesis by (intro absent) auto
  next
    fix i assume i: "i \<le> 8 * length ?s" "r = int i" "bit_at ?s i = b" "\<forall>j < i. bit_at ?s j \<noteq> b"
    have before: "bit_at p j \<noteq> b" if "8 * a \<le> j" "j < 8 * a + i" for j
      using i(4) [rule_format, of "j - 8 * a"] bits [of j] that i(1) len by auto
    show thesis
    proof (cases "i = 8 * n")
      case True
      have "\<not> bit_at ?s i" by (simp add: True bit_at_buf_read [OF n])
      with r(1) i True before show thesis by (intro padding) auto
    next
      case False
      with r(1) i len before show thesis by (intro found [of i]) (auto simp: bit_at_buf_read [OF n])
    qed
  qed
qed

lemma byte_index: "8 * a \<le> i \<longleftrightarrow> a \<le> i div 8" "i < 8 * a \<longleftrightarrow> i div 8 < a" for a i :: nat
  by auto

lemma bitpos_range_run:
  assumes "int a \<le> end'" "n = nat (end' - int a + 1)"
  shows "bitpos_range addr p b (int a) end' given =
    (case redisBitpos (addr + a) (buf_read a n p) b of None \<Rightarrow> None
     | Some pos \<Rightarrow> if given \<and> \<not> b \<and> pos = int (n * 8) then Some (- 1) else Some (if pos \<noteq> - 1 then pos + int (8 * a) else pos))"
  using assms by (simp add: bitpos_range_def Let_def mult.commute split: option.split)

lemma bitpos_range_closed:
  assumes s: "0 \<le> start" "end' < int (length p)"
  shows "bitpos_range addr p b start end' True =
      Some (first_position (\<lambda>i. bit_at p i = b \<and> start \<le> int (i div 8) \<and> int (i div 8) \<le> end'))"
proof (cases "start > end'")
  case True
  then show ?thesis by (auto simp: bitpos_range_def intro!: first_position_none [symmetric])
next
  case False
  define a where "a = nat start"
  define n where "n = nat (end' - int a + 1)"
  have start: "start = int a" using s by (simp add: a_def)
  then have n: "a + n \<le> length p" "int a \<le> end'" using s False by (simp_all add: n_def)
  have rng: "start \<le> int (i div 8) \<and> int (i div 8) \<le> end' \<longleftrightarrow> 8 * a \<le> i \<and> i < 8 * (a + n)" for i
    unfolding byte_index using n(2) by (auto simp: start n_def)
  show ?thesis
    unfolding rng unfolding start bitpos_range_run [OF n(2) n_def]
  proof (rule redisBitpos_part [OF n(1), of "addr + a" b], goal_cases)
    case 1
    then show ?case by (auto intro!: first_position_none [symmetric])
  next
    case 2
    then show ?case by (auto intro!: first_position_none [symmetric])
  next
    case (3 i)
    have "first_position (\<lambda>i. bit_at p i = b \<and> 8 * a \<le> i \<and> i < 8 * (a + n)) = int (8 * a + i)"
      by (rule first_positionI) (use 3 in auto)
    with 3 show ?case by simp
  qed
qed

lemma bitpos_range_open:
  assumes s: "0 \<le> start" "start < int (length p)"
  shows "bitpos_range addr p b start (int (length p) - 1) False =
      Some (first_position (\<lambda>i. bit_at p i = b \<and> start \<le> int (i div 8)))"
proof -
  define a where "a = nat start"
  define n where "n = nat (int (length p) - 1 - int a + 1)"
  have start: "start = int a" using s by (simp add: a_def)
  then have n: "a + n = length p" "int a \<le> int (length p) - 1" using s by (simp_all add: n_def)
  have past: "\<not> bit_at p i" if "8 * (a + n) \<le> i" for i using that n(1) by (auto simp: bit_at_def)
  have rng: "start \<le> int (i div 8) \<longleftrightarrow> 8 * a \<le> i" for i
    unfolding byte_index start by simp
  show ?thesis
    unfolding rng unfolding start bitpos_range_run [OF n(2) n_def]
  proof (rule redisBitpos_part [OF eq_imp_le [OF n(1)], of "addr + a" b], goal_cases)
    case 1
    then have "\<not> (bit_at p i = b \<and> 8 * a \<le> i)" for i using past [of i] by (cases "i < 8 * (a + n)") auto
    with 1 show ?case by (auto intro!: first_position_none [symmetric])
  next
    case 2
    have "first_position (\<lambda>i. bit_at p i = b \<and> 8 * a \<le> i) = int (8 * (a + n))"
      by (rule first_positionI) (use 2 past in auto)
    with 2 show ?case by simp
  next
    case (3 i)
    have "first_position (\<lambda>i. bit_at p i = b \<and> 8 * a \<le> i) = int (8 * a + i)"
      by (rule first_positionI) (use 3 in auto)
    with 3 show ?case by simp
  qed
qed

text \<open>C11. BITPOS finds the first bit of a value: with both indexes among the bits of the selected bytes, or
  -1; without the end among all bits from the start on, where the string counts as followed by zeros,
  or -1 when the string has no byte there.  \<open>redisBitpos\<close> never reaches its panic.\<close>

theorem bitposCommand_first:
  assumes "in_sint 64 start" "in_sint 64 end'"
  shows "bitposCommand addr (show_int (of_bool b)) [show_int start, show_int end'] (String_value p) =
      Some (Inr (first_position (\<lambda>i. bit_at p i = b \<and> in_range (length p) start end' i))) \<and>
    bitposCommand addr (show_int (of_bool b)) [show_int start] (String_value p) =
      Some (Inr (if max 0 (from_end (length p) start) < int (length p)
        then first_position (\<lambda>i. bit_at p i = b \<and> from_end (length p) start \<le> int (i div 8)) else - 1))"
proof -
  obtain a e where ae: "clip_range (int (length p)) start end' = (a, e)" by fastforce
  note c = clip_range_spec [OF ae]
  have bi: "string2ll (show_int (of_bool b)) = Some (of_bool b)"
    by (rule string2ll_complete) (simp add: in_sint_def)
  have part: "bitpos_args (length p) [show_int start, show_int end'] = Inr (a, e, True)"
    using string2ll_complete [OF assms(1)] string2ll_complete [OF assms(2)] ae by (simp add: bitpos_args_def)
  define f where "f = max 0 (from_end (length p) start)"
  have rest: "bitpos_args (length p) [show_int start] = Inr (f, int (length p) - 1, False)"
    using string2ll_complete [OF assms(1)] by (simp add: bitpos_args_def clip_range_def from_end_def f_def Let_def)
  have le: "f \<le> int (i div 8) \<longleftrightarrow> from_end (length p) start \<le> int (i div 8)" for i by (auto simp: f_def)
  have "bitpos_range addr p b f (int (length p) - 1) False = Some (if max 0 (from_end (length p) start) < int (length p)
        then first_position (\<lambda>i. bit_at p i = b \<and> from_end (length p) start \<le> int (i div 8)) else - 1)"
  proof (cases "f < int (length p)")
    case True
    then show ?thesis using bitpos_range_open [of f p addr b] by (simp add: le) (simp add: f_def)
  next
    case False
    then show ?thesis by (auto simp: bitpos_range_def f_def [symmetric])
  qed
  moreover have "bitpos_range addr p b a e True = Some (first_position (\<lambda>i. bit_at p i = b \<and> in_range (length p) start end' i))"
    unfolding bitpos_range_closed [OF c(1,2)] c(3) ..
  ultimately show ?thesis
    by (simp add: bitposCommand_def bi part rest)
qed

section \<open>Witnesses\<close>

theorem bitopCommand_bitwise_witness:
  "bitop_opname (ascii ''xor'') = Some BITOP_XOR \<and>
   (\<exists>v. bitopCommand (ascii ''xor'') [3] [[1], [2]] (\<lambda>k. if k = [1] then String_value [5] else if k = [2] then String_value [3, 4] else No_key) =
       (Inr 2, (\<lambda>k. if k = [1] then String_value [5] else if k = [2] then String_value [3, 4] else No_key)([3] := v)) \<and>
     length (bit_value v) = 2)"
proof -
  have "bitop_opname (ascii ''xor'') = Some BITOP_XOR" by code_simp
  from bitopCommand_bitwise [OF this, of "[[1], [2]]"
      "\<lambda>k. if k = [1] then String_value [5] else if k = [2] then String_value [3, 4] else No_key" "[3]"] this
  show ?thesis by (auto simp: bit_value_def)
qed

theorem bitcountCommand_counts_witness:
  "bitcountCommand 3 [show_int 1, show_int 2] (String_value [255, 3, 1]) =
     Inr (card {i. bit_at [255, 3, 1] i \<and> in_range 3 1 2 i})"
  using bitcountCommand_counts [of "[255, 3, 1]" 1 2 3] by (simp add: in_sint_def numeral_3_eq_3)

theorem bitposCommand_first_witness:
  "bitposCommand 3 (show_int (of_bool True)) [show_int 1] (String_value [255, 0, 1]) =
     Some (Inr (first_position (\<lambda>i. bit_at [255, 0, 1] i = True \<and> from_end 3 1 \<le> int (i div 8))))"
  using bitposCommand_first [of 1 2 3 True "[255, 0, 1]"] by (simp add: in_sint_def from_end_def)

end
