(* ===== verification/Interfaces.thy ===== *)
theory Interfaces
  imports Prelude "HOL-Library.Monad_Syntax"
begin

text \<open>
  The contracts between components, as locales.  Each fixes the operations a client calls
  and assumes the laws a provider promises; the provider's theory interprets the locale
  on its own operations, and the client's theory rests on the interpreted facts.
\<close>

section \<open>Finite sets\<close>

text \<open>
  A set of values with the add and remove calls of Redis (each returns the new structure
  and whether it changed anything) and a capacity up to which adding is promised to work.
\<close>

locale bounded_set =
  fixes invar :: "'s \<Rightarrow> bool"
    and elts :: "'s \<Rightarrow> 'a set"
    and cap :: nat
    and ok :: "'a \<Rightarrow> bool"
    and empty :: 's
    and add :: "'s \<Rightarrow> 'a \<Rightarrow> 's \<times> bool"
    and remove :: "'s \<Rightarrow> 'a \<Rightarrow> 's \<times> bool"
    and mem :: "'s \<Rightarrow> 'a \<Rightarrow> bool"
  assumes finite_elts: "invar s \<Longrightarrow> finite (elts s)"
    and invar_empty: "invar empty"
    and elts_empty: "elts empty = {}"
    and add_law: "invar s \<Longrightarrow> ok v \<Longrightarrow> v \<in> elts s \<or> card (elts s) < cap \<Longrightarrow>
      invar (fst (add s v)) \<and> elts (fst (add s v)) = insert v (elts s) \<and>
      snd (add s v) = (v \<notin> elts s)"
    and remove_law: "invar s \<Longrightarrow> ok v \<Longrightarrow>
      invar (fst (remove s v)) \<and> elts (fst (remove s v)) = elts s - {v} \<and>
      snd (remove s v) = (v \<in> elts s)"
    and mem_law: "invar s \<Longrightarrow> ok v \<Longrightarrow> mem s v = (v \<in> elts s)"
begin

definition add_all :: "'a list \<Rightarrow> 's \<Rightarrow> 's" where
  "add_all vs s = fold (\<lambda>v t. fst (add t v)) vs s"

definition remove_all :: "'a list \<Rightarrow> 's \<Rightarrow> 's" where
  "remove_all vs s = fold (\<lambda>v t. fst (remove t v)) vs s"

lemma add_all_law:
  assumes "invar s" and "\<forall>v \<in> set vs. ok v" and "card (elts s \<union> set vs) \<le> cap"
  shows "invar (add_all vs s) \<and> elts (add_all vs s) = elts s \<union> set vs"
  using assms
proof (induction vs arbitrary: s)
  case Nil
  then show ?case by (simp add: add_all_def)
next
  case (Cons v vs)
  have fin: "finite (elts s \<union> set (v # vs))" using Cons.prems(1) finite_elts by simp
  have "v \<in> elts s \<or> card (elts s) < cap"
  proof (rule disjCI)
    assume "\<not> card (elts s) < cap"
    then have "elts s = elts s \<union> set (v # vs)"
      using Cons.prems(3) fin by (intro card_seteq) auto
    then show "v \<in> elts s" by auto
  qed
  then have step: "invar (fst (add s v)) \<and> elts (fst (add s v)) = insert v (elts s)"
    using add_law Cons.prems(1,2) by simp
  moreover have "add_all (v # vs) s = add_all vs (fst (add s v))"
    by (simp add: add_all_def)
  ultimately show ?case
    using Cons.IH [of "fst (add s v)"] Cons.prems(2,3) by simp
qed

lemma remove_all_law:
  assumes "invar s" and "\<forall>v \<in> set vs. ok v"
  shows "invar (remove_all vs s) \<and> elts (remove_all vs s) = elts s - set vs"
  using assms
proof (induction vs arbitrary: s)
  case (Cons v vs)
  then show ?case
    using remove_law [of s v] Cons.IH [of "fst (remove s v)"] by (auto simp: remove_all_def)
qed (simp add: remove_all_def)

lemma mem_add_all:
  assumes "\<forall>v \<in> set vs. ok v" and "card (set vs) \<le> cap" and "ok x"
  shows "mem (add_all vs empty) x = (x \<in> set vs)"
  using add_all_law [OF invar_empty assms(1)] assms(2,3) mem_law elts_empty by simp

lemma add_then_remove:
  assumes "invar s" and "ok v" and "card (elts s) < cap" and "v \<notin> elts s"
  shows "elts (fst (remove (fst (add s v)) v)) = elts s"
  using add_law [OF assms(1,2)] remove_law [of "fst (add s v)" v] assms by simp

end

section \<open>Finite maps\<close>

text \<open>
  Running a list of commands against a component whose steps may fail: the replies in order,
  or \<open>None\<close> as soon as one step fails.
\<close>

fun run_steps :: "('s \<Rightarrow> 'c \<Rightarrow> ('s \<times> 'r) option) \<Rightarrow> 's \<Rightarrow> 'c list \<Rightarrow> ('s \<times> 'r list) option" where
  "run_steps step s [] = Some (s, [])"
| "run_steps step s (c # cs) =
     do {
       (s, r) \<leftarrow> step s c;
       (s, rs) \<leftarrow> run_steps step s cs;
       Some (s, r # rs)
     }"

datatype ('k, 'v) map_cmd = MAdd 'k 'v | MReplace 'k 'v | MDelete 'k | MFetch 'k

datatype 'v map_reply = Changed bool | Fetched "'v option"

text \<open>What each command means on a mathematical finite map.\<close>

fun spec_step :: "('k \<rightharpoonup> 'v) \<Rightarrow> ('k, 'v) map_cmd \<Rightarrow> (('k \<rightharpoonup> 'v) \<times> 'v map_reply) option" where
  "spec_step m (MAdd k v) = Some (if m k = None then m(k \<mapsto> v) else m, Changed (m k = None))"
| "spec_step m (MReplace k v) = Some (m(k \<mapsto> v), Changed (m k = None))"
| "spec_step m (MDelete k) = Some (m(k := None), Changed (m k \<noteq> None))"
| "spec_step m (MFetch k) = Some (m, Fetched (m k))"

fun map_step :: "('s \<Rightarrow> 'k \<Rightarrow> 'v \<Rightarrow> ('s \<times> bool) option) \<Rightarrow> ('s \<Rightarrow> 'k \<Rightarrow> 'v \<Rightarrow> ('s \<times> bool) option) \<Rightarrow>
    ('s \<Rightarrow> 'k \<Rightarrow> ('s \<times> bool) option) \<Rightarrow> ('s \<Rightarrow> 'k \<Rightarrow> ('s \<times> 'v option) option) \<Rightarrow>
    's \<Rightarrow> ('k, 'v) map_cmd \<Rightarrow> ('s \<times> 'v map_reply) option" where
  "map_step add replace delete fetch s (MAdd k v) = map_option (apsnd Changed) (add s k v)"
| "map_step add replace delete fetch s (MReplace k v) = map_option (apsnd Changed) (replace s k v)"
| "map_step add replace delete fetch s (MDelete k) = map_option (apsnd Changed) (delete s k)"
| "map_step add replace delete fetch s (MFetch k) = map_option (apsnd Fetched) (fetch s k)"

locale fallible_map =
  fixes invar :: "'s \<Rightarrow> bool"
    and amap :: "'s \<Rightarrow> 'k \<Rightarrow> 'v option"
    and cap :: nat
    and empty :: 's
    and add :: "'s \<Rightarrow> 'k \<Rightarrow> 'v \<Rightarrow> ('s \<times> bool) option"
    and replace :: "'s \<Rightarrow> 'k \<Rightarrow> 'v \<Rightarrow> ('s \<times> bool) option"
    and delete :: "'s \<Rightarrow> 'k \<Rightarrow> ('s \<times> bool) option"
    and fetch :: "'s \<Rightarrow> 'k \<Rightarrow> ('s \<times> 'v option) option"
  assumes finite_dom: "invar s \<Longrightarrow> finite (dom (amap s))"
    and invar_empty: "invar empty"
    and amap_empty: "amap empty = Map.empty"
    and add_law: "invar s \<Longrightarrow> card (dom (amap s)) < cap \<Longrightarrow>
      \<exists>s'. add s k v = Some (s', amap s k = None) \<and> invar s' \<and>
        amap s' = (if amap s k = None then (amap s)(k \<mapsto> v) else amap s)"
    and replace_law: "invar s \<Longrightarrow> card (dom (amap s)) < cap \<Longrightarrow>
      \<exists>s'. replace s k v = Some (s', amap s k = None) \<and> invar s' \<and> amap s' = (amap s)(k \<mapsto> v)"
    and delete_law: "invar s \<Longrightarrow>
      \<exists>s'. delete s k = Some (s', amap s k \<noteq> None) \<and> invar s' \<and> amap s' = (amap s)(k := None)"
    and fetch_law: "invar s \<Longrightarrow>
      \<exists>s'. fetch s k = Some (s', amap s k) \<and> invar s' \<and> amap s' = amap s"
begin

lemma step_refines:
  assumes "invar s" and "card (dom (amap s)) < cap"
  shows "\<exists>s' r. map_step add replace delete fetch s c = Some (s', r) \<and> invar s' \<and>
    spec_step (amap s) c = Some (amap s', r) \<and> card (dom (amap s')) \<le> Suc (card (dom (amap s)))"
proof (cases c)
  case (MAdd k v)
  then show ?thesis
    using add_law [OF assms, of k v] finite_dom [OF assms(1)] by (auto simp: card_insert_if)
next
  case (MReplace k v)
  then show ?thesis
    using replace_law [OF assms, of k v] finite_dom [OF assms(1)] by (auto simp: card_insert_if)
next
  case (MDelete k)
  then show ?thesis
    using delete_law [OF assms(1), of k] finite_dom [OF assms(1)]
    by (auto intro!: le_SucI card_mono)
next
  case (MFetch k)
  then show ?thesis using fetch_law [OF assms(1), of k] by auto
qed

lemma run_refines:
  assumes "invar s" and "card (dom (amap s)) + length cs \<le> cap"
  shows "\<exists>s' rs. run_steps (map_step add replace delete fetch) s cs = Some (s', rs) \<and> invar s' \<and>
    run_steps spec_step (amap s) cs = Some (amap s', rs)"
  using assms
proof (induction cs arbitrary: s)
  case Nil
  then show ?case by simp
next
  case (Cons c cs)
  have "card (dom (amap s)) < cap" using Cons.prems(2) by simp
  from step_refines [OF Cons.prems(1) this, of c] obtain s1 r where
    s1: "map_step add replace delete fetch s c = Some (s1, r)" "invar s1"
      "spec_step (amap s) c = Some (amap s1, r)" "card (dom (amap s1)) \<le> Suc (card (dom (amap s)))"
    by blast
  have "card (dom (amap s1)) + length cs \<le> cap" using s1(4) Cons.prems(2) by simp
  from Cons.IH [OF s1(2) this] s1 show ?case by auto
qed

end

section \<open>Output queues\<close>

text \<open>
  A queue of bytes that a client of it appends to.  A closed queue takes nothing; \<open>tag\<close> is
  the part of the state that queueing does not touch.
\<close>

locale output_sink =
  fixes invar :: "'s \<Rightarrow> bool"
    and accepts :: "'s \<Rightarrow> bool"
    and out :: "'s \<Rightarrow> 'b list"
    and tag :: "'s \<Rightarrow> 't"
    and put :: "'b list \<Rightarrow> 's \<Rightarrow> 's"
  assumes put_law: "invar s \<Longrightarrow>
    invar (put x s) \<and> accepts (put x s) = accepts s \<and> tag (put x s) = tag s \<and>
    out (put x s) = out s @ (if accepts s then x else [])"
begin

definition emits :: "('s \<Rightarrow> 's) \<Rightarrow> 'b list \<Rightarrow> bool" where
  "emits f x \<longleftrightarrow> (\<forall>s. invar s \<longrightarrow>
     invar (f s) \<and> accepts (f s) = accepts s \<and> tag (f s) = tag s \<and>
     out (f s) = out s @ (if accepts s then x else []))"

lemma emits_put: "emits (put x) x"
  using put_law by (simp add: emits_def)

lemma emits_comp: "emits f x \<Longrightarrow> emits g y \<Longrightarrow> emits (\<lambda>s. g (f s)) (x @ y)"
  by (simp add: emits_def)

lemma emits_id: "emits (\<lambda>s. s) []"
  by (simp add: emits_def)

lemma emits_fold: "(\<And>a. a \<in> set as \<Longrightarrow> emits (f a) (g a)) \<Longrightarrow> emits (fold f as) (concat (map g as))"
proof (induction as)
  case Nil
  then show ?case by (simp add: emits_def)
next
  case (Cons a as)
  then have "emits (\<lambda>s. fold f as (f a s)) (g a @ concat (map g as))"
    by (intro emits_comp) simp_all
  then show ?case by (simp add: comp_def)
qed

lemma emitsD:
  assumes "emits f x" and "invar s"
  shows "invar (f s)" and "accepts (f s) = accepts s" and "tag (f s) = tag s"
    and "out (f s) = out s @ (if accepts s then x else [])"
  using assms by (simp_all add: emits_def)

end

end
