(* ===== verification/Intset.thy ===== *)
theory Intset
  imports Interfaces
begin

text \<open>
  \<open>intset.c\<close>: the packed sorted integer set behind small Redis sets.  The model keeps
  the C layout: a header with the encoding (2, 4 or 8 bytes per element) and the
  length, and the raw contents, in which the elements are little endian two's
  complement integers.  The host is little endian, so \<open>intrev32ifbe\<close> and
  \<open>memrevXXifbe\<close> are the identity; \<open>uint32_t\<close> arithmetic is written with its
  wrap-around.
\<close>

section \<open>State and operations\<close>

record intset =
  is_encoding :: nat
  is_length :: nat
  contents :: bytes

abbreviation (input) INTSET_ENC_INT16 :: nat where "INTSET_ENC_INT16 \<equiv> 2"
abbreviation (input) INTSET_ENC_INT32 :: nat where "INTSET_ENC_INT32 \<equiv> 4"
abbreviation (input) INTSET_ENC_INT64 :: nat where "INTSET_ENC_INT64 \<equiv> 8"

definition intsetValueEncoding :: "int \<Rightarrow> nat" where
  "intsetValueEncoding v =
     (if v < - (2 ^ 31) \<or> v > 2 ^ 31 - 1 then INTSET_ENC_INT64
      else if v < - (2 ^ 15) \<or> v > 2 ^ 15 - 1 then INTSET_ENC_INT32
      else INTSET_ENC_INT16)"

definition intsetGetEncoded :: "intset \<Rightarrow> nat \<Rightarrow> nat \<Rightarrow> int" where
  "intsetGetEncoded is pos enc =
     (if enc = INTSET_ENC_INT64 then to_sint 64 (le_nat (buf_read (8 * pos) 8 (contents is)))
      else if enc = INTSET_ENC_INT32 then to_sint 32 (le_nat (buf_read (4 * pos) 4 (contents is)))
      else to_sint 16 (le_nat (buf_read (2 * pos) 2 (contents is))))"

definition intsetGet_internal :: "intset \<Rightarrow> nat \<Rightarrow> int" where
  "intsetGet_internal is pos = intsetGetEncoded is pos (is_encoding is)"

definition intsetSet_internal :: "intset \<Rightarrow> nat \<Rightarrow> int \<Rightarrow> intset" where
  "intsetSet_internal is pos value =
     (if is_encoding is = INTSET_ENC_INT64 then
        is\<lparr>contents := buf_write (8 * pos) (le_bytes 8 (to_uint 64 value)) (contents is)\<rparr>
      else if is_encoding is = INTSET_ENC_INT32 then
        is\<lparr>contents := buf_write (4 * pos) (le_bytes 4 (to_uint 32 value)) (contents is)\<rparr>
      else
        is\<lparr>contents := buf_write (2 * pos) (le_bytes 2 (to_uint 16 value)) (contents is)\<rparr>)"

definition intsetNew :: intset where
  "intsetNew = \<lparr>is_encoding = INTSET_ENC_INT16, is_length = 0, contents = []\<rparr>"

definition intsetResize :: "(nat \<Rightarrow> byte) \<Rightarrow> intset \<Rightarrow> nat \<Rightarrow> intset" where
  "intsetResize junk is len =
     (let size = (len * is_encoding is) mod 2 ^ 32
      in is\<lparr>contents := realloc_buf junk size (contents is)\<rparr>)"

text \<open>
  The binary search loop of \<open>intsetSearch\<close>.  \<open>min\<close> and \<open>max\<close> are C \<open>int\<close>s that are
  not negative inside the loop, so the unsigned sum of the source cannot wrap.  The
  result is the final \<open>(min, mid, cur)\<close>.
\<close>

function intsetSearch_loop :: "intset \<Rightarrow> int \<Rightarrow> int \<Rightarrow> int \<Rightarrow> int \<Rightarrow> int \<Rightarrow> int \<times> int \<times> int" where
  "intsetSearch_loop is value mn mx mid cur =
     (if mn \<le> mx then
        (let mid = (mn + mx) div 2; cur = intsetGet_internal is (nat mid) in
         if value > cur then intsetSearch_loop is value (mid + 1) mx mid cur
         else if value < cur then intsetSearch_loop is value mn (mid - 1) mid cur
         else (mn, mid, cur))
      else (mn, mid, cur))"
  by pat_completeness auto
termination
  by (relation "measure (\<lambda>(is, value, mn, mx, mid, cur). nat (mx - mn + 1))") auto

declare intsetSearch_loop.simps [simp del]

definition intsetSearch :: "intset \<Rightarrow> int \<Rightarrow> bool \<times> nat" where
  "intsetSearch is value =
     (let mx = to_sint 32 (to_uint 32 (int (is_length is) - 1)) in
      if is_length is = 0 then (False, 0)
      else if value > intsetGet_internal is (nat mx) then (False, is_length is)
      else if value < intsetGet_internal is 0 then (False, 0)
      else
        (let (mn, mid, cur) = intsetSearch_loop is value 0 mx (-1) (-1) in
         if value = cur then (True, nat mid) else (False, nat mn)))"

primrec intsetUpgrade_loop :: "nat \<Rightarrow> intset \<Rightarrow> nat \<Rightarrow> nat \<Rightarrow> intset" where
  "intsetUpgrade_loop 0 is prepend curenc = is"
| "intsetUpgrade_loop (Suc len) is prepend curenc =
     intsetUpgrade_loop len
       (intsetSet_internal is (len + prepend) (intsetGetEncoded is len curenc)) prepend curenc"

definition intsetUpgradeAndAdd :: "(nat \<Rightarrow> byte) \<Rightarrow> intset \<Rightarrow> int \<Rightarrow> intset" where
  "intsetUpgradeAndAdd junk is value =
     (let curenc = is_encoding is;
          newenc = intsetValueEncoding value;
          len = is_length is;
          prepend = (if value < 0 then 1 else 0);
          is = is\<lparr>is_encoding := newenc\<rparr>;
          is = intsetResize junk is ((is_length is + 1) mod 2 ^ 32);
          is = intsetUpgrade_loop len is prepend curenc;
          is = (if prepend \<noteq> 0 then intsetSet_internal is 0 value
                else intsetSet_internal is (is_length is) value)
      in is\<lparr>is_length := (is_length is + 1) mod 2 ^ 32\<rparr>)"

definition intsetMoveTail :: "intset \<Rightarrow> nat \<Rightarrow> nat \<Rightarrow> intset" where
  "intsetMoveTail is from to =
     (let bytes = to_uint 32 (int (is_length is) - int from) in
      if is_encoding is = INTSET_ENC_INT64 then
        is\<lparr>contents := memmove_buf (8 * to) (8 * from) ((bytes * 8) mod 2 ^ 32) (contents is)\<rparr>
      else if is_encoding is = INTSET_ENC_INT32 then
        is\<lparr>contents := memmove_buf (4 * to) (4 * from) ((bytes * 4) mod 2 ^ 32) (contents is)\<rparr>
      else
        is\<lparr>contents := memmove_buf (2 * to) (2 * from) ((bytes * 2) mod 2 ^ 32) (contents is)\<rparr>)"

definition intsetAdd :: "(nat \<Rightarrow> byte) \<Rightarrow> intset \<Rightarrow> int \<Rightarrow> intset \<times> bool" where
  "intsetAdd junk is value =
     (let valenc = intsetValueEncoding value in
      if valenc > is_encoding is then (intsetUpgradeAndAdd junk is value, True)
      else
        (let (found, pos) = intsetSearch is value in
         if found then (is, False)
         else
           (let is = intsetResize junk is ((is_length is + 1) mod 2 ^ 32);
                is = (if pos < is_length is then intsetMoveTail is pos (pos + 1) else is);
                is = intsetSet_internal is pos value
            in (is\<lparr>is_length := (is_length is + 1) mod 2 ^ 32\<rparr>, True))))"

definition intsetRemove :: "(nat \<Rightarrow> byte) \<Rightarrow> intset \<Rightarrow> int \<Rightarrow> intset \<times> bool" where
  "intsetRemove junk is value =
     (let valenc = intsetValueEncoding value; (found, pos) = intsetSearch is value in
      if valenc \<le> is_encoding is \<and> found then
        (let len = is_length is;
             is = (if pos < len - 1 then intsetMoveTail is (pos + 1) pos else is);
             is = intsetResize junk is (len - 1)
         in (is\<lparr>is_length := len - 1\<rparr>, True))
      else (is, False))"

definition intsetFind :: "intset \<Rightarrow> int \<Rightarrow> bool" where
  "intsetFind is value \<longleftrightarrow>
     intsetValueEncoding value \<le> is_encoding is \<and> fst (intsetSearch is value)"

text \<open>\<open>rnd\<close> is what \<open>rand()\<close> returned; the remainder by zero of the empty set is undefined.\<close>

definition intsetRandom :: "nat \<Rightarrow> intset \<Rightarrow> int option" where
  "intsetRandom rnd is =
     (if is_length is = 0 then None else Some (intsetGet_internal is (rnd mod is_length is)))"

definition intsetGet :: "intset \<Rightarrow> nat \<Rightarrow> int option" where
  "intsetGet is pos = (if pos < is_length is then Some (intsetGet_internal is pos) else None)"

definition intsetLen :: "intset \<Rightarrow> nat" where
  "intsetLen is = is_length is"

definition intsetBlobLen :: "intset \<Rightarrow> nat" where
  "intsetBlobLen is = 8 + (is_length is * is_encoding is) mod 2 ^ 32"

section \<open>Abstraction and invariant\<close>

text \<open>
  \<open>slot enc m i\<close> is the \<open>i\<close>-th element of a contents buffer under an encoding;
  \<open>elems\<close> is the sequence an intset stores.  The invariant bounds the length so that
  the byte size of the contents under the 8 byte encoding still fits \<open>uint32_t\<close>.
\<close>

definition slot :: "nat \<Rightarrow> bytes \<Rightarrow> nat \<Rightarrow> int" where
  "slot enc m i = to_sint (8 * enc) (le_nat (buf_read (enc * i) enc m))"

definition elems :: "intset \<Rightarrow> int list" where
  "elems is = map (slot (is_encoding is) (contents is)) [0..<is_length is]"

definition valid_enc :: "nat \<Rightarrow> bool" where
  "valid_enc enc \<longleftrightarrow> enc = 2 \<or> enc = 4 \<or> enc = 8"

definition intset_max :: nat where
  "intset_max = 2 ^ 29 - 1"

definition intset_wf :: "intset \<Rightarrow> bool" where
  "intset_wf is \<longleftrightarrow>
     valid_enc (is_encoding is) \<and>
     length (contents is) = is_encoding is * is_length is \<and>
     is_length is \<le> intset_max \<and>
     sorted_wrt (<) (elems is)"

definition intset_room :: "intset \<Rightarrow> bool" where
  "intset_room is \<longleftrightarrow> is_length is < intset_max"

section \<open>Slots\<close>

lemma valid_encD [simp]: "valid_enc enc \<Longrightarrow> 0 < enc"
  by (auto simp: valid_enc_def)

lemma intsetGetEncoded_slot: "valid_enc enc \<Longrightarrow> intsetGetEncoded is pos enc = slot enc (contents is) pos"
  by (auto simp: intsetGetEncoded_def slot_def valid_enc_def)

lemma intsetGet_slot:
  "valid_enc (is_encoding is) \<Longrightarrow> intsetGet_internal is pos = slot (is_encoding is) (contents is) pos"
  by (simp add: intsetGet_internal_def intsetGetEncoded_slot)

lemma intsetSet_eq:
  "valid_enc (is_encoding is) \<Longrightarrow> intsetSet_internal is pos v =
     is\<lparr>contents := buf_write (is_encoding is * pos)
         (le_bytes (is_encoding is) (to_uint (8 * is_encoding is) v)) (contents is)\<rparr>"
  by (auto simp: intsetSet_internal_def valid_enc_def)

lemma slot_fits: "valid_enc enc \<Longrightarrow> in_sint (8 * enc) (slot enc m i)"
  by (simp add: slot_def to_sint_in_sint)

lemma pow256: "(256::nat) ^ n = 2 ^ (8 * n)"
  by (simp add: power_mult)

lemma le_nat_le_bytes_to_uint: "le_nat (le_bytes enc (to_uint (8 * enc) v)) = to_uint (8 * enc) v"
  by (simp add: le_nat_le_bytes pow256 to_uint_less)

lemma slot_end: "i < n \<Longrightarrow> enc * i + enc \<le> enc * (n::nat)"
  by (metis Suc_leI add.commute mult_Suc_right mult_le_mono2)

lemma slot_write_same:
  assumes "valid_enc enc" and "in_sint (8 * enc) v" and "length m = enc * n" and "i < n"
  shows "slot enc (buf_write (enc * i) (le_bytes enc (to_uint (8 * enc) v)) m) i = v"
  using assms slot_end [of i n enc]
  by (simp add: slot_def buf_read_write_eq le_nat_le_bytes_to_uint to_sint_to_uint)

lemma slot_disjoint: "i \<noteq> j \<Longrightarrow> enc * i + enc \<le> enc * j \<or> enc * j + enc \<le> enc * (i::nat)"
  by (metis linorder_neqE_nat slot_end)

lemma slot_write_other:
  assumes "length m = enc * n" and "i < n" and "j < n" and "i \<noteq> j" and "length bs = enc"
  shows "slot enc (buf_write (enc * i) bs m) j = slot enc m j"
  using assms slot_end [of i n enc] slot_end [of j n enc] slot_disjoint [of j i enc]
  by (simp add: slot_def buf_read_write_other)

lemma slot_realloc:
  assumes "length m = enc * n" and "j < n" and "enc * j + enc \<le> k"
  shows "slot enc (realloc_buf junk k m) j = slot enc m j"
  using assms slot_end [of j n enc] by (simp add: slot_def buf_read_realloc)

lemma slot_move_inside:
  assumes "length m = enc * n" and "d + k \<le> n" and "s + k \<le> n" and "d \<le> j" and "j < d + k"
  shows "slot enc (memmove_buf (enc * d) (enc * s) (enc * k) m) j = slot enc m (s + (j - d))"
proof -
  have "enc * d + enc * k \<le> length m" "enc * s + enc * k \<le> length m"
    using assms by (metis add_mult_distrib2 mult_le_mono2)+
  moreover have "enc * d \<le> enc * j" "enc * j + enc \<le> enc * d + enc * k"
    using assms slot_end [of j "d + k" enc] by (simp_all add: add_mult_distrib2)
  ultimately show ?thesis
    using assms(4) by (simp add: slot_def buf_read_memmove_inside add_mult_distrib2 diff_mult_distrib2)
qed

lemma slot_move_outside:
  assumes "length m = enc * n" and "d + k \<le> n" and "s + k \<le> n" and "j < d \<or> d + k \<le> j" and "j < n"
  shows "slot enc (memmove_buf (enc * d) (enc * s) (enc * k) m) j = slot enc m j"
proof -
  have "enc * d + enc * k \<le> length m" "enc * s + enc * k \<le> length m"
    using assms by (metis add_mult_distrib2 mult_le_mono2)+
  moreover have "enc * j + enc \<le> enc * d \<or> enc * d + enc * k \<le> enc * j"
    using assms(4) slot_end [of j d enc] by (metis add_mult_distrib2 mult_le_mono2)
  ultimately show ?thesis
    using assms slot_end [of j n enc] by (simp add: slot_def buf_read_memmove_outside)
qed


section \<open>Searching\<close>

lemma length_elems [simp]: "length (elems is) = is_length is"
  by (simp add: elems_def)

lemma intsetGet_elems:
  "valid_enc (is_encoding is) \<Longrightarrow> i < is_length is \<Longrightarrow> intsetGet_internal is i = elems is ! i"
  by (simp add: intsetGet_slot elems_def)

text \<open>
  The loop invariant of the binary search: everything before \<open>mn\<close> is smaller than the
  value and everything after \<open>mx\<close> is larger; at the end either \<open>cur\<close> is the value,
  found at \<open>mid\<close>, or \<open>mn\<close> is the insertion point.
\<close>

lemma intsetSearch_loop_spec:
  assumes "valid_enc (is_encoding s)" and "sorted_wrt (<) (elems s)"
    and "0 \<le> mn" and "mx < int (is_length s)" and "mn \<le> mx + 1"
    and "\<forall>i < nat mn. elems s ! i < v"
    and "\<forall>i < is_length s. mx < int i \<longrightarrow> v < elems s ! i"
    and "mn \<le> mx \<or> cur \<noteq> v"
    and "intsetSearch_loop s v mn mx mid cur = (mn', mid', cur')"
  shows "(cur' = v \<and> 0 \<le> mid' \<and> nat mid' < is_length s \<and> elems s ! nat mid' = v) \<or>
         (cur' \<noteq> v \<and> 0 \<le> mn' \<and> nat mn' \<le> is_length s \<and>
          (\<forall>i < nat mn'. elems s ! i < v) \<and>
          (\<forall>i < is_length s. nat mn' \<le> i \<longrightarrow> v < elems s ! i))"
  using assms
proof (induction s v mn mx mid cur rule: intsetSearch_loop.induct)
  case (1 s v mn mx mid cur)
  show ?case
  proof (cases "mn \<le> mx")
    case False
    then have "mx = mn - 1" and "(mn', mid', cur') = (mn, mid, cur)"
      using "1.prems"(5,9) by (auto simp: intsetSearch_loop.simps [of s v mn mx mid cur])
    with False "1.prems" show ?thesis by auto
  next
    case True
    define md where "md = (mn + mx) div 2"
    have md: "mn \<le> md" "md \<le> mx" "0 \<le> md" "nat md < is_length s"
      using True "1.prems"(3,4) by (auto simp: md_def)
    define cu where "cu = intsetGet_internal s (nat md)"
    have cu: "cu = elems s ! nat md"
      using md "1.prems"(1) by (simp add: cu_def intsetGet_elems)
    note unf = intsetSearch_loop.simps [of s v mn mx mid cur, folded md_def, folded cu_def]
    consider "v > cu" | "v < cu" | "v = cu" by linarith
    then show ?thesis
    proof cases
      case 1
      have "\<forall>i < nat (md + 1). elems s ! i < v"
        using 1 md cu "1.prems"(2) sorted_wrt_nth_less [of "(<)" "elems s" _ "nat md"]
        by (smt (verit) length_elems zless_nat_eq_int_zless not_less_iff_gr_or_eq nat_eq_iff
              less_trans)
      moreover have "intsetSearch_loop s v (md + 1) mx md cu = (mn', mid', cur')"
        using "1.prems"(9) True 1 by (simp add: unf Let_def md_def [symmetric] cu_def [symmetric])
      ultimately show ?thesis
        using "1.IH"(1) [OF True md_def cu_def 1] "1.prems" md 1 by simp
    next
      case 2
      have "\<forall>i < is_length s. md - 1 < int i \<longrightarrow> v < elems s ! i"
        using 2 md cu "1.prems"(2) sorted_wrt_nth_less [of "(<)" "elems s" "nat md"]
        by (smt (verit) length_elems zless_nat_eq_int_zless nat_less_iff nat_int less_trans)
      moreover have "intsetSearch_loop s v mn (md - 1) md cu = (mn', mid', cur')"
        using "1.prems"(9) True 2 by (simp add: unf Let_def md_def [symmetric] cu_def [symmetric])
      ultimately show ?thesis
        using "1.IH"(2) [OF True md_def cu_def _ 2] "1.prems" md 2 by simp
    next
      case 3
      then have "(mn', mid', cur') = (mn, md, cu)"
        using "1.prems"(9) True
        by (simp add: unf [unfolded 3] Let_def md_def [symmetric] cu_def [symmetric])
      with 3 md cu show ?thesis by simp
    qed
  qed
qed


lemma to_sint32_pred: "0 < n \<Longrightarrow> n < 2 ^ 31 \<Longrightarrow> to_sint 32 (to_uint 32 (int n - 1)) = int n - 1"
  by (rule to_sint_to_uint) (auto simp: in_sint_def)

lemma intsetSearch_spec:
  assumes wf: "intset_wf s" and res: "intsetSearch s v = (found, pos)"
  shows "if found then pos < is_length s \<and> elems s ! pos = v
         else pos \<le> is_length s \<and> (\<forall>i < pos. elems s ! i < v) \<and>
              (\<forall>i < is_length s. pos \<le> i \<longrightarrow> v < elems s ! i)"
proof -
  have enc: "valid_enc (is_encoding s)" and srt: "sorted_wrt (<) (elems s)"
    and len: "is_length s < 2 ^ 31"
    using wf by (auto simp: intset_wf_def intset_max_def)
  show ?thesis
  proof (cases "is_length s = 0")
    case True
    with res show ?thesis by (auto simp: intsetSearch_def)
  next
    case False
    let ?n = "is_length s"
    have mx: "to_sint 32 (to_uint 32 (int ?n - 1)) = int ?n - 1"
      using False len by (simp add: to_sint32_pred)
    have last: "intsetGet_internal s (nat (int ?n - 1)) = elems s ! (?n - 1)"
      using False enc by (simp add: intsetGet_elems nat_diff_distrib)
    have first: "intsetGet_internal s 0 = elems s ! 0"
      using False enc by (simp add: intsetGet_elems)
    have mono: "i < j \<Longrightarrow> j < ?n \<Longrightarrow> elems s ! i < elems s ! j" for i j
      using srt by (simp add: sorted_wrt_nth_less)
    consider "v > elems s ! (?n - 1)" | "v < elems s ! 0"
      | "\<not> v > elems s ! (?n - 1)" "\<not> v < elems s ! 0" by linarith
    then show ?thesis
    proof cases
      case 1
      then have "\<forall>i < ?n. elems s ! i < v"
        using mono [of _ "?n - 1"] False
        by (metis Suc_pred' diff_less less_SucE less_trans neq0_conv zero_less_one)
      with 1 res False show ?thesis by (auto simp: intsetSearch_def mx last Let_def)
    next
      case 2
      then have "\<forall>i < ?n. v < elems s ! i"
        using mono [of 0] by (metis less_trans neq0_conv)
      moreover have "\<not> elems s ! (?n - 1) < v"
        using calculation False by (metis diff_less neq0_conv not_less_iff_gr_or_eq zero_less_one)
      ultimately show ?thesis
        using 2 res False by (auto simp: intsetSearch_def mx last first Let_def)
    next
      case 3
      obtain mn' mid' cur' where
        lp: "intsetSearch_loop s v 0 (int ?n - 1) (-1) (-1) = (mn', mid', cur')"
        by (metis prod_cases3)
      show ?thesis
        using intsetSearch_loop_spec [OF enc srt _ _ _ _ _ _ lp] 3 res False lp
        by (auto simp: intsetSearch_def mx last first Let_def split: if_splits)
    qed
  qed
qed


section \<open>Encodings\<close>

lemma intsetValueEncoding_valid: "valid_enc (intsetValueEncoding v)"
  by (simp add: intsetValueEncoding_def valid_enc_def)

lemma intsetValueEncoding_fits:
  assumes "in_sint 64 v" and "intsetValueEncoding v \<le> enc" and "valid_enc enc"
  shows "in_sint (8 * enc) v"
  using assms by (auto simp: intsetValueEncoding_def valid_enc_def in_sint_def split: if_splits)

lemma intsetValueEncoding_le_iff:
  assumes "in_sint 64 v" and "valid_enc enc"
  shows "intsetValueEncoding v \<le> enc \<longleftrightarrow> in_sint (8 * enc) v"
  using assms by (auto simp: intsetValueEncoding_def valid_enc_def in_sint_def split: if_splits)

lemma elems_fit: "valid_enc (is_encoding s) \<Longrightarrow> x \<in> set (elems s) \<Longrightarrow> in_sint (8 * is_encoding s) x"
  by (auto simp: elems_def slot_fits)

text \<open>A value that needs a wider encoding lies outside the range of the elements, on the
  side its sign tells: this is why an upgrade prepends or appends without searching.\<close>

lemma upgrade_outside:
  assumes "valid_enc (is_encoding s)" and "is_encoding s < intsetValueEncoding v"
    and "in_sint 64 v" and "x \<in> set (elems s)"
  shows "if v < 0 then v < x else x < v"
proof -
  have "\<not> in_sint (8 * is_encoding s) v" and "in_sint (8 * is_encoding s) x"
    using assms intsetValueEncoding_le_iff [of v "is_encoding s"] elems_fit by auto
  then show ?thesis by (auto simp: in_sint_def)
qed

section \<open>Insertion and removal at a position\<close>

lemma realloc_size:
  "valid_enc enc \<Longrightarrow> 8 * n < 2 ^ 32 \<Longrightarrow> (n * enc) mod 2 ^ 32 = enc * (n::nat)"
  by (auto simp: valid_enc_def)

lemma intsetResize_eq:
  assumes "valid_enc (is_encoding s)" and "8 * n < 2 ^ 32"
  shows "intsetResize junk s n = s\<lparr>contents := realloc_buf junk (is_encoding s * n) (contents s)\<rparr>"
  by (simp only: intsetResize_def Let_def realloc_size [OF assms])

lemma intsetMoveTail_eq:
  assumes "valid_enc (is_encoding s)" and "from \<le> is_length s" and "8 * is_length s < 2 ^ 32"
  shows "intsetMoveTail s from to = s\<lparr>contents :=
     memmove_buf (is_encoding s * to) (is_encoding s * from)
       (is_encoding s * (is_length s - from)) (contents s)\<rparr>"
proof -
  have "int (is_length s) - int from = int (is_length s - from)"
    using assms(2) by simp
  moreover have "int (is_length s - from) mod 2 ^ 32 = int (is_length s - from)"
    using assms(3) by (intro mod_pos_pos_trivial) auto
  ultimately have "to_uint 32 (int (is_length s) - int from) = is_length s - from"
    by (metis nat_int to_uint_def)
  then show ?thesis
    using assms unfolding intsetMoveTail_def valid_enc_def by (elim disjE) (simp_all add: mult.commute)
qed

lemma elems_insert:
  assumes enc: "valid_enc enc" and m: "length m = enc * n" and pos: "pos \<le> n"
    and v: "in_sint (8 * enc) v"
    and m': "m' = realloc_buf junk (enc * (n + 1)) m"
    and m'': "m'' = (if pos < n then memmove_buf (enc * (pos + 1)) (enc * pos) (enc * (n - pos)) m' else m')"
  shows "map (slot enc (buf_write (enc * pos) (le_bytes enc (to_uint (8 * enc) v)) m'')) [0..<n + 1]
         = take pos (map (slot enc m) [0..<n]) @ v # drop pos (map (slot enc m) [0..<n])"
    (is "?l = ?r")
proof (rule nth_equalityI)
  show "length ?l = length ?r" using pos by simp
next
  fix i assume "i < length ?l"
  then have i: "i < n + 1" by simp
  have l': "length m' = enc * (n + 1)" by (simp add: m')
  have "enc * (pos + 1) + enc * (n - pos) = enc * (n + 1)" "enc * pos + enc * (n - pos) = enc * n"
    using pos by (simp_all only: add_mult_distrib2 [symmetric], simp_all)
  then have l'': "length m'' = enc * (n + 1)" by (simp add: m'' l')
  have old: "slot enc m' j = slot enc m j" if "j < n" for j
    unfolding m' by (rule slot_realloc [OF m that]) (use that slot_end [of j "n + 1" enc] in simp)
  have mv: "slot enc m'' j = (if pos < j then slot enc m (j - 1) else slot enc m j)"
    if "j < n + 1" "j \<noteq> pos" for j
  proof (cases "pos < n")
    case True
    then have mm: "m'' = memmove_buf (enc * (pos + 1)) (enc * pos) (enc * (n - pos)) m'"
      by (simp add: m'')
    show ?thesis
    proof (cases "pos < j")
      case jp: True
      have "slot enc m'' j = slot enc m' (pos + (j - (pos + 1)))"
        unfolding mm by (rule slot_move_inside [OF l']) (use True jp that in auto)
      with jp that show ?thesis by (simp add: old)
    next
      case False
      have "slot enc m'' j = slot enc m' j"
        unfolding mm by (rule slot_move_outside [OF l']) (use True False that in auto)
      with False that True show ?thesis by (simp add: old)
    qed
  next
    case False
    with that pos show ?thesis by (simp add: m'' old)
  qed
  show "?l ! i = ?r ! i"
  proof (cases "i = pos")
    case True
    have "?l ! i = v"
      using slot_write_same [OF enc v l'', of pos] i True by (simp del: upt_Suc)
    with True pos show ?thesis by (simp add: nth_append)
  next
    case False
    have "?l ! i = slot enc m'' i"
      using slot_write_other [OF l'', of pos i] i False pos by (simp del: upt_Suc)
    also have "\<dots> = ?r ! i"
    proof (cases "i < pos")
      case True
      with i pos show ?thesis by (simp add: mv nth_append)
    next
      case False
      then obtain k where "i = pos + Suc k"
        using \<open>i \<noteq> pos\<close> by (metis add_Suc_right less_imp_Suc_add linorder_neqE_nat)
      with i pos show ?thesis by (simp add: mv nth_append)
    qed
    finally show ?thesis .
  qed
qed

lemma elems_delete:
  assumes enc: "valid_enc enc" and m: "length m = enc * n" and pos: "pos < n"
    and m': "m' = (if pos < n - 1 then memmove_buf (enc * pos) (enc * (pos + 1)) (enc * (n - (pos + 1))) m else m)"
  shows "map (slot enc (realloc_buf junk (enc * (n - 1)) m')) [0..<n - 1]
         = take pos (map (slot enc m) [0..<n]) @ drop (Suc pos) (map (slot enc m) [0..<n])"
    (is "?l = ?r")
proof (rule nth_equalityI)
  show "length ?l = length ?r" using pos by simp
next
  fix i assume "i < length ?l"
  then have i: "i < n - 1" by simp
  have "enc * pos + enc * (n - (pos + 1)) \<le> enc * n" "enc * (pos + 1) + enc * (n - (pos + 1)) \<le> enc * n"
    using pos by (simp_all only: add_mult_distrib2 [symmetric], simp_all)
  then have l': "length m' = enc * n" by (simp add: m' m del: mult_Suc_right)
  have "?l ! i = slot enc m' i"
    using i slot_realloc [OF l', of i "enc * (n - 1)"] slot_end [of i "n - 1" enc] by simp
  also have "\<dots> = (if i < pos then slot enc m i else slot enc m (Suc i))"
  proof (cases "pos < n - 1")
    case True
    then have mm: "m' = memmove_buf (enc * pos) (enc * (pos + 1)) (enc * (n - (pos + 1))) m"
      by (simp add: m')
    show ?thesis
    proof (cases "i < pos")
      case ip: True
      have "slot enc m' i = slot enc m i"
        unfolding mm by (rule slot_move_outside [OF m]) (use True ip i in auto)
      with ip show ?thesis by simp
    next
      case False
      have "slot enc m' i = slot enc m (pos + 1 + (i - pos))"
        unfolding mm by (rule slot_move_inside [OF m]) (use True False i pos in auto)
      with False show ?thesis by simp
    qed
  next
    case False
    with i show ?thesis by (simp add: m')
  qed
  finally show "?l ! i = ?r ! i" using i pos by (auto simp: nth_append)
qed


section \<open>Upgrading\<close>

lemma intsetUpgrade_loop_frame:
  assumes "valid_enc (is_encoding s)" and "length (contents s) = is_encoding s * (n + 1)"
    and "k \<le> n" and "p \<le> 1"
  shows "is_encoding (intsetUpgrade_loop k s p curenc) = is_encoding s \<and>
         is_length (intsetUpgrade_loop k s p curenc) = is_length s \<and>
         length (contents (intsetUpgrade_loop k s p curenc)) = length (contents s)"
  using assms
proof (induction k arbitrary: s)
  case (Suc k)
  let ?s1 = "intsetSet_internal s (k + p) (intsetGetEncoded s k curenc)"
  have "length (contents ?s1) = is_encoding s * (n + 1)"
    using Suc.prems slot_end [of "k + p" "n + 1" "is_encoding s"] by (simp add: intsetSet_eq)
  moreover have "is_encoding ?s1 = is_encoding s" "is_length ?s1 = is_length s"
    using Suc.prems by (simp_all add: intsetSet_eq)
  ultimately show ?case using Suc.IH [of ?s1] Suc.prems by simp
qed simp

text \<open>
  The back-to-front copy reads every old slot before the wider new slots overwrite it:
  new slot \<open>k + p\<close> starts at byte \<open>newenc * (k + p)\<close>, past the end of old slot \<open>k - 1\<close>.
\<close>

lemma intsetUpgrade_loop_slots:
  assumes "valid_enc (is_encoding s)" and "valid_enc curenc" and "curenc \<le> is_encoding s"
    and "length (contents s) = is_encoding s * (n + 1)" and "k \<le> n" and "p \<le> 1" and "i < n"
  shows "slot (is_encoding s) (contents (intsetUpgrade_loop k s p curenc)) (i + p) =
         (if i < k then slot curenc (contents s) i else slot (is_encoding s) (contents s) (i + p))"
  using assms
proof (induction k arbitrary: s)
  case (Suc k)
  let ?v = "slot curenc (contents s) k" and ?e = "is_encoding s"
  define s1 where "s1 = intsetSet_internal s (k + p) ?v"
  have in_new: "k + p < n + 1" "i + p < n + 1" using Suc.prems by auto
  have s1: "is_encoding s1 = ?e"
    "contents s1 = buf_write (?e * (k + p)) (le_bytes ?e (to_uint (8 * ?e) ?v)) (contents s)"
    using Suc.prems by (simp_all add: s1_def intsetSet_eq)
  have len1: "length (contents s1) = ?e * (n + 1)"
    using Suc.prems slot_end [OF in_new(1), of ?e] by (simp add: s1)
  have "in_sint (8 * ?e) ?v"
    using in_sint_mono [OF slot_fits [OF Suc.prems(2)]] Suc.prems(2,3) by simp
  then have wr: "slot ?e (contents s1) (k + p) = ?v"
    using slot_write_same [OF Suc.prems(1) _ Suc.prems(4) in_new(1)] by (simp add: s1)
  have keep: "slot ?e (contents s1) (i + p) = slot ?e (contents s) (i + p)" if "i \<noteq> k"
    using slot_write_other [OF Suc.prems(4) in_new] that by (simp add: s1)
  have old: "slot curenc (contents s1) i = slot curenc (contents s) i" if "i < k"
  proof -
    have "curenc * i + curenc \<le> curenc * k" using slot_end [OF that] .
    also have "\<dots> \<le> ?e * (k + p)" using Suc.prems(3) by (intro mult_le_mono) auto
    finally have b: "curenc * i + curenc \<le> ?e * (k + p)" .
    have e: "?e * (k + p) + ?e \<le> length (contents s)"
      using slot_end [OF in_new(1), of ?e] Suc.prems(4) by simp
    show ?thesis unfolding slot_def s1(2)
      by (subst buf_read_write_other) (use b e in auto)
  qed
  have "intsetUpgrade_loop (Suc k) s p curenc = intsetUpgrade_loop k s1 p curenc"
    using Suc.prems by (simp add: s1_def intsetGetEncoded_slot)
  moreover have "slot ?e (contents (intsetUpgrade_loop k s1 p curenc)) (i + p) =
      (if i < k then slot curenc (contents s1) i else slot ?e (contents s1) (i + p))"
    using Suc.IH [of s1] Suc.prems s1(1) len1 by simp
  ultimately show ?case using wr keep old by (auto simp: less_Suc_eq)
qed simp

lemma intsetUpgradeAndAdd_spec:
  assumes wf: "intset_wf s" and room: "intset_room s"
    and up: "is_encoding s < intsetValueEncoding v" and v: "in_sint 64 v"
  shows "elems (intsetUpgradeAndAdd junk s v) = (if v < 0 then v # elems s else elems s @ [v]) \<and>
         is_encoding (intsetUpgradeAndAdd junk s v) = intsetValueEncoding v \<and>
         is_length (intsetUpgradeAndAdd junk s v) = is_length s + 1 \<and>
         length (contents (intsetUpgradeAndAdd junk s v)) = intsetValueEncoding v * (is_length s + 1)"
proof -
  let ?n = "is_length s" and ?e = "intsetValueEncoding v" and ?c = "is_encoding s"
  define p :: nat where "p = (if v < 0 then 1 else 0)"
  define s1 where "s1 = s\<lparr>is_encoding := ?e, contents := realloc_buf junk (?e * (?n + 1)) (contents s)\<rparr>"
  define s2 where "s2 = intsetUpgrade_loop ?n s1 p ?c"
  define q where "q = (if v < 0 then 0 else ?n)"
  have enc: "valid_enc ?c" "valid_enc ?e" and len: "length (contents s) = ?c * ?n"
    using wf by (auto simp: intset_wf_def intsetValueEncoding_valid)
  have n1: "(?n + 1) mod 2 ^ 32 = ?n + 1" "8 * (?n + 1) < 2 ^ 32"
    using room by (auto simp: intset_room_def intset_max_def)
  have s1: "is_encoding s1 = ?e" "is_length s1 = ?n" "length (contents s1) = ?e * (?n + 1)"
    by (simp_all add: s1_def)
  have p: "p \<le> 1" by (simp add: p_def)
  have fr: "is_encoding s2 = ?e" "is_length s2 = ?n" "length (contents s2) = ?e * (?n + 1)"
    using intsetUpgrade_loop_frame [of s1 ?n ?n p ?c] enc s1 p by (simp_all add: s2_def)
  have old: "slot ?c (contents s1) i = slot ?c (contents s) i" if "i < ?n" for i
  proof -
    have "?c * i + ?c \<le> ?c * ?n" using that by (rule slot_end)
    also have "\<dots> \<le> ?e * (?n + 1)" using up by (intro mult_le_mono) auto
    finally have b: "?c * i + ?c \<le> ?e * (?n + 1)" .
    show ?thesis using slot_realloc [OF len that b, of junk] by (simp add: s1_def)
  qed
  have mv: "slot ?e (contents s2) (i + p) = slot ?c (contents s) i" if "i < ?n" for i
    using intsetUpgrade_loop_slots [of s1 ?c ?n ?n p i] enc s1 up p that old by (simp add: s2_def)
  have q: "q < ?n + 1" by (simp add: q_def)
  have "in_sint (8 * ?e) v" using intsetValueEncoding_fits [OF v _ enc(2)] by simp
  then have wr: "slot ?e (buf_write (?e * q) (le_bytes ?e (to_uint (8 * ?e) v)) (contents s2)) q = v"
    using slot_write_same [OF enc(2) _ fr(3) q] by simp
  have oth: "slot ?e (buf_write (?e * q) (le_bytes ?e (to_uint (8 * ?e) v)) (contents s2)) j
      = slot ?e (contents s2) j" if "j < ?n + 1" "j \<noteq> q" for j
    using slot_write_other [OF fr(3) q that(1)] that(2) by auto
  have eq: "intsetUpgradeAndAdd junk s v =
      s2\<lparr>contents := buf_write (?e * q) (le_bytes ?e (to_uint (8 * ?e) v)) (contents s2),
         is_length := ?n + 1\<rparr>"
  proof -
    have rl: "is_length (s\<lparr>is_encoding := ?e\<rparr>) = ?n" by simp
    have rs: "intsetResize junk (s\<lparr>is_encoding := ?e\<rparr>) ((?n + 1) mod 2 ^ 32) = s1"
      using n1(2) enc unfolding n1(1) by (subst intsetResize_eq) (simp_all add: s1_def)
    have "intsetUpgradeAndAdd junk s v =
        (let t = intsetSet_internal s2 q v in t\<lparr>is_length := (is_length t + 1) mod 2 ^ 32\<rparr>)"
      using fr(2) unfolding intsetUpgradeAndAdd_def Let_def p_def [symmetric]
      by (simp only: rl rs s2_def [symmetric]) (simp add: p_def q_def)
    also have "\<dots> = s2\<lparr>contents := buf_write (?e * q) (le_bytes ?e (to_uint (8 * ?e) v)) (contents s2),
         is_length := ?n + 1\<rparr>"
      using n1(1) enc fr by (simp add: intsetSet_eq)
    finally show ?thesis .
  qed
  have "elems (intsetUpgradeAndAdd junk s v) = (if v < 0 then v # elems s else elems s @ [v])"
  proof (rule nth_equalityI)
    fix i assume "i < length (elems (intsetUpgradeAndAdd junk s v))"
    then have i: "i < ?n + 1" by (simp add: eq)
    have "elems (intsetUpgradeAndAdd junk s v) ! i =
        (if i = q then v else slot ?e (contents s2) i)"
      using i wr oth [of i] by (auto simp: elems_def eq fr simp del: upt_Suc)
    also have "\<dots> = (if v < 0 then v # elems s else elems s @ [v]) ! i"
      using i mv [of i] mv [of "i - 1"]
      by (auto simp: q_def p_def nth_append nth_Cons elems_def split: nat.splits)
    finally show "elems (intsetUpgradeAndAdd junk s v) ! i =
        (if v < 0 then v # elems s else elems s @ [v]) ! i" .
  qed (simp add: eq)
  moreover have "?e * q + ?e \<le> ?e * (?n + 1)" using q by (rule slot_end)
  ultimately show ?thesis by (simp add: eq fr)
qed


section \<open>The operations on sorted sequences\<close>

lemma sorted_insert_at:
  fixes xs :: "int list"
  assumes "sorted_wrt (<) xs" and "pos \<le> length xs" and "\<forall>i < pos. xs ! i < v"
    and "\<forall>i < length xs. pos \<le> i \<longrightarrow> v < xs ! i"
  shows "sorted_wrt (<) (take pos xs @ v # drop pos xs)"
proof -
  have "sorted_wrt (<) (take pos xs @ drop pos xs)" using assms(1) by simp
  then have s: "sorted_wrt (<) (take pos xs)" "sorted_wrt (<) (drop pos xs)"
    "\<forall>x \<in> set (take pos xs). \<forall>y \<in> set (drop pos xs). x < y"
    unfolding sorted_wrt_append by blast+
  have "\<forall>x \<in> set (take pos xs). x < v" using assms(2,3) by (auto simp: in_set_conv_nth)
  moreover have "\<forall>y \<in> set (drop pos xs). v < y"
    using assms(2,4) by (auto simp: in_set_conv_nth)
  ultimately show ?thesis using s by (simp add: sorted_wrt_append)
qed

lemma set_insert_at: "set (take pos xs @ v # drop pos xs) = insert v (set xs)"
  by (metis Un_insert_right append_take_drop_id list.simps(15) set_append)

lemma sorted_delete_at:
  fixes xs :: "int list"
  assumes "sorted_wrt (<) xs" and "pos < length xs"
  shows "sorted_wrt (<) (take pos xs @ drop (Suc pos) xs)"
    and "set (take pos xs @ drop (Suc pos) xs) = set xs - {xs ! pos}"
proof -
  have eq: "xs = take pos xs @ xs ! pos # drop (Suc pos) xs" using assms(2) by (simp add: id_take_nth_drop)
  have s: "sorted_wrt (<) (take pos xs @ xs ! pos # drop (Suc pos) xs)" using assms(1) eq by simp
  then show "sorted_wrt (<) (take pos xs @ drop (Suc pos) xs)" by (simp add: sorted_wrt_append)
  have "xs ! pos \<notin> set (take pos xs)" "xs ! pos \<notin> set (drop (Suc pos) xs)"
    using s by (auto simp: sorted_wrt_append)
  moreover have "set xs = set (take pos xs) \<union> {xs ! pos} \<union> set (drop (Suc pos) xs)"
    by (subst eq) (auto simp del: append_take_drop_id)
  ultimately show "set (take pos xs @ drop (Suc pos) xs) = set xs - {xs ! pos}" by auto
qed

lemma intsetSearch_found: "intset_wf s \<Longrightarrow> fst (intsetSearch s v) \<longleftrightarrow> v \<in> set (elems s)"
  using intsetSearch_spec [of s v "fst (intsetSearch s v)" "snd (intsetSearch s v)"]
  by (auto simp: in_set_conv_nth split: if_splits) (metis linorder_le_less_linear order_less_irrefl)

lemma intsetFind_iff:
  assumes "intset_wf s" and "in_sint 64 v"
  shows "intsetFind s v \<longleftrightarrow> v \<in> set (elems s)"
proof -
  have "valid_enc (is_encoding s)" using assms(1) by (simp add: intset_wf_def)
  then have "v \<in> set (elems s) \<Longrightarrow> intsetValueEncoding v \<le> is_encoding s"
    using elems_fit intsetValueEncoding_le_iff [OF assms(2)] by blast
  then show ?thesis using intsetSearch_found [OF assms(1)] by (auto simp: intsetFind_def)
qed

lemma intsetAdd_insert:
  assumes wf: "intset_wf s" and room: "intset_room s" and v: "in_sint 64 v"
    and narrow: "intsetValueEncoding v \<le> is_encoding s"
    and srch: "intsetSearch s v = (False, pos)"
  shows "\<exists>t. intsetAdd junk s v = (t, True) \<and> elems t = take pos (elems s) @ v # drop pos (elems s) \<and>
     is_encoding t = is_encoding s \<and> is_length t = is_length s + 1 \<and>
     length (contents t) = is_encoding s * (is_length s + 1)"
proof -
  let ?e = "is_encoding s" and ?n = "is_length s"
  define m1 where "m1 = realloc_buf junk (?e * (?n + 1)) (contents s)"
  define m2 where "m2 = (if pos < ?n then memmove_buf (?e * (pos + 1)) (?e * pos) (?e * (?n - pos)) m1 else m1)"
  define m3 where "m3 = buf_write (?e * pos) (le_bytes ?e (to_uint (8 * ?e) v)) m2"
  have enc: "valid_enc ?e" and len: "length (contents s) = ?e * ?n"
    using wf by (auto simp: intset_wf_def)
  have n1: "(?n + 1) mod 2 ^ 32 = ?n + 1" "8 * (?n + 1) < 2 ^ 32" "8 * ?n < 2 ^ 32"
    using room by (auto simp: intset_room_def intset_max_def)
  have pos: "pos \<le> ?n" using intsetSearch_spec [OF wf srch] by simp
  have "intsetAdd junk s v = (let u = intsetResize junk s ((?n + 1) mod 2 ^ 32);
          u = (if pos < is_length u then intsetMoveTail u pos (pos + 1) else u);
          u = intsetSet_internal u pos v in (u\<lparr>is_length := (is_length u + 1) mod 2 ^ 32\<rparr>, True))"
    using narrow srch by (simp add: intsetAdd_def)
  also have "intsetResize junk s ((?n + 1) mod 2 ^ 32) = s\<lparr>contents := m1\<rparr>"
    unfolding n1(1) using n1(2) enc by (subst intsetResize_eq) (simp_all add: m1_def)
  finally have add: "intsetAdd junk s v = (s\<lparr>contents := m3, is_length := ?n + 1\<rparr>, True)"
    using n1(1,3) enc pos by (auto simp: Let_def intsetMoveTail_eq intsetSet_eq m2_def m3_def)
  have "map (slot ?e m3) [0..<?n + 1] = take pos (elems s) @ v # drop pos (elems s)"
    unfolding m3_def elems_def
    by (rule elems_insert [OF enc len pos intsetValueEncoding_fits [OF v narrow enc] m1_def m2_def])
  moreover have "length m3 = ?e * (?n + 1)"
  proof -
    have a: "?e * (pos + 1) + ?e * (?n - pos) = ?e * (?n + 1)"
      using pos by (simp only: add_mult_distrib2 [symmetric], simp)
    have "?e * pos + ?e * (?n - pos) \<le> ?e * (?n + 1)"
      using pos by (simp only: add_mult_distrib2 [symmetric], simp)
    then have "length m2 = ?e * (?n + 1)" using a by (simp add: m2_def m1_def)
    then show ?thesis using slot_end [of pos "?n + 1" ?e] pos by (simp add: m3_def)
  qed
  ultimately show ?thesis by (simp add: add elems_def)
qed


lemma intsetAdd_law:
  assumes wf: "intset_wf s" and v: "in_sint 64 v" and room: "v \<in> set (elems s) \<or> intset_room s"
  shows "intset_wf (fst (intsetAdd junk s v)) \<and>
         set (elems (fst (intsetAdd junk s v))) = insert v (set (elems s)) \<and>
         (snd (intsetAdd junk s v) \<longleftrightarrow> v \<notin> set (elems s))"
proof -
  have enc: "valid_enc (is_encoding s)" and srt: "sorted_wrt (<) (elems s)"
    using wf by (auto simp: intset_wf_def)
  show ?thesis
  proof (cases "intsetValueEncoding v \<le> is_encoding s")
    case False
    then have up: "is_encoding s < intsetValueEncoding v" by simp
    note out = upgrade_outside [OF enc up v]
    then have "v \<notin> set (elems s)" by fastforce
    moreover then have rm: "intset_room s" using room by simp
    have "sorted_wrt (<) (if v < 0 then v # elems s else elems s @ [v])"
      using srt out by (auto simp: sorted_wrt_append split: if_splits)
    ultimately show ?thesis
      using intsetUpgradeAndAdd_spec [OF wf rm up v, of junk] up rm
      by (auto simp: intsetAdd_def intset_wf_def intsetValueEncoding_valid intset_room_def)
  next
    case narrow: True
    obtain found pos where srch: "intsetSearch s v = (found, pos)" by fastforce
    have found: "found \<longleftrightarrow> v \<in> set (elems s)" using intsetSearch_found [OF wf, of v] srch by simp
    show ?thesis
    proof (cases found)
      case True
      then show ?thesis using narrow srch wf found by (auto simp: intsetAdd_def)
    next
      case False
      then have rm: "intset_room s" and srch': "intsetSearch s v = (False, pos)"
        using room found srch by auto
      obtain t where t: "intsetAdd junk s v = (t, True)"
        "elems t = take pos (elems s) @ v # drop pos (elems s)" "is_encoding t = is_encoding s"
        "is_length t = is_length s + 1" "length (contents t) = is_encoding s * (is_length s + 1)"
        using intsetAdd_insert [OF wf rm v narrow srch'] by blast
      have "sorted_wrt (<) (elems t)"
        using sorted_insert_at [OF srt] intsetSearch_spec [OF wf srch'] by (simp add: t(2))
      then show ?thesis
        using t enc rm False found set_insert_at [of pos "elems s" v]
        by (simp add: intset_wf_def intset_room_def)
    qed
  qed
qed

lemma intsetRemove_law:
  assumes wf: "intset_wf s" and v: "in_sint 64 v"
  shows "intset_wf (fst (intsetRemove junk s v)) \<and>
         set (elems (fst (intsetRemove junk s v))) = set (elems s) - {v} \<and>
         (snd (intsetRemove junk s v) \<longleftrightarrow> v \<in> set (elems s))"
proof (cases "intsetFind s v")
  case False
  then have "intsetRemove junk s v = (s, False)"
    by (auto simp: intsetRemove_def intsetFind_def split: prod.splits)
  then show ?thesis using wf False intsetFind_iff [OF wf v] by simp
next
  case True
  let ?e = "is_encoding s" and ?n = "is_length s"
  obtain pos where srch: "intsetSearch s v = (True, pos)" and narrow: "intsetValueEncoding v \<le> ?e"
    using True by (auto simp: intsetFind_def) (metis prod.collapse)
  have pos: "pos < ?n" "elems s ! pos = v" using intsetSearch_spec [OF wf srch] by auto
  have enc: "valid_enc ?e" and srt: "sorted_wrt (<) (elems s)" and len: "length (contents s) = ?e * ?n"
    and mx: "?n \<le> intset_max" using wf by (auto simp: intset_wf_def)
  define m1 where "m1 = (if pos < ?n - 1 then memmove_buf (?e * pos) (?e * (pos + 1)) (?e * (?n - (pos + 1))) (contents s) else contents s)"
  define m2 where "m2 = realloc_buf junk (?e * (?n - 1)) m1"
  have n8: "8 * ?n < 2 ^ 32" "8 * (?n - 1) < 2 ^ 32" using mx by (auto simp: intset_max_def)
  have mv: "(if pos < ?n - 1 then intsetMoveTail s (pos + 1) pos else s) = s\<lparr>contents := m1\<rparr>"
    using enc n8(1) by (auto simp: m1_def intsetMoveTail_eq)
  have "intsetResize junk (s\<lparr>contents := m1\<rparr>) (?n - 1) = s\<lparr>contents := m2\<rparr>"
    using n8(2) enc by (subst intsetResize_eq) (simp_all add: m2_def)
  then have rem: "intsetRemove junk s v = (s\<lparr>contents := m2, is_length := ?n - 1\<rparr>, True)"
    using narrow by (simp only: intsetRemove_def srch Let_def case_prod_conv mv) simp
  have el: "elems (s\<lparr>contents := m2, is_length := ?n - 1\<rparr>) = take pos (elems s) @ drop (Suc pos) (elems s)"
    using elems_delete [OF enc len pos(1) m1_def, of junk] by (simp add: elems_def m2_def)
  have "length m2 = ?e * (?n - 1)" by (simp add: m2_def)
  then show ?thesis
    using sorted_delete_at [OF srt, of pos] pos enc mx True intsetFind_iff [OF wf v] el
    by (simp add: rem intset_wf_def)
qed

lemma elems_distinct_card: "intset_wf s \<Longrightarrow> card (set (elems s)) = is_length s"
  by (metis distinct_card intset_wf_def length_elems strict_sorted_iff)

lemma intsetNew_wf: "intset_wf intsetNew" and elems_intsetNew: "elems intsetNew = []"
  by (auto simp: intset_wf_def intsetNew_def elems_def valid_enc_def)

interpretation iset: bounded_set
  intset_wf "\<lambda>s. set (elems s)" intset_max "in_sint 64" intsetNew
  "intsetAdd junk" "intsetRemove junk" intsetFind
  for junk
proof unfold_locales
  fix s v
  assume "intset_wf s" "in_sint 64 v" "v \<in> set (elems s) \<or> card (set (elems s)) < intset_max"
  then show "intset_wf (fst (intsetAdd junk s v)) \<and>
      set (elems (fst (intsetAdd junk s v))) = insert v (set (elems s)) \<and>
      snd (intsetAdd junk s v) = (v \<notin> set (elems s))"
    using intsetAdd_law [of s v junk] by (simp add: elems_distinct_card intset_room_def)
qed (use intsetNew_wf elems_intsetNew intsetRemove_law intsetFind_iff in auto)

section \<open>Properties\<close>

text \<open>
  C9. \<open>intsetAdd\<close> on a well-formed intset with room for one more element, for any 64 bit
  value and whatever the bytes of freshly allocated memory are: the result is well formed
  (valid encoding, exact size, strictly ascending), it stores the old elements and the
  value, and the reported success is whether the value was new.  This covers the search,
  the in-place shift, and the back-to-front upgrade to a wider encoding.
\<close>

theorem intset_add_correct:
  assumes "intset_wf s" and "intset_room s" and "in_sint 64 v"
  shows "intset_wf (fst (intsetAdd junk s v)) \<and>
         set (elems (fst (intsetAdd junk s v))) = insert v (set (elems s)) \<and>
         (snd (intsetAdd junk s v) \<longleftrightarrow> v \<notin> set (elems s))"
  using intsetAdd_law [OF assms(1,3)] assms(2) by blast

theorem intset_add_correct_witness:
  "intset_wf intsetNew \<and> intset_room intsetNew \<and> in_sint 64 100000 \<and>
   set (elems (fst (intsetAdd (\<lambda>_. 7) intsetNew 100000))) = {100000}"
proof -
  have h: "intset_wf intsetNew" "intset_room intsetNew" "in_sint 64 100000"
    by (simp_all add: intsetNew_wf) (simp_all add: intset_room_def intsetNew_def intset_max_def in_sint_def)
  show ?thesis
    using h intset_add_correct [OF h, of "\<lambda>_. 7"] by (simp add: elems_intsetNew)
qed

text \<open>
  C19. \<open>intsetRemove\<close> on a well-formed intset removes exactly the given value, keeps the
  intset well formed and reports whether the value was there.
\<close>

theorem intset_remove_correct:
  assumes "intset_wf s" and "in_sint 64 v"
  shows "intset_wf (fst (intsetRemove junk s v)) \<and>
         set (elems (fst (intsetRemove junk s v))) = set (elems s) - {v} \<and>
         (snd (intsetRemove junk s v) \<longleftrightarrow> v \<in> set (elems s))"
  using intsetRemove_law [OF assms] .

theorem intset_remove_correct_witness:
  "\<exists>s. intset_wf s \<and> set (elems s) = {-70000} \<and>
       set (elems (fst (intsetRemove (\<lambda>_. 0) s (-70000)))) = {}"
proof -
  let ?s = "fst (intsetAdd (\<lambda>_. 0) intsetNew (-70000))"
  have v: "in_sint 64 (-70000)" by (simp add: in_sint_def)
  have s: "intset_wf ?s" "set (elems ?s) = {-70000}"
    using iset.add_law [OF intsetNew_wf v, of "\<lambda>_. 0"]
    by (simp_all add: elems_intsetNew intset_max_def)
  show ?thesis
    using s intset_remove_correct [OF s(1) v, of "\<lambda>_. 0"] by auto
qed

text \<open>
  C20. An intset built by any sequence of additions answers \<open>intsetFind\<close> like the
  mathematical set of the added values, as long as there are at most \<open>2^29 - 1\<close> of them.
\<close>

theorem intset_find_after_adds:
  assumes "\<forall>v \<in> set vs. in_sint 64 v" and "card (set vs) \<le> intset_max" and "in_sint 64 x"
  shows "intsetFind (fold (\<lambda>v s. fst (intsetAdd junk s v)) vs intsetNew) x \<longleftrightarrow> x \<in> set vs"
  using iset.mem_add_all [OF assms, of junk] by (simp add: iset.add_all_def)

theorem intset_find_after_adds_witness:
  "intsetFind (fold (\<lambda>v s. fst (intsetAdd (\<lambda>_. 9) s v)) [5, -40000, 2 ^ 40, 5] intsetNew) (-40000) \<and>
   \<not> intsetFind (fold (\<lambda>v s. fst (intsetAdd (\<lambda>_. 9) s v)) [5, -40000, 2 ^ 40, 5] intsetNew) 6"
proof -
  have h: "\<forall>v \<in> set [5, -40000, 2 ^ 40, 5 :: int]. in_sint 64 v"
    "card (set [5, -40000, 2 ^ 40, 5 :: int]) \<le> intset_max"
    by (simp add: in_sint_def)
       (rule order_trans [OF card_length], simp add: intset_max_def)
  show ?thesis
    using intset_find_after_adds [OF h, of "-40000" "\<lambda>_. 9"] intset_find_after_adds [OF h, of 6 "\<lambda>_. 9"]
    by (simp add: in_sint_def)
qed

end
