(* ===== verification/Glob.thy ===== *)
theory Glob
  imports Prelude
begin

text \<open>
  \<open>stringmatchlen\<close> of \<open>util.c\<close>, the glob matcher behind \<open>KEYS\<close>, \<open>PSUBSCRIBE\<close> and
  \<open>SCAN MATCH\<close>, and the declarative semantics of glob patterns it is compared with.
  A pattern is the list of its remaining bytes, so \<open>patternLen\<close> is its length; the byte
  after the last one is the NUL terminator.
\<close>

section \<open>The matcher\<close>

definition tolower :: "byte \<Rightarrow> byte" where
  "tolower c = (if 65 \<le> unat c \<and> unat c \<le> 90 then c + 32 else c)"

text \<open>\<open>while (pattern[1] == '*') { pattern++; patternLen--; }\<close>\<close>

fun star_skip :: "bytes \<Rightarrow> bytes" where
  "star_skip (a # b # p) = (if b = 42 then star_skip (b # p) else a # b # p)"
| "star_skip p = p"

text \<open>
  The character class loop.  It returns the pattern after the closing bracket has been
  stepped over; at the end of the pattern the source steps one byte back before the common
  increment, which leaves the empty pattern.  Plain characters are \<open>char\<close>, which is signed,
  so ranges compare signed values.
\<close>

definition class_range :: "byte \<Rightarrow> byte \<Rightarrow> byte \<Rightarrow> bool \<Rightarrow> bool" where
  "class_range a b c nocase =
     (let (start, end') = (if sint a > sint b then (b, a) else (a, b));
          (start, end', c) = (if nocase then (tolower start, tolower end', tolower c) else (start, end', c))
      in sint start \<le> sint c \<and> sint c \<le> sint end')"

definition class_char :: "byte \<Rightarrow> byte \<Rightarrow> bool \<Rightarrow> bool" where
  "class_char a c nocase = (if \<not> nocase then a = c else tolower a = tolower c)"

function class_loop :: "bytes \<Rightarrow> byte \<Rightarrow> bool \<Rightarrow> bool \<Rightarrow> bytes \<times> bool" where
  "class_loop p c nocase m =
     (if pat_at p 0 = 92 \<and> length p \<ge> 2 then
        class_loop (drop 2 p) c nocase (if pat_at p 1 = c then True else m)
      else if pat_at p 0 = 93 then (tl p, m)
      else if length p = 0 then ([], m)
      else if pat_at p 1 = 45 \<and> length p \<ge> 3 then
        class_loop (drop 3 p) c nocase (if class_range (pat_at p 0) (pat_at p 2) c nocase then True else m)
      else
        class_loop (drop 1 p) c nocase (if class_char (pat_at p 0) c nocase then True else m))"
  by pat_completeness auto
termination by (relation "measure (\<lambda>(p, c, n, m). length p)") auto

declare class_loop.simps [simp del]

lemma length_star_skip: "length (star_skip p) \<le> length p"
  by (induction p rule: star_skip.induct) auto

lemma length_class_loop: "length (fst (class_loop p c nocase m)) \<le> length p"
proof (induction p c nocase m rule: class_loop.induct)
  case (1 p c nocase m)
  then show ?case by (subst class_loop.simps) auto
qed

lemma length_star_skip_tl: "length (star_skip (c # p)) - Suc 0 < Suc (length p)"
  using length_star_skip [of "c # p"] by simp

lemma length_class_loop_rest:
  assumes "(r, m') = class_loop (if b then tl p else p) c nocase m"
  shows "length r < Suc (length p)"
proof -
  have "length r \<le> length (if b then tl p else p)"
    using length_class_loop [of "if b then tl p else p" c nocase m] assms by (metis fst_conv)
  then show ?thesis by (cases b) auto
qed

text \<open>
  \<open>stringmatchlen\<close> and, for the loop of its \<open>'*'\<close> case, \<open>stringmatch_star\<close>; the end of
  an iteration, with the trailing stars skipped once the string is used up, is
  \<open>stringmatch_next\<close>.
\<close>

function (sequential)
  stringmatchlen :: "bytes \<Rightarrow> bytes \<Rightarrow> bool \<Rightarrow> bool" and
  stringmatch_next :: "bytes \<Rightarrow> bytes \<Rightarrow> bool \<Rightarrow> bool" and
  stringmatch_star :: "bytes \<Rightarrow> bytes \<Rightarrow> bool \<Rightarrow> bool"
where
  "stringmatchlen (c # p) (x # s) nocase =
     (if c = 42 then
        (let p' = star_skip (c # p) in
         if length p' = 1 then True else stringmatch_star (tl p') (x # s) nocase)
      else if c = 63 then stringmatch_next p s nocase
      else if c = 91 then
        (let not' = (pat_at p 0 = 94); p' = (if not' then tl p else p);
             (rest, m) = class_loop p' x nocase False;
             m = (if not' then \<not> m else m)
         in if \<not> m then False else stringmatch_next rest s nocase)
      else
        (let p' = (if c = 92 \<and> length (c # p) \<ge> 2 then p else c # p) in
         if \<not> nocase then
           (if pat_at p' 0 \<noteq> x then False else stringmatch_next (tl p') s nocase)
         else
           (if tolower (pat_at p' 0) \<noteq> tolower x then False else stringmatch_next (tl p') s nocase)))"
| "stringmatchlen p s nocase = (p = [] \<and> s = [])"
| "stringmatch_next p s nocase =
     (if s = [] then dropWhile (\<lambda>c. c = 42) p = []
      else stringmatchlen p s nocase)"
| "stringmatch_star p [] nocase = False"
| "stringmatch_star p (x # s) nocase =
     (if stringmatchlen p (x # s) nocase then True else stringmatch_star p s nocase)"
  by pat_completeness auto

termination
proof (relation "measures [\<lambda>x. case x of
    Inl (p, s, n) \<Rightarrow> length p | Inr (Inl (p, s, n)) \<Rightarrow> length p | Inr (Inr (p, s, n)) \<Rightarrow> length p,
  \<lambda>x. case x of
    Inl (p, s, n) \<Rightarrow> 2 * length s | Inr (Inl (p, s, n)) \<Rightarrow> 2 * length s + 1 | Inr (Inr (p, s, n)) \<Rightarrow> 2 * length s + 1]", goal_cases)
  case 1
  then show ?case by simp
qed (auto simp: length_star_skip_tl dest: length_class_loop_rest)


declare stringmatchlen.simps [simp del] stringmatch_next.simps [simp del]

section \<open>Declarative semantics\<close>

text \<open>
  A pattern is parsed once into tokens; a token list denotes a predicate on strings in the
  usual way, the star standing for any substring.
\<close>

datatype class_item = CEsc byte | CRange byte byte | CChar byte

datatype tok = TStar | TAny | TClass bool "class_item list" | TLit byte

function parse_class :: "bytes \<Rightarrow> class_item list \<times> bytes" where
  "parse_class p =
     (if pat_at p 0 = 92 \<and> length p \<ge> 2 then
        apfst (Cons (CEsc (pat_at p 1))) (parse_class (drop 2 p))
      else if p = [] then ([], [])
      else if hd p = 93 then ([], tl p)
      else if pat_at p 1 = 45 \<and> length p \<ge> 3 then
        apfst (Cons (CRange (hd p) (pat_at p 2))) (parse_class (drop 3 p))
      else apfst (Cons (CChar (hd p))) (parse_class (drop 1 p)))"
  by pat_completeness auto
termination by (relation "measure length") auto

declare parse_class.simps [simp del]

lemma length_parse_class: "length (snd (parse_class p)) \<le> length p"
proof (induction p rule: parse_class.induct)
  case (1 p)
  then show ?case by (subst parse_class.simps) auto
qed

lemma length_parse_class_tl: "length (snd (parse_class (tl p))) < Suc (length p)"
  using length_parse_class [of "tl p"] by simp

function (sequential) glob_parse :: "bytes \<Rightarrow> tok list" where
  "glob_parse [] = []"
| "glob_parse (c # p) =
     (if c = 42 then TStar # glob_parse p
      else if c = 63 then TAny # glob_parse p
      else if c = 91 then
        (if pat_at p 0 = 94 then
           TClass True (fst (parse_class (tl p))) # glob_parse (snd (parse_class (tl p)))
         else TClass False (fst (parse_class p)) # glob_parse (snd (parse_class p)))
      else if c = 92 \<and> p \<noteq> [] then TLit (hd p) # glob_parse (tl p)
      else TLit c # glob_parse p)"
  by pat_completeness auto
termination
  by (relation "measure length")
     (auto simp: length_parse_class_tl length_parse_class le_imp_less_Suc)

fun item_match :: "bool \<Rightarrow> byte \<Rightarrow> class_item \<Rightarrow> bool" where
  "item_match nocase c (CEsc a) = (a = c)"
| "item_match nocase c (CRange a b) = class_range a b c nocase"
| "item_match nocase c (CChar a) = class_char a c nocase"

fun tok_match :: "bool \<Rightarrow> byte \<Rightarrow> tok \<Rightarrow> bool" where
  "tok_match nocase c TStar = False"
| "tok_match nocase c TAny = True"
| "tok_match nocase c (TClass neg items) = (list_ex (item_match nocase c) items \<noteq> neg)"
| "tok_match nocase c (TLit a) = class_char a c nocase"

fun glob_match :: "bool \<Rightarrow> tok list \<Rightarrow> bytes \<Rightarrow> bool" where
  "glob_match nocase [] s = (s = [])"
| "glob_match nocase (TStar # ts) [] = glob_match nocase ts []"
| "glob_match nocase (TStar # ts) (x # s) =
     (glob_match nocase ts (x # s) \<or> glob_match nocase (TStar # ts) s)"
| "glob_match nocase (t # ts) [] = False"
| "glob_match nocase (t # ts) (x # s) = (tok_match nocase x t \<and> glob_match nocase ts s)"

text \<open>The star stands for any substring.\<close>

lemma glob_match_star: "glob_match nocase (TStar # ts) s \<longleftrightarrow> (\<exists>u v. s = u @ v \<and> glob_match nocase ts v)"
proof (induction s)
  case (Cons x s)
  then show ?case by (auto simp: Cons_eq_append_conv)
qed simp

lemma glob_match_step:
  "t \<noteq> TStar \<Longrightarrow> glob_match nocase (t # ts) s \<longleftrightarrow>
     (\<exists>x v. s = x # v \<and> tok_match nocase x t \<and> glob_match nocase ts v)"
  by (cases t; cases s) auto


section \<open>The matcher implements the semantics\<close>

lemma class_loop_parse:
  "class_loop p c nocase m =
     (snd (parse_class p), m \<or> list_ex (item_match nocase c) (fst (parse_class p)))"
proof (induction p c nocase m rule: class_loop.induct)
  case (1 p c nocase m)
  have "pat_at [] 0 = 0" by (simp add: pat_at_def)
  moreover have "p \<noteq> [] \<Longrightarrow> pat_at p 0 = hd p" by (simp add: pat_at_def hd_conv_nth)
  ultimately show ?case
    using 1 by (subst class_loop.simps, subst (1 2) parse_class.simps) auto
qed

lemma star_skip_parse:
  assumes "p \<noteq> []" and "hd p = 42"
  shows "\<exists>r. star_skip p = 42 # r \<and> (r = [] \<or> hd r \<noteq> 42) \<and>
    (\<forall>s. glob_match nocase (glob_parse p) s = glob_match nocase (TStar # glob_parse r) s)"
  using assms
proof (induction p rule: star_skip.induct)
  case (1 a b p)
  show ?case
  proof (cases "b = 42")
    case True
    then obtain r where r: "star_skip (b # p) = 42 # r" "r = [] \<or> hd r \<noteq> 42"
      "\<forall>s. glob_match nocase (glob_parse (b # p)) s = glob_match nocase (TStar # glob_parse r) s"
      using 1 by auto
    have "glob_match nocase (TStar # TStar # ts) s = glob_match nocase (TStar # ts) s" for ts s
      unfolding glob_match_star by (metis append.assoc append_Nil)
    then have "glob_match nocase (glob_parse (a # b # p)) s = glob_match nocase (TStar # glob_parse r) s" for s
      using r(3) "1.prems" by (simp add: glob_match_star)
    with r True "1.prems" show ?thesis by auto
  qed (use "1.prems" in auto)
qed auto

lemma glob_match_nil: "glob_match nocase (glob_parse p) [] \<longleftrightarrow> dropWhile (\<lambda>c. c = 42) p = []"
  by (induction p rule: glob_parse.induct) auto

lemma glob_parse_not_star: "r \<noteq> [] \<Longrightarrow> hd r \<noteq> 42 \<Longrightarrow> \<exists>t ts. glob_parse r = t # ts \<and> t \<noteq> TStar"
  by (cases r) auto

lemma stringmatchlen_glob:
  "s \<noteq> [] \<Longrightarrow> stringmatchlen p s nocase = glob_match nocase (glob_parse p) s"
  "stringmatch_next p s nocase = glob_match nocase (glob_parse p) s"
  "stringmatch_star p s nocase \<longleftrightarrow> (\<exists>u v. s = u @ v \<and> v \<noteq> [] \<and> glob_match nocase (glob_parse p) v)"
proof (induction p s nocase and p s nocase and p s nocase
    rule: stringmatchlen_stringmatch_next_stringmatch_star.induct)
  case (1 c p x s nocase)
  show ?case
  proof (cases "c = 42")
    case True
    obtain r where r: "star_skip (c # p) = 42 # r" "r = [] \<or> hd r \<noteq> 42"
      "\<And>s. glob_match nocase (glob_parse (c # p)) s = glob_match nocase (TStar # glob_parse r) s"
      using star_skip_parse [of "c # p" nocase] True by auto
    show ?thesis
    proof (cases "r = []")
      case r0: True
      then have "glob_match nocase (TStar # glob_parse r) (x # s)"
        unfolding glob_match_star by (intro exI [of _ "x # s"] exI [of _ "[]"]) simp
      then show ?thesis
        using True r(1) r(3) [of "x # s"] r0
        by (simp add: stringmatchlen.simps Let_def del: glob_parse.simps)
    next
      case False
      then obtain t ts where t: "glob_parse r = t # ts" "t \<noteq> TStar"
        using r(2) glob_parse_not_star by blast
      then have "\<not> glob_match nocase (glob_parse r) []" by (simp add: glob_match_step)
      then have g: "glob_match nocase (TStar # glob_parse r) (x # s) \<longleftrightarrow>
          (\<exists>u v. x # s = u @ v \<and> v \<noteq> [] \<and> glob_match nocase (glob_parse r) v)"
        unfolding glob_match_star by metis
      have st: "stringmatchlen (c # p) (x # s) nocase = stringmatch_star r (x # s) nocase"
        using r(1) True False by (simp add: stringmatchlen.simps Let_def del: stringmatch_star.simps)
      have "stringmatch_star (tl (star_skip (c # p))) (x # s) nocase \<longleftrightarrow>
          (\<exists>u v. x # s = u @ v \<and> v \<noteq> [] \<and> glob_match nocase (glob_parse (tl (star_skip (c # p)))) v)"
        by (rule "1.IH"(1) [OF True refl]) (use r(1) False in simp)
      then show ?thesis by (simp only: st g r list.sel)
    qed
  next
    case ns: False
    consider "c = 63" | "c = 91" | "c \<noteq> 63" "c \<noteq> 91" by blast
    then show ?thesis
    proof cases
      case 1
      then show ?thesis using "1.IH"(2) [OF ns 1] by (simp add: stringmatchlen.simps)
    next
      case 2
      then show ?thesis
        using "1.IH"(3) [OF ns _ 2 refl refl] ns
        by (auto simp: stringmatchlen.simps Let_def class_loop_parse)
    next
      case 3
      have nx: "stringmatch_next q s nocase = glob_match nocase (glob_parse q) s"
        if "q = tl (if c = 92 \<and> length (c # p) \<ge> 2 then p else c # p)"
          "class_char (pat_at (if c = 92 \<and> length (c # p) \<ge> 2 then p else c # p) 0) x nocase" for q
        using "1.IH"(4,5) [OF ns 3 refl] that by (cases nocase) (auto simp: class_char_def)
      show ?thesis
      proof (cases "c = 92 \<and> p \<noteq> []")
        case True
        then have l: "2 \<le> length (c # p)" and h: "pat_at p 0 = hd p"
          by (cases p; simp add: pat_at_def hd_conv_nth)+
        show ?thesis
          using nx [of "tl p"] True l h 3 ns
          unfolding stringmatchlen.simps(1) [of c p x s] Let_def
          by (auto simp: class_char_def)
      next
        case False
        then have l: "\<not> (c = 92 \<and> 2 \<le> length (c # p))" and h: "pat_at (c # p) 0 = c"
          by (cases p; auto simp: pat_at_def)+
        then have "(if c = 92 \<and> 2 \<le> length (c # p) then p else c # p) = c # p" by simp
        then show ?thesis
          using nx [of p] False h 3 ns
          unfolding stringmatchlen.simps(1) [of c p x s] Let_def
          by (auto simp: class_char_def)
      qed
    qed
  qed
next
  case (3 p s nocase)
  then show ?case by (simp add: stringmatch_next.simps glob_match_nil)
next
  case (5 p x s nocase)
  then show ?case by (auto simp: Cons_eq_append_conv)
qed (auto simp: stringmatchlen.simps)



section \<open>Properties\<close>

text \<open>
  C21. On a nonempty string \<open>stringmatchlen\<close> decides exactly the declarative semantics of
  the pattern: stars, single wildcards, negated and ranged classes, escapes and both case
  modes, for every pattern including malformed ones.  The function is total, so the
  recursive backtracking always ends.
\<close>

theorem stringmatchlen_correct:
  assumes "s \<noteq> []"
  shows "stringmatchlen p s nocase = glob_match nocase (glob_parse p) s"
  using assms by (rule stringmatchlen_glob(1))

theorem stringmatchlen_correct_witness:
  "[104, 105] \<noteq> ([] :: bytes) \<and> stringmatchlen [104, 42] [104, 105] False \<and>
   glob_match False [TLit 104, TStar] [104, 105]"
proof -
  have h: "[104, 105] \<noteq> ([] :: bytes)" by simp
  have m: "glob_match False (glob_parse [104, 42]) [104, 105]" by (simp add: class_char_def)
  show ?thesis
    using h m stringmatchlen_correct [OF h, of "[104, 42]" False] by (simp add: class_char_def)
qed


end
