(* ===== verification/Dict.thy ===== *)
theory Dict
  imports Interfaces "HOL-Library.Multiset" "HOL-Library.Monad_Syntax"
begin

unbundle bit_operations_syntax

text \<open>
  \<open>dict.c\<close>: the chained hash table with incremental rehashing that stores the Redis
  keyspace.  A bucket is the list of its chained entries, head first; a table that C
  would have as NULL is the empty list.  An entry pointer is a reference (table, bucket,
  position in the chain).  The result \<open>None\<close> of an operation stands for a failed
  \<open>assert\<close>, an access outside a table or a NULL dereference; the theorems show that it does
  not happen.  Memory management of keys and values (\<open>keyDup\<close>, destructors) has no
  counterpart: keys and values are HOL values.
\<close>

section \<open>State\<close>

record ('k, 'v) dictht =
  table :: "('k \<times> 'v) list list"
  ht_size :: nat
  sizemask :: nat
  used :: nat

record ('k, 'v) dict =
  ht0 :: "('k, 'v) dictht"
  ht1 :: "('k, 'v) dictht"
  rehashidx :: int
  iterators :: nat

text \<open>The fields of \<open>dictType\<close> that matter for behaviour, and the global resize switch.\<close>

record 'k dict_env =
  hashFunction :: "'k \<Rightarrow> 64 word"
  keyCompare :: "('k \<Rightarrow> 'k \<Rightarrow> bool) option"
  dict_can_resize :: bool

type_synonym entry_ref = "nat \<times> nat \<times> nat"

abbreviation (input) DICT_HT_INITIAL_SIZE :: nat where "DICT_HT_INITIAL_SIZE \<equiv> 4"
abbreviation (input) dict_force_resize_ratio :: nat where "dict_force_resize_ratio \<equiv> 5"

definition LONG_MAX :: nat where "LONG_MAX = 2 ^ 63 - 1"

section \<open>Creation and resizing\<close>

definition dictReset :: "('k, 'v) dictht" where
  "dictReset = \<lparr>table = [], ht_size = 0, sizemask = 0, used = 0\<rparr>"

definition dictInit :: "('k, 'v) dict" where
  "dictInit = \<lparr>ht0 = dictReset, ht1 = dictReset, rehashidx = -1, iterators = 0\<rparr>"

definition dictCreate :: "('k, 'v) dict" where
  "dictCreate = dictInit"

definition dictIsRehashing :: "('k, 'v) dict \<Rightarrow> bool" where
  "dictIsRehashing d \<longleftrightarrow> rehashidx d \<noteq> -1"

definition dictSlots :: "('k, 'v) dict \<Rightarrow> nat" where
  "dictSlots d = ht_size (ht0 d) + ht_size (ht1 d)"

definition dictSize :: "('k, 'v) dict \<Rightarrow> nat" where
  "dictSize d = used (ht0 d) + used (ht1 d)"

function dictNextPower_loop :: "nat \<Rightarrow> nat \<Rightarrow> nat" where
  "dictNextPower_loop i sz = (if i \<ge> sz \<or> i = 0 then i else dictNextPower_loop (i * 2) sz)"
  by pat_completeness auto
termination by (relation "measure (\<lambda>(i, sz). sz - i)") auto

declare dictNextPower_loop.simps [simp del]

definition dictNextPower :: "nat \<Rightarrow> nat" where
  "dictNextPower sz =
     (if sz \<ge> LONG_MAX then LONG_MAX + 1 else dictNextPower_loop DICT_HT_INITIAL_SIZE sz)"

text \<open>The second component is whether \<open>DICT_OK\<close> was returned.\<close>

definition dictExpand :: "('k, 'v) dict \<Rightarrow> nat \<Rightarrow> ('k, 'v) dict \<times> bool" where
  "dictExpand d sz =
     (if dictIsRehashing d \<or> used (ht0 d) > sz then (d, False)
      else
        (let realsize = dictNextPower sz in
         if realsize = ht_size (ht0 d) then (d, False)
         else
           (let n = \<lparr>table = replicate realsize [], ht_size = realsize, sizemask = realsize - 1, used = 0\<rparr>
            in if table (ht0 d) = [] then (d\<lparr>ht0 := n\<rparr>, True)
               else (d\<lparr>ht1 := n, rehashidx := 0\<rparr>, True))))"

text \<open>\<open>minimal\<close> is an \<open>int\<close> in the source.\<close>

definition dictResize :: "'k dict_env \<Rightarrow> ('k, 'v) dict \<Rightarrow> ('k, 'v) dict \<times> bool" where
  "dictResize env d =
     (if \<not> dict_can_resize env \<or> dictIsRehashing d then (d, False)
      else
        (let minimal = to_sint 32 (used (ht0 d));
             minimal = (if minimal < int DICT_HT_INITIAL_SIZE then int DICT_HT_INITIAL_SIZE else minimal)
         in dictExpand d (nat minimal)))"

section \<open>Incremental rehashing\<close>

definition bucket_index :: "'k dict_env \<Rightarrow> ('k, 'v) dictht \<Rightarrow> 'k \<Rightarrow> nat" where
  "bucket_index env t key = unat (hashFunction env key AND word_of_nat (sizemask t))"

text \<open>
  The loop that skips empty buckets: \<open>None\<close> when it runs past the table, otherwise the
  index reached, the visits left, and whether the visits were used up.
\<close>

function dictRehash_skip :: "('k \<times> 'v) list list \<Rightarrow> nat \<Rightarrow> nat \<Rightarrow> (nat \<times> nat \<times> bool) option" where
  "dictRehash_skip tbl idx empty_visits =
     (if idx < length tbl then
        (if tbl ! idx = [] then
           (if empty_visits - 1 = 0 then Some (idx + 1, 0, True)
            else dictRehash_skip tbl (idx + 1) (empty_visits - 1))
         else Some (idx, empty_visits, False))
      else None)"
  by pat_completeness auto
termination by (relation "measure (\<lambda>(tbl, idx, ev). length tbl - idx)") auto

declare dictRehash_skip.simps [simp del]

fun dictRehash_move :: "'k dict_env \<Rightarrow> ('k \<times> 'v) list \<Rightarrow> ('k, 'v) dict \<Rightarrow> ('k, 'v) dict option" where
  "dictRehash_move env [] d = Some d"
| "dictRehash_move env (de # nextde) d =
     (let h = bucket_index env (ht1 d) (fst de) in
      if h < length (table (ht1 d)) then
        dictRehash_move env nextde
          (d\<lparr>ht0 := (ht0 d)\<lparr>used := used (ht0 d) - 1\<rparr>,
             ht1 := (ht1 d)\<lparr>table := (table (ht1 d))[h := de # table (ht1 d) ! h],
                            used := used (ht1 d) + 1\<rparr>\<rparr>)
      else None)"

fun dictRehash_loop :: "'k dict_env \<Rightarrow> nat \<Rightarrow> ('k, 'v) dict \<Rightarrow> nat \<Rightarrow> (('k, 'v) dict \<times> bool) option" where
  "dictRehash_loop env 0 d empty_visits = Some (d, False)"
| "dictRehash_loop env (Suc n) d empty_visits =
     (if used (ht0 d) = 0 then Some (d, False)
      else if \<not> int (ht_size (ht0 d)) > rehashidx d then None
      else
        do {
          (idx, ev, stop) \<leftarrow> dictRehash_skip (table (ht0 d)) (nat (rehashidx d)) empty_visits;
          if stop then Some (d\<lparr>rehashidx := int idx\<rparr>, True)
          else do {
            d' \<leftarrow> dictRehash_move env (table (ht0 d) ! idx) d;
            dictRehash_loop env n
              (d'\<lparr>ht0 := (ht0 d')\<lparr>table := (table (ht0 d'))[idx := []]\<rparr>, rehashidx := int idx + 1\<rparr>) ev
          }
        })"

text \<open>The returned flag is whether there are still keys to move.\<close>

definition dictRehash :: "'k dict_env \<Rightarrow> ('k, 'v) dict \<Rightarrow> nat \<Rightarrow> (('k, 'v) dict \<times> bool) option" where
  "dictRehash env d n =
     (if \<not> dictIsRehashing d then Some (d, False)
      else
        do {
          (d, stop) \<leftarrow> dictRehash_loop env n d (n * 10);
          if stop then Some (d, True)
          else if used (ht0 d) = 0 then
            Some (d\<lparr>ht0 := ht1 d, ht1 := dictReset, rehashidx := -1\<rparr>, False)
          else Some (d, True)
        })"

definition dictRehashStep :: "'k dict_env \<Rightarrow> ('k, 'v) dict \<Rightarrow> ('k, 'v) dict option" where
  "dictRehashStep env d = (if iterators d = 0 then map_option fst (dictRehash env d 1) else Some d)"

definition rehash_if_needed :: "'k dict_env \<Rightarrow> ('k, 'v) dict \<Rightarrow> ('k, 'v) dict option" where
  "rehash_if_needed env d = (if dictIsRehashing d then dictRehashStep env d else Some d)"

section \<open>Lookup and update\<close>

definition dictCompareKeys :: "'k dict_env \<Rightarrow> 'k \<Rightarrow> 'k \<Rightarrow> bool" where
  "dictCompareKeys env k1 k2 = (case keyCompare env of Some f \<Rightarrow> f k1 k2 | None \<Rightarrow> k1 = k2)"

fun chain_find :: "'k dict_env \<Rightarrow> 'k \<Rightarrow> ('k \<times> 'v) list \<Rightarrow> nat option" where
  "chain_find env key [] = None"
| "chain_find env key (he # nexthe) =
     (if key = fst he \<or> dictCompareKeys env key (fst he) then Some 0
      else map_option Suc (chain_find env key nexthe))"

definition dictExpandIfNeeded :: "'k dict_env \<Rightarrow> ('k, 'v) dict \<Rightarrow> ('k, 'v) dict \<times> bool" where
  "dictExpandIfNeeded env d =
     (if dictIsRehashing d then (d, True)
      else if ht_size (ht0 d) = 0 then dictExpand d DICT_HT_INITIAL_SIZE
      else if used (ht0 d) \<ge> ht_size (ht0 d) \<and>
              (dict_can_resize env \<or> used (ht0 d) div ht_size (ht0 d) > dict_force_resize_ratio)
      then dictExpand d (used (ht0 d) * 2)
      else (d, True))"

text \<open>The result holds the free index (\<open>None\<close> for -1) and the existing entry.\<close>

definition dictKeyIndex :: "'k dict_env \<Rightarrow> ('k, 'v) dict \<Rightarrow> 'k \<Rightarrow>
    (('k, 'v) dict \<times> nat option \<times> entry_ref option) option" where
  "dictKeyIndex env d key =
     (case dictExpandIfNeeded env d of
        (d, False) \<Rightarrow> Some (d, None, None)
      | (d, True) \<Rightarrow>
          (let idx = bucket_index env (ht0 d) key in
           if \<not> idx < length (table (ht0 d)) then None
           else case chain_find env key (table (ht0 d) ! idx) of
             Some p \<Rightarrow> Some (d, None, Some (0, idx, p))
           | None \<Rightarrow>
               if \<not> dictIsRehashing d then Some (d, Some idx, None)
               else
                 (let idx = bucket_index env (ht1 d) key in
                  if \<not> idx < length (table (ht1 d)) then None
                  else case chain_find env key (table (ht1 d) ! idx) of
                    Some p \<Rightarrow> Some (d, None, Some (1, idx, p))
                  | None \<Rightarrow> Some (d, Some idx, None))))"

definition push_entry :: "nat \<Rightarrow> 'k \<times> 'v \<Rightarrow> ('k, 'v) dictht \<Rightarrow> ('k, 'v) dictht" where
  "push_entry idx e t = t\<lparr>table := (table t)[idx := e # table t ! idx], used := used t + 1\<rparr>"

text \<open>
  A fresh entry has an unset value: \<open>v0\<close> is what the allocated memory holds.  The result
  is the dictionary, the new entry or NULL, and \<open>*existing\<close>.
\<close>

definition dictAddRaw :: "'k dict_env \<Rightarrow> ('k, 'v) dict \<Rightarrow> 'k \<Rightarrow> 'v \<Rightarrow>
    (('k, 'v) dict \<times> entry_ref option \<times> entry_ref option) option" where
  "dictAddRaw env d key v0 =
     do {
       d \<leftarrow> rehash_if_needed env d;
       (d, index, existing) \<leftarrow> dictKeyIndex env d key;
       case index of
         None \<Rightarrow> Some (d, None, existing)
       | Some idx \<Rightarrow>
           if dictIsRehashing d then
             Some (d\<lparr>ht1 := push_entry idx (key, v0) (ht1 d)\<rparr>, Some (1, idx, 0), existing)
           else
             Some (d\<lparr>ht0 := push_entry idx (key, v0) (ht0 d)\<rparr>, Some (0, idx, 0), existing)
     }"

definition set_entry :: "nat \<Rightarrow> nat \<Rightarrow> 'v \<Rightarrow> ('k, 'v) dictht \<Rightarrow> ('k, 'v) dictht" where
  "set_entry idx p v t =
     t\<lparr>table := (table t)[idx := (table t ! idx)[p := (fst (table t ! idx ! p), v)]]\<rparr>"

fun dictSetVal :: "('k, 'v) dict \<Rightarrow> entry_ref \<Rightarrow> 'v \<Rightarrow> ('k, 'v) dict" where
  "dictSetVal d (tb, idx, p) v =
     (if tb = 0 then d\<lparr>ht0 := set_entry idx p v (ht0 d)\<rparr> else d\<lparr>ht1 := set_entry idx p v (ht1 d)\<rparr>)"

fun dictGetEntry :: "('k, 'v) dict \<Rightarrow> entry_ref \<Rightarrow> 'k \<times> 'v" where
  "dictGetEntry d (tb, idx, p) = (if tb = 0 then table (ht0 d) ! idx ! p else table (ht1 d) ! idx ! p)"

definition dictAdd :: "'k dict_env \<Rightarrow> ('k, 'v) dict \<Rightarrow> 'k \<Rightarrow> 'v \<Rightarrow> (('k, 'v) dict \<times> bool) option" where
  "dictAdd env d key val =
     do {
       (d, entry, _) \<leftarrow> dictAddRaw env d key val;
       case entry of
         None \<Rightarrow> Some (d, False)
       | Some e \<Rightarrow> Some (dictSetVal d e val, True)
     }"

definition dictReplace :: "'k dict_env \<Rightarrow> ('k, 'v) dict \<Rightarrow> 'k \<Rightarrow> 'v \<Rightarrow> (('k, 'v) dict \<times> bool) option" where
  "dictReplace env d key val =
     do {
       (d, entry, existing) \<leftarrow> dictAddRaw env d key val;
       case entry of
         Some e \<Rightarrow> Some (dictSetVal d e val, True)
       | None \<Rightarrow>
           (case existing of
              None \<Rightarrow> None
            | Some e \<Rightarrow> Some (dictSetVal d e val, False))
     }"

definition dictAddOrFind :: "'k dict_env \<Rightarrow> ('k, 'v) dict \<Rightarrow> 'k \<Rightarrow> 'v \<Rightarrow>
    (('k, 'v) dict \<times> entry_ref option) option" where
  "dictAddOrFind env d key v0 =
     do {
       (d, entry, existing) \<leftarrow> dictAddRaw env d key v0;
       Some (d, if entry \<noteq> None then entry else existing)
     }"

definition unlink_entry :: "nat \<Rightarrow> nat \<Rightarrow> ('k, 'v) dictht \<Rightarrow> ('k, 'v) dictht" where
  "unlink_entry idx p t =
     t\<lparr>table := (table t)[idx := take p (table t ! idx) @ drop (Suc p) (table t ! idx)],
       used := used t - 1\<rparr>"

text \<open>The unlinked entry is returned; freeing it is not modelled, so \<open>nofree\<close> has no effect.\<close>

definition dictGenericDelete :: "'k dict_env \<Rightarrow> ('k, 'v) dict \<Rightarrow> 'k \<Rightarrow>
    (('k, 'v) dict \<times> ('k \<times> 'v) option) option" where
  "dictGenericDelete env d key =
     (if used (ht0 d) = 0 \<and> used (ht1 d) = 0 then Some (d, None)
      else
        do {
          d \<leftarrow> rehash_if_needed env d;
          let idx = bucket_index env (ht0 d) key in
          if \<not> idx < length (table (ht0 d)) then None
          else case chain_find env key (table (ht0 d) ! idx) of
            Some p \<Rightarrow> Some (d\<lparr>ht0 := unlink_entry idx p (ht0 d)\<rparr>, Some (table (ht0 d) ! idx ! p))
          | None \<Rightarrow>
              if \<not> dictIsRehashing d then Some (d, None)
              else
                (let idx = bucket_index env (ht1 d) key in
                 if \<not> idx < length (table (ht1 d)) then None
                 else case chain_find env key (table (ht1 d) ! idx) of
                   Some p \<Rightarrow> Some (d\<lparr>ht1 := unlink_entry idx p (ht1 d)\<rparr>, Some (table (ht1 d) ! idx ! p))
                 | None \<Rightarrow> Some (d, None))
        })"

definition dictDelete :: "'k dict_env \<Rightarrow> ('k, 'v) dict \<Rightarrow> 'k \<Rightarrow> (('k, 'v) dict \<times> bool) option" where
  "dictDelete env d key = map_option (\<lambda>(d, e). (d, e \<noteq> None)) (dictGenericDelete env d key)"

definition dictUnlink :: "'k dict_env \<Rightarrow> ('k, 'v) dict \<Rightarrow> 'k \<Rightarrow>
    (('k, 'v) dict \<times> ('k \<times> 'v) option) option" where
  "dictUnlink env d key = dictGenericDelete env d key"

definition dictFind :: "'k dict_env \<Rightarrow> ('k, 'v) dict \<Rightarrow> 'k \<Rightarrow> (('k, 'v) dict \<times> entry_ref option) option" where
  "dictFind env d key =
     (if used (ht0 d) + used (ht1 d) = 0 then Some (d, None)
      else
        do {
          d \<leftarrow> rehash_if_needed env d;
          let idx = bucket_index env (ht0 d) key in
          if \<not> idx < length (table (ht0 d)) then None
          else case chain_find env key (table (ht0 d) ! idx) of
            Some p \<Rightarrow> Some (d, Some (0, idx, p))
          | None \<Rightarrow>
              if \<not> dictIsRehashing d then Some (d, None)
              else
                (let idx = bucket_index env (ht1 d) key in
                 if \<not> idx < length (table (ht1 d)) then None
                 else case chain_find env key (table (ht1 d) ! idx) of
                   Some p \<Rightarrow> Some (d, Some (1, idx, p))
                 | None \<Rightarrow> Some (d, None))
        })"

definition dictFetchValue :: "'k dict_env \<Rightarrow> ('k, 'v) dict \<Rightarrow> 'k \<Rightarrow> (('k, 'v) dict \<times> 'v option) option" where
  "dictFetchValue env d key =
     map_option (\<lambda>(d, he). (d, map_option (\<lambda>e. snd (dictGetEntry d e)) he)) (dictFind env d key)"

text \<open>
  \<open>dictEmpty\<close> clears both tables: \<open>_dictClear\<close> frees every entry, which leaves no trace
  here, and resets the table.
\<close>

definition dictClear :: "('k, 'v) dictht \<Rightarrow> ('k, 'v) dictht" where
  "dictClear t = dictReset"

definition dictEmpty :: "('k, 'v) dict \<Rightarrow> ('k, 'v) dict" where
  "dictEmpty d = d\<lparr>ht0 := dictClear (ht0 d), ht1 := dictClear (ht1 d), rehashidx := -1, iterators := 0\<rparr>"

end
