(* ===== verification/Dict_Correct.thy ===== *)
theory Dict_Correct
  imports Dict
begin

text \<open>
  Correctness of the dictionary: the invariant of the two tables, that rehashing moves
  entries without losing or duplicating any, and that every operation refines the
  corresponding operation on finite maps, at any stage of an incremental rehash.
\<close>

section \<open>Invariant\<close>

definition keys_exact :: "'k dict_env \<Rightarrow> bool" where
  "keys_exact env \<longleftrightarrow> (\<forall>a b. dictCompareKeys env a b \<longleftrightarrow> a = b)"

definition ht_ok :: "'k dict_env \<Rightarrow> ('k, 'v) dictht \<Rightarrow> bool" where
  "ht_ok env t \<longleftrightarrow>
     (\<exists>k. 2 \<le> k \<and> k \<le> 63 \<and> ht_size t = 2 ^ k) \<and>
     sizemask t = ht_size t - 1 \<and>
     length (table t) = ht_size t \<and>
     used t = length (concat (table t)) \<and>
     (\<forall>i < ht_size t. \<forall>e \<in> set (table t ! i). bucket_index env t (fst e) = i)"

definition dents :: "('k, 'v) dict \<Rightarrow> ('k \<times> 'v) list" where
  "dents d = concat (table (ht0 d)) @ concat (table (ht1 d))"

definition dict_map :: "('k, 'v) dict \<Rightarrow> 'k \<rightharpoonup> 'v" where
  "dict_map d = map_of (dents d)"

definition tables_ok :: "'k dict_env \<Rightarrow> ('k, 'v) dict \<Rightarrow> bool" where
  "tables_ok env d \<longleftrightarrow>
     (if dictIsRehashing d then
        ht_ok env (ht0 d) \<and> ht_ok env (ht1 d) \<and>
        0 \<le> rehashidx d \<and> rehashidx d \<le> int (ht_size (ht0 d)) \<and>
        (\<forall>i < nat (rehashidx d). table (ht0 d) ! i = [])
      else (ht0 d = dictReset \<or> ht_ok env (ht0 d)) \<and> ht1 d = dictReset)"

definition dict_ok :: "'k dict_env \<Rightarrow> ('k, 'v) dict \<Rightarrow> bool" where
  "dict_ok env d \<longleftrightarrow> tables_ok env d \<and> distinct (map fst (dents d))"

text \<open>Far more entries than fit in memory: beyond this the table size itself saturates.\<close>

definition dict_room :: "('k, 'v) dict \<Rightarrow> bool" where
  "dict_room d \<longleftrightarrow> dictSize d < 2 ^ 62"

section \<open>Buckets\<close>

lemma and_pow_minus_1:
  assumes "k \<le> 63"
  shows "unat ((h :: 64 word) AND word_of_nat (2 ^ k - 1)) = unat h mod 2 ^ k"
proof -
  have "(word_of_nat (2 ^ k - 1) :: 64 word) = mask k"
    by (simp add: mask_eq_exp_minus_1 of_nat_diff)
  then have "h AND word_of_nat (2 ^ k - 1) = take_bit k h" by (simp add: take_bit_eq_mask)
  then have "unat (h AND word_of_nat (2 ^ k - 1)) = take_bit k (unat h)"
    by (simp only: unsigned_take_bit_eq)
  then show ?thesis by (simp only: take_bit_eq_mod)
qed

lemma bucket_index_less: "ht_ok env t \<Longrightarrow> bucket_index env t key < ht_size t"
proof -
  assume "ht_ok env t"
  then obtain k where "k \<le> 63" "ht_size t = 2 ^ k" "sizemask t = 2 ^ k - 1" by (auto simp: ht_ok_def)
  then show ?thesis using and_pow_minus_1 [of k "hashFunction env key"] by (simp only: bucket_index_def) simp
qed

lemma bucket_index_cong: "sizemask t = sizemask t' \<Longrightarrow> bucket_index env t key = bucket_index env t' key"
  by (simp add: bucket_index_def)

lemma mset_concat_update:
  "i < length xss \<Longrightarrow> mset (concat (xss[i := ys])) + mset (xss ! i) = mset (concat xss) + mset ys"
proof -
  assume i: "i < length xss"
  have "mset (concat xss) = mset (concat (take i xss)) + mset (xss ! i) + mset (concat (drop (Suc i) xss))"
    using id_take_nth_drop [OF i] by (metis concat.simps(2) concat_append mset_append union_assoc)
  then show ?thesis using i by (simp add: upd_conv_take_nth_drop)
qed

lemma record_order:
  "t\<lparr>used := u, table := tb\<rparr> = t\<lparr>table := tb, used := u\<rparr>"
  "d\<lparr>ht1 := t1, ht0 := t0\<rparr> = d\<lparr>ht0 := t0, ht1 := t1\<rparr>"
  by simp_all

lemma length_concat_mset: "mset (concat xss) = mset ys \<Longrightarrow> length (concat xss) = length ys"
  by (metis size_mset)

lemma set_bucket: "i < length tb \<Longrightarrow> e \<in> set (tb ! i) \<Longrightarrow> e \<in> set (concat tb)"
  by (metis UN_I nth_mem set_concat)

text \<open>A key is in a table exactly when it is in the bucket its hash selects.\<close>

lemma key_in_bucket:
  assumes "ht_ok env t"
  shows "e \<in> set (concat (table t)) \<and> fst e = key \<longleftrightarrow>
         e \<in> set (table t ! bucket_index env t key) \<and> fst e = key"
proof
  assume "e \<in> set (concat (table t)) \<and> fst e = key"
  then obtain i where "i < length (table t)" "e \<in> set (table t ! i)" "fst e = key"
    by (metis UN_E in_set_conv_nth set_concat)
  then show "e \<in> set (table t ! bucket_index env t key) \<and> fst e = key"
    using assms by (auto simp: ht_ok_def)
next
  assume "e \<in> set (table t ! bucket_index env t key) \<and> fst e = key"
  then show "e \<in> set (concat (table t)) \<and> fst e = key"
    using set_bucket [of "bucket_index env t key" "table t"] bucket_index_less [OF assms, of key] assms
    by (auto simp: ht_ok_def)
qed

lemma chain_find_Some:
  "keys_exact env \<Longrightarrow> chain_find env key ch = Some p \<Longrightarrow> p < length ch \<and> fst (ch ! p) = key"
  by (induction ch arbitrary: p) (auto simp: keys_exact_def split: if_splits)

lemma chain_find_None:
  "keys_exact env \<Longrightarrow> chain_find env key ch = None \<longleftrightarrow> key \<notin> fst ` set ch"
  by (induction ch) (auto simp: keys_exact_def)

lemma ht_ok_update_bucket:
  assumes ok: "ht_ok env t" and i: "i < ht_size t"
    and hash: "\<forall>e \<in> set ys. bucket_index env t (fst e) = i"
    and u: "u + length (table t ! i) = used t + length ys"
  shows "ht_ok env (t\<lparr>table := (table t)[i := ys], used := u\<rparr>)"
proof -
  have len: "length (table t) = ht_size t" using ok by (simp add: ht_ok_def)
  have "size (mset (concat ((table t)[i := ys]))) + length (table t ! i) =
      size (mset (concat (table t))) + length ys"
    using mset_concat_update [of i "table t" ys] i len by (metis size_mset size_union)
  then have "length (concat ((table t)[i := ys])) = u"
    using u ok by (simp add: ht_ok_def del: length_concat)
  moreover have "bucket_index env (t\<lparr>table := (table t)[i := ys], used := u\<rparr>) = bucket_index env t"
    by (simp add: bucket_index_def fun_eq_iff)
  ultimately show ?thesis
    using ok hash i by (auto simp: ht_ok_def nth_list_update simp del: length_concat split: if_splits)
qed

section \<open>Rehashing\<close>

lemma dictRehash_skip_spec:
  assumes "\<forall>i < idx. tbl ! i = []" and "\<exists>j. idx \<le> j \<and> j < length tbl \<and> tbl ! j \<noteq> []"
  shows "\<exists>idx' ev' stop. dictRehash_skip tbl idx ev = Some (idx', ev', stop) \<and>
     idx' \<le> length tbl \<and> (\<forall>i < idx'. tbl ! i = []) \<and>
     (\<not> stop \<longrightarrow> idx' < length tbl \<and> tbl ! idx' \<noteq> [])"
  using assms
proof (induction tbl idx ev rule: dictRehash_skip.induct)
  case (1 tbl idx ev)
  then obtain j where j: "idx \<le> j" "j < length tbl" "tbl ! j \<noteq> []" by blast
  show ?case
  proof (cases "tbl ! idx = []")
    case False
    then show ?thesis using j 1 by (subst dictRehash_skip.simps) auto
  next
    case True
    then have j': "idx + 1 \<le> j" using j by (cases "idx = j") auto
    have all: "\<forall>i < idx + 1. tbl ! i = []" using True 1(2) by (auto simp: less_Suc_eq)
    show ?thesis
    proof (cases "ev - 1 = 0")
      case ev: True
      then show ?thesis using True all j j' by (subst dictRehash_skip.simps) auto
    next
      case False
      then have "dictRehash_skip tbl idx ev = dictRehash_skip tbl (idx + 1) (ev - 1)"
        using True j by (subst dictRehash_skip.simps) auto
      then show ?thesis using "1.IH" [OF _ True False all] j j' by auto
    qed
  qed
qed

lemma dictRehash_move_spec:
  assumes "ht_ok env (ht1 d)"
  shows "\<exists>t1. dictRehash_move env es d =
       Some (d\<lparr>ht0 := (ht0 d)\<lparr>used := used (ht0 d) - length es\<rparr>, ht1 := t1\<rparr>) \<and>
     ht_ok env t1 \<and> mset (concat (table t1)) = mset (concat (table (ht1 d))) + mset es"
  using assms
proof (induction es arbitrary: d)
  case Nil
  then show ?case by (intro exI [of _ "ht1 d"]) simp
next
  case (Cons e es)
  define h where "h = bucket_index env (ht1 d) (fst e)"
  define t where "t = (ht1 d)\<lparr>table := (table (ht1 d))[h := e # table (ht1 d) ! h], used := used (ht1 d) + 1\<rparr>"
  define d1 where "d1 = d\<lparr>ht0 := (ht0 d)\<lparr>used := used (ht0 d) - 1\<rparr>, ht1 := t\<rparr>"
  have h: "h < ht_size (ht1 d)" "length (table (ht1 d)) = ht_size (ht1 d)"
    using bucket_index_less [OF Cons.prems] Cons.prems by (auto simp: h_def ht_ok_def)
  have "ht_ok env t" unfolding t_def
    using Cons.prems h by (intro ht_ok_update_bucket) (auto simp: ht_ok_def h_def)
  then have "ht_ok env (ht1 d1)" by (simp add: d1_def)
  from Cons.IH [OF this] obtain t1 where t1: "dictRehash_move env es d1 =
       Some (d1\<lparr>ht0 := (ht0 d1)\<lparr>used := used (ht0 d1) - length es\<rparr>, ht1 := t1\<rparr>)"
    "ht_ok env t1" "mset (concat (table t1)) = mset (concat (table (ht1 d1))) + mset es" by blast
  have "mset (concat (table t)) = mset (concat (table (ht1 d))) + {#e#}"
    using mset_concat_update [of h "table (ht1 d)" "e # table (ht1 d) ! h"] h by (simp add: t_def)
  moreover have "dictRehash_move env (e # es) d = dictRehash_move env es d1"
    using h by (simp add: Let_def h_def d1_def t_def)
  ultimately show ?case using t1 by (intro exI [of _ t1]) (simp add: d1_def)
qed


lemma nonempty_bucket:
  assumes "ht_ok env t" and "used t \<noteq> 0"
  shows "\<exists>j < length (table t). table t ! j \<noteq> []"
proof (rule ccontr)
  assume "\<not> ?thesis"
  then have "\<forall>xs \<in> set (table t). xs = []" by (metis in_set_conv_nth)
  then have "concat (table t) = []" by simp
  then show False using assms by (simp add: ht_ok_def)
qed

text \<open>
  The rehashing state: both tables well formed, everything below \<open>rehashidx\<close> moved.  A
  step keeps it and keeps the multiset of entries, never reads outside the old table, and
  its assertion holds.
\<close>

lemma dictRehash_loop_spec:
  assumes "dictIsRehashing d" and "tables_ok env d"
  shows "\<exists>d' stop. dictRehash_loop env n d ev = Some (d', stop) \<and>
     dictIsRehashing d' \<and> tables_ok env d' \<and> mset (dents d') = mset (dents d) \<and>
     iterators d' = iterators d"
  using assms
proof (induction n arbitrary: d ev)
  case 0
  then show ?case by auto
next
  case (Suc n)
  let ?t0 = "ht0 d"
  have ok: "ht_ok env ?t0" "ht_ok env (ht1 d)" "0 \<le> rehashidx d" "rehashidx d \<le> int (ht_size ?t0)"
    "\<forall>i < nat (rehashidx d). table ?t0 ! i = []" and len: "length (table ?t0) = ht_size ?t0"
    using Suc.prems by (auto simp: tables_ok_def ht_ok_def)
  show ?case
  proof (cases "used ?t0 = 0")
    case True
    then show ?thesis using Suc.prems by auto
  next
    case False
    then obtain j where j: "j < length (table ?t0)" "table ?t0 ! j \<noteq> []"
      using nonempty_bucket [OF ok(1)] by blast
    then have jr: "nat (rehashidx d) \<le> j" using ok(5) by (meson not_less)
    then have lt: "rehashidx d < int (ht_size ?t0)" using j len by linarith
    obtain idx ev' stop where sk: "dictRehash_skip (table ?t0) (nat (rehashidx d)) ev = Some (idx, ev', stop)"
      "idx \<le> length (table ?t0)" "\<forall>i < idx. table ?t0 ! i = []"
      "\<not> stop \<longrightarrow> idx < length (table ?t0) \<and> table ?t0 ! idx \<noteq> []"
      using dictRehash_skip_spec [OF ok(5), of ev] j jr by blast
    show ?thesis
    proof (cases stop)
      case True
      then show ?thesis
        using False lt sk Suc.prems ok len
        by (auto simp: tables_ok_def dictIsRehashing_def dents_def)
    next
      case ns: False
      let ?b = "table ?t0 ! idx"
      obtain t1 where t1: "dictRehash_move env ?b d =
           Some (d\<lparr>ht0 := ?t0\<lparr>used := used ?t0 - length ?b\<rparr>, ht1 := t1\<rparr>)"
        "ht_ok env t1" "mset (concat (table t1)) = mset (concat (table (ht1 d))) + mset ?b"
        using dictRehash_move_spec [OF ok(2)] by blast
      have idx: "idx < ht_size ?t0" using sk(4) ns len by simp
      have ub: "mset (concat ((table ?t0)[idx := []])) + mset ?b = mset (concat (table ?t0))"
        using mset_concat_update [of idx "table ?t0" "[]"] idx len by simp
      have "length ?b \<le> used ?t0"
        using arg_cong [OF ub, of size] ok(1) by (simp add: ht_ok_def)
      then have t0': "ht_ok env (?t0\<lparr>table := (table ?t0)[idx := []], used := used ?t0 - length ?b\<rparr>)"
        by (intro ht_ok_update_bucket [OF ok(1) idx]) auto
      define d2 where "d2 = d\<lparr>ht0 := ?t0\<lparr>table := (table ?t0)[idx := []], used := used ?t0 - length ?b\<rparr>,
          ht1 := t1, rehashidx := int idx + 1\<rparr>"
      have d2: "dictIsRehashing d2" "tables_ok env d2" "iterators d2 = iterators d"
        using t0' t1(2) idx sk(3) len
        by (auto simp: d2_def tables_ok_def dictIsRehashing_def nat_add_distrib less_Suc_eq nth_list_update)
      have "mset (dents d2) = mset (dents d)"
        using ub t1(3) by (simp add: dents_def d2_def)
      moreover have "dictRehash_loop env (Suc n) d ev = dictRehash_loop env n d2 ev'"
        using False lt sk(1) ns t1(1) by (simp add: d2_def record_order)
      ultimately show ?thesis using Suc.IH [OF d2(1,2), of ev'] d2(3) by auto
    qed
  qed
qed

lemma concat_table_Nil: "ht_ok env t \<Longrightarrow> used t = 0 \<Longrightarrow> concat (table t) = []"
  by (simp add: ht_ok_def)

lemma dictRehash_spec:
  assumes "tables_ok env d"
  shows "\<exists>d' more. dictRehash env d n = Some (d', more) \<and>
     tables_ok env d' \<and> mset (dents d') = mset (dents d) \<and> iterators d' = iterators d \<and>
     (more \<longleftrightarrow> dictIsRehashing d')"
proof (cases "dictIsRehashing d")
  case False
  then show ?thesis using assms by (simp add: dictRehash_def)
next
  case True
  obtain d1 stop where d1: "dictRehash_loop env n d (n * 10) = Some (d1, stop)" "dictIsRehashing d1"
    "tables_ok env d1" "mset (dents d1) = mset (dents d)" "iterators d1 = iterators d"
    using dictRehash_loop_spec [OF True assms] by blast
  have ok1: "ht_ok env (ht0 d1)" "ht_ok env (ht1 d1)" using d1(2,3) by (auto simp: tables_ok_def)
  show ?thesis
  proof (cases "\<not> stop \<and> used (ht0 d1) = 0")
    case fin: True
    let ?d2 = "d1\<lparr>ht0 := ht1 d1, ht1 := dictReset, rehashidx := -1\<rparr>"
    have "tables_ok env ?d2" "\<not> dictIsRehashing ?d2"
      using ok1 by (auto simp: tables_ok_def dictIsRehashing_def)
    moreover have "mset (dents ?d2) = mset (dents d1)"
      using concat_table_Nil [OF ok1(1)] fin by (simp add: dents_def dictReset_def)
    moreover have "dictRehash env d n = Some (?d2, False)" using True d1(1) fin by (simp add: dictRehash_def)
    ultimately show ?thesis using d1(4,5) by auto
  next
    case False
    then have "dictRehash env d n = Some (d1, True)" using True d1(1) by (auto simp: dictRehash_def)
    then show ?thesis using d1 by auto
  qed
qed

lemma rehash_if_needed_spec:
  assumes "tables_ok env d"
  shows "\<exists>d'. rehash_if_needed env d = Some d' \<and> tables_ok env d' \<and>
     mset (dents d') = mset (dents d) \<and> iterators d' = iterators d"
  using assms dictRehash_spec [OF assms, of 1]
  by (auto simp: rehash_if_needed_def dictRehashStep_def)


section \<open>Expansion\<close>

lemma dictNextPower_loop_spec:
  assumes "i = 2 ^ j" and "j \<le> 63" and "sz \<le> 2 ^ 63"
  shows "\<exists>k. j \<le> k \<and> k \<le> 63 \<and> dictNextPower_loop i sz = 2 ^ k \<and> sz \<le> 2 ^ k"
  using assms
proof (induction i sz arbitrary: j rule: dictNextPower_loop.induct)
  case (1 i sz)
  show ?case
  proof (cases "i \<ge> sz")
    case True
    then show ?thesis using 1 by (intro exI [of _ j]) (simp add: dictNextPower_loop.simps)
  next
    case False
    then have "(2::nat) ^ j < 2 ^ 63" using "1.prems" by linarith
    then have "Suc j \<le> 63" by (metis Suc_leI nat_power_less_imp_less zero_less_numeral)
    moreover have "i \<noteq> 0" using "1.prems" by simp
    moreover then have "dictNextPower_loop i sz = dictNextPower_loop (i * 2) sz"
      using False by (simp add: dictNextPower_loop.simps [of i sz])
    ultimately show ?thesis
      using "1.IH" [of "Suc j"] False "1.prems" by auto
  qed
qed

lemma dictNextPower_spec:
  "\<exists>k. 2 \<le> k \<and> k \<le> 63 \<and> dictNextPower sz = 2 ^ k \<and> (sz < LONG_MAX \<longrightarrow> sz \<le> 2 ^ k)"
proof (cases "sz \<ge> LONG_MAX")
  case True
  then show ?thesis by (intro exI [of _ 63]) (simp add: dictNextPower_def LONG_MAX_def)
next
  case False
  then have "sz \<le> 2 ^ 63" by (simp add: LONG_MAX_def)
  then show ?thesis
    using dictNextPower_loop_spec [of 4 2 sz] False by (auto simp: dictNextPower_def)
qed

lemma ht_ok_fresh:
  assumes "2 \<le> k" and "k \<le> 63"
  shows "ht_ok env \<lparr>table = replicate (2 ^ k) [], ht_size = 2 ^ k, sizemask = 2 ^ k - 1, used = 0\<rparr>"
proof -
  have "concat (replicate n ([] :: 'x list)) = []" for n by (induction n) auto
  then show ?thesis using assms by (auto simp: ht_ok_def simp del: length_concat)
qed

lemma dictExpand_ok:
  assumes "tables_ok env d"
  shows "tables_ok env (fst (dictExpand d sz)) \<and> dents (fst (dictExpand d sz)) = dents d \<and>
         iterators (fst (dictExpand d sz)) = iterators d"
proof (cases "dictIsRehashing d \<or> used (ht0 d) > sz \<or> dictNextPower sz = ht_size (ht0 d)")
  case True
  then show ?thesis using assms by (auto simp: dictExpand_def Let_def)
next
  case False
  obtain k where k: "2 \<le> k" "k \<le> 63" "dictNextPower sz = 2 ^ k" using dictNextPower_spec by blast
  note fresh = ht_ok_fresh [OF k(1,2), of env]
  have nr: "\<not> dictIsRehashing d" using False by simp
  then have h: "ht0 d = dictReset \<or> ht_ok env (ht0 d)" "ht1 d = dictReset" using assms by (auto simp: tables_ok_def)
  have rn: "concat (replicate n ([] :: 'x list)) = []" for n by (induction n) auto
  show ?thesis
  proof (cases "table (ht0 d) = []")
    case True
    then show ?thesis
      using False h fresh nr k(3) rn
      by (auto simp: dictExpand_def Let_def tables_ok_def dictIsRehashing_def dents_def)
  next
    case t: False
    then have "ht_ok env (ht0 d)" using h(1) by (auto simp: dictReset_def)
    then show ?thesis
      using t False h fresh k(3) rn
      by (auto simp: dictExpand_def Let_def tables_ok_def dictIsRehashing_def dents_def dictReset_def)
  qed
qed

lemma dictSize_dents: "tables_ok env d \<Longrightarrow> dictSize d = length (dents d)"
  by (auto simp: tables_ok_def dictSize_def dents_def ht_ok_def dictReset_def split: if_splits
      simp del: length_concat)

lemma dictExpandIfNeeded_spec:
  assumes ok: "tables_ok env d" and room: "dict_room d"
  shows "\<exists>d'. dictExpandIfNeeded env d = (d', True) \<and> tables_ok env d' \<and> ht_ok env (ht0 d') \<and>
     dents d' = dents d \<and> iterators d' = iterators d"
proof -
  consider "dictIsRehashing d" | "\<not> dictIsRehashing d" "ht_size (ht0 d) = 0"
    | "\<not> dictIsRehashing d" "ht_size (ht0 d) \<noteq> 0" by blast
  then show ?thesis
  proof cases
    case 1
    then show ?thesis using ok by (auto simp: dictExpandIfNeeded_def tables_ok_def)
  next
    case 2
    then have t0: "ht0 d = dictReset" using ok by (auto simp: tables_ok_def ht_ok_def)
    have p4: "dictNextPower 4 = 4" by (simp add: dictNextPower_def dictNextPower_loop.simps LONG_MAX_def)
    have "snd (dictExpand d 4)" and "ht_ok env (ht0 (fst (dictExpand d 4)))"
      using 2 t0 p4 ht_ok_fresh [of 2 env] by (simp_all add: dictExpand_def Let_def dictReset_def)
    then show ?thesis
      using dictExpand_ok [OF ok, of 4] 2 by (simp add: dictExpandIfNeeded_def) (metis prod.collapse)
  next
    case 3
    then have t0: "ht_ok env (ht0 d)" using ok by (auto simp: tables_ok_def dictReset_def)
    show ?thesis
    proof (cases "used (ht0 d) \<ge> ht_size (ht0 d) \<and>
              (dict_can_resize env \<or> used (ht0 d) div ht_size (ht0 d) > dict_force_resize_ratio)")
      case False
      then have "dictExpandIfNeeded env d = (d, True)" using 3 by (auto simp: dictExpandIfNeeded_def)
      then show ?thesis using ok t0 by simp
    next
      case True
      let ?u = "used (ht0 d)"
      have "?u * 2 < LONG_MAX" using room by (simp add: dict_room_def dictSize_def LONG_MAX_def)
      then have "?u * 2 \<le> dictNextPower (?u * 2)" using dictNextPower_spec [of "?u * 2"] by auto
      then have "dictNextPower (?u * 2) \<noteq> ht_size (ht0 d)" using True 3 by linarith
      moreover have "table (ht0 d) \<noteq> []" using t0 3 by (auto simp: ht_ok_def)
      ultimately have "snd (dictExpand d (?u * 2))" and "ht0 (fst (dictExpand d (?u * 2))) = ht0 d"
        using 3 by (simp_all add: dictExpand_def Let_def)
      moreover have "dictExpandIfNeeded env d = dictExpand d (?u * 2)"
        using 3 True by (simp add: dictExpandIfNeeded_def)
      ultimately show ?thesis
        using dictExpand_ok [OF ok, of "?u * 2"] t0 by (metis prod.collapse)
    qed
  qed
qed


section \<open>Finding entries\<close>

lemma chain_find_table:
  assumes "keys_exact env" and "ht_ok env t"
  shows "chain_find env key (table t ! bucket_index env t key) = None \<longleftrightarrow>
         key \<notin> fst ` set (concat (table t))"
proof -
  have "key \<in> fst ` set (concat (table t)) \<longleftrightarrow> key \<in> fst ` set (table t ! bucket_index env t key)"
  proof -
    have ex: "key \<in> fst ` A \<longleftrightarrow> (\<exists>e. e \<in> A \<and> fst e = key)" for A :: "('a \<times> 'b) set"
      by (force simp: image_iff)
    show ?thesis by (simp only: ex key_in_bucket [OF assms(2), of _ key])
  qed
  then show ?thesis using chain_find_None [OF assms(1)] by blast
qed

text \<open>A reference is valid when it points at an entry.\<close>

fun valid_ref :: "('k, 'v) dict \<Rightarrow> entry_ref \<Rightarrow> bool" where
  "valid_ref d (tb, i, p) \<longleftrightarrow>
     (if tb = 0 then i < length (table (ht0 d)) \<and> p < length (table (ht0 d) ! i)
      else tb = 1 \<and> i < length (table (ht1 d)) \<and> p < length (table (ht1 d) ! i))"

definition entry_at :: "('k, 'v) dict \<Rightarrow> 'k \<Rightarrow> entry_ref \<Rightarrow> bool" where
  "entry_at d key r \<longleftrightarrow> valid_ref d r \<and> fst (dictGetEntry d r) = key"

lemma valid_ref_dents: "valid_ref d r \<Longrightarrow> dictGetEntry d r \<in> set (dents d)"
  using set_bucket [of "fst (snd r)" "table (ht0 d)"] set_bucket [of "fst (snd r)" "table (ht1 d)"]
  by (cases r) (auto simp: dents_def split: if_splits)

lemma not_rehashing_ht1: "tables_ok env d \<Longrightarrow> \<not> dictIsRehashing d \<Longrightarrow> concat (table (ht1 d)) = []"
  by (simp add: tables_ok_def dictReset_def)

lemma dents_keys: "fst ` set (dents d) = fst ` set (concat (table (ht0 d))) \<union> fst ` set (concat (table (ht1 d)))"
  by (simp add: dents_def image_Un)

text \<open>
  The two-table search shared by \<open>_dictKeyIndex\<close>, \<open>dictFind\<close> and \<open>dictGenericDelete\<close>, on
  tables where the first one is allocated.
\<close>

lemma search_cases:
  fixes env :: "'k dict_env" and d :: "('k, 'v) dict" and key :: 'k
  assumes exact: "keys_exact env" and ok: "tables_ok env d" and t0: "ht_ok env (ht0 d)"
  defines "i0 \<equiv> bucket_index env (ht0 d) key" and "i1 \<equiv> bucket_index env (ht1 d) key"
  obtains (first) p where "i0 < length (table (ht0 d))"
      "chain_find env key (table (ht0 d) ! i0) = Some p" "entry_at d key (0, i0, p)"
  | (second) p where "i0 < length (table (ht0 d))" "chain_find env key (table (ht0 d) ! i0) = None"
      "dictIsRehashing d" "i1 < length (table (ht1 d))"
      "chain_find env key (table (ht1 d) ! i1) = Some p" "entry_at d key (1, i1, p)"
  | (absent1) "i0 < length (table (ht0 d))" "chain_find env key (table (ht0 d) ! i0) = None"
      "\<not> dictIsRehashing d" "key \<notin> fst ` set (dents d)"
  | (absent2) "i0 < length (table (ht0 d))" "chain_find env key (table (ht0 d) ! i0) = None"
      "dictIsRehashing d" "i1 < length (table (ht1 d))"
      "chain_find env key (table (ht1 d) ! i1) = None" "key \<notin> fst ` set (dents d)"
proof -
  have l0: "i0 < length (table (ht0 d))" using bucket_index_less [OF t0] t0 by (simp add: i0_def ht_ok_def)
  show ?thesis
  proof (cases "chain_find env key (table (ht0 d) ! i0)")
    case (Some p)
    then show ?thesis using first [OF l0 Some] chain_find_Some [OF exact Some] l0 by (simp add: entry_at_def)
  next
    case None
    then have n0: "key \<notin> fst ` set (concat (table (ht0 d)))"
      using chain_find_table [OF exact t0] by (simp add: i0_def)
    show ?thesis
    proof (cases "dictIsRehashing d")
      case False
      then show ?thesis using absent1 [OF l0 None] n0 not_rehashing_ht1 [OF ok] by (simp add: dents_keys)
    next
      case True
      then have t1: "ht_ok env (ht1 d)" using ok by (simp add: tables_ok_def)
      then have l1: "i1 < length (table (ht1 d))" using bucket_index_less by (simp add: i1_def ht_ok_def)
      show ?thesis
      proof (cases "chain_find env key (table (ht1 d) ! i1)")
        case (Some p)
        then show ?thesis
          using second [OF l0 None True l1 Some] chain_find_Some [OF exact Some] l1 by (simp add: entry_at_def)
      next
        case n1: None
        then have "key \<notin> fst ` set (concat (table (ht1 d)))"
          using chain_find_table [OF exact t1] by (simp add: i1_def)
        then show ?thesis using absent2 [OF l0 None True l1 n1] n0 by (simp add: dents_keys)
      qed
    qed
  qed
qed

lemma entry_at_in: "entry_at d key r \<Longrightarrow> key \<in> fst ` set (dents d)"
  using valid_ref_dents by (fastforce simp: entry_at_def)

lemma dom_dict_map: "dom (dict_map d) = fst ` set (dents d)"
  by (simp add: dict_map_def dom_map_of_conv_image_fst)

lemma entry_at_lookup:
  "dict_ok env d \<Longrightarrow> entry_at d key r \<Longrightarrow> dict_map d key = Some (snd (dictGetEntry d r))"
  using valid_ref_dents [of d r]
  by (auto simp: dict_ok_def entry_at_def dict_map_def)

lemma distinct_fst_mset: "mset xs = mset ys \<Longrightarrow> distinct (map fst xs) \<longleftrightarrow> distinct (map fst ys)"
  by (metis mset_map distinct_count_atmost_1 mset_eq_imp_distinct_iff)

lemma map_of_mset_eq: "mset xs = mset ys \<Longrightarrow> distinct (map fst xs) \<Longrightarrow> map_of xs = map_of ys"
proof -
  assume a: "mset xs = mset ys" "distinct (map fst xs)"
  then have "distinct (map fst ys)" "set xs = set ys" using distinct_fst_mset mset_eq_setD by blast+
  with a(2) show ?thesis by (simp add: map_of_inject_set)
qed

lemma same_entries:
  assumes "mset (dents d') = mset (dents d)" and "dict_ok env d" and "tables_ok env d'"
  shows "dict_ok env d'" and "dict_map d' = dict_map d" and "dictSize d' = dictSize d"
proof -
  show "dict_ok env d'" using assms distinct_fst_mset [OF assms(1)] by (simp add: dict_ok_def)
  show "dict_map d' = dict_map d" unfolding dict_map_def
    using map_of_mset_eq [OF assms(1) [symmetric]] assms(2) by (simp add: dict_ok_def)
  show "dictSize d' = dictSize d"
    using assms dictSize_dents by (metis dict_ok_def size_mset)
qed

section \<open>Changing entries\<close>

lemma push_entry_ok:
  assumes "ht_ok env t" and "idx = bucket_index env t (fst e)"
  shows "ht_ok env (push_entry idx e t)" and "mset (concat (table (push_entry idx e t))) = add_mset e (mset (concat (table t)))"
proof -
  have i: "idx < ht_size t" "length (table t) = ht_size t"
    using assms bucket_index_less [OF assms(1), of "fst e"] by (auto simp: ht_ok_def)
  show "ht_ok env (push_entry idx e t)" unfolding push_entry_def
    using assms i by (intro ht_ok_update_bucket) (auto simp: ht_ok_def)
  show "mset (concat (table (push_entry idx e t))) = add_mset e (mset (concat (table t)))"
    using mset_concat_update [of idx "table t" "e # table t ! idx"] i by (simp add: push_entry_def)
qed

lemma mset_exchange:
  fixes X :: "'a multiset"
  assumes "X + B = C + B'" and "B' + P = E + B"
  shows "X + P = C + E"
proof -
  have "X + P + B = (X + B) + P" by (simp only: union_ac)
  also have "\<dots> = (C + B') + P" by (simp only: assms(1))
  also have "\<dots> = C + (B' + P)" by (simp only: union_ac)
  also have "\<dots> = C + (E + B)" by (simp only: assms(2))
  also have "\<dots> = (C + E) + B" by (simp only: union_ac)
  finally show ?thesis by (rule add_right_imp_eq)
qed

lemma set_entry_ok:
  assumes "ht_ok env t" and "idx < length (table t)" and "p < length (table t ! idx)"
  shows "ht_ok env (set_entry idx p v t)"
    and "mset (concat (table (set_entry idx p v t))) + {#table t ! idx ! p#} =
         add_mset (fst (table t ! idx ! p), v) (mset (concat (table t)))"
proof -
  let ?b = "table t ! idx" and ?e = "(fst (table t ! idx ! p), v)"
  have i: "idx < ht_size t" using assms by (simp add: ht_ok_def)
  have "\<forall>e \<in> set (?b[p := ?e]). bucket_index env t (fst e) = idx"
  proof
    fix e assume "e \<in> set (?b[p := ?e])"
    then have "e = ?e \<or> e \<in> set ?b" using set_update_subset_insert by fastforce
    moreover have "\<forall>e \<in> set ?b. bucket_index env t (fst e) = idx" using assms(1) i by (simp add: ht_ok_def)
    ultimately show "bucket_index env t (fst e) = idx" using nth_mem [OF assms(3)] by auto
  qed
  then have "ht_ok env (t\<lparr>table := (table t)[idx := ?b[p := ?e]], used := used t\<rparr>)"
    using assms i by (intro ht_ok_update_bucket) auto
  then show "ht_ok env (set_entry idx p v t)" by (simp add: set_entry_def)
  have m2: "mset (?b[p := ?e]) + {#?b ! p#} = {#?e#} + mset ?b"
    using assms(3) by (simp add: mset_update)
  show "mset (concat (table (set_entry idx p v t))) + {#?b ! p#} = add_mset ?e (mset (concat (table t)))"
    using mset_exchange [OF mset_concat_update [OF assms(2)] m2] by (simp add: set_entry_def)
qed

lemma unlink_entry_ok:
  assumes "ht_ok env t" and "idx < length (table t)" and "p < length (table t ! idx)"
  shows "ht_ok env (unlink_entry idx p t)"
    and "add_mset (table t ! idx ! p) (mset (concat (table (unlink_entry idx p t)))) = mset (concat (table t))"
proof -
  let ?b = "table t ! idx" let ?b' = "take p ?b @ drop (Suc p) ?b"
  have i: "idx < ht_size t" using assms by (simp add: ht_ok_def)
  have lb: "length ?b = Suc (length ?b')" using assms(3) by simp
  have "set ?b' \<subseteq> set ?b" using set_take_subset [of p ?b] set_drop_subset [of "Suc p" ?b] by simp
  moreover have "\<forall>e \<in> set ?b. bucket_index env t (fst e) = idx" using assms(1) i by (simp add: ht_ok_def)
  ultimately have h: "\<forall>e \<in> set ?b'. bucket_index env t (fst e) = idx" by blast
  have "used t = length (concat (table t))" using assms(1) by (simp only: ht_ok_def)
  then have "0 < used t"
    using length_pos_if_in_set [OF set_bucket [OF assms(2) nth_mem [OF assms(3)]]] by simp
  then have u: "used t - 1 + length ?b = used t + length ?b'" using lb by linarith
  show "ht_ok env (unlink_entry idx p t)" unfolding unlink_entry_def
    by (rule ht_ok_update_bucket [OF assms(1) i h u])
  have "mset ?b = mset (take p ?b @ ?b ! p # drop (Suc p) ?b)"
    by (rule arg_cong [where f = mset], rule id_take_nth_drop [OF assms(3)])
  also have "\<dots> = mset ?b' + {#?b ! p#}" by simp
  finally have "mset ?b' + {#?b ! p#} = {#} + mset ?b" by simp
  from mset_exchange [OF mset_concat_update [OF assms(2)] this]
  show "add_mset (?b ! p) (mset (concat (table (unlink_entry idx p t)))) = mset (concat (table t))"
    by (simp add: unlink_entry_def)
qed

section \<open>The operations on the finite map\<close>

lemma dict_ok_tables: "dict_ok env d \<Longrightarrow> tables_ok env d"
  by (simp add: dict_ok_def)

lemma dents_with:
  "mset (dents (d\<lparr>ht0 := t\<rparr>)) = mset (concat (table t)) + mset (concat (table (ht1 d)))"
  "mset (dents (d\<lparr>ht1 := t\<rparr>)) = mset (concat (table (ht0 d))) + mset (concat (table t))"
  "mset (dents d) = mset (concat (table (ht0 d))) + mset (concat (table (ht1 d)))"
  by (simp_all add: dents_def)

text \<open>Replacing a table by a well-formed one of the same shape keeps the two-table invariant.\<close>

lemma tables_ok_push:
  assumes "tables_ok env d" and "ht_ok env (ht0 d)"
  shows "dictIsRehashing d \<Longrightarrow> idx = bucket_index env (ht1 d) (fst e) \<Longrightarrow>
           tables_ok env (d\<lparr>ht1 := push_entry idx e (ht1 d)\<rparr>)"
    and "\<not> dictIsRehashing d \<Longrightarrow> idx = bucket_index env (ht0 d) (fst e) \<Longrightarrow>
           tables_ok env (d\<lparr>ht0 := push_entry idx e (ht0 d)\<rparr>)"
  using assms push_entry_ok(1) [of env "ht1 d" idx e] push_entry_ok(1) [of env "ht0 d" idx e]
  by (auto simp: tables_ok_def dictIsRehashing_def)

lemma valid_ref_ht_ok:
  assumes "tables_ok env d" and "valid_ref d (tb, i, p)"
  shows "if tb = 0 then ht_ok env (ht0 d) else tb = 1 \<and> dictIsRehashing d \<and> ht_ok env (ht1 d)"
  using assms by (auto simp: tables_ok_def dictReset_def split: if_splits)

lemma moved_empty:
  assumes "tables_ok env d" and "dictIsRehashing d" and "i < length (table (ht0 d))" and "p < length (table (ht0 d) ! i)"
  shows "nat (rehashidx d) \<le> i"
  using assms by (auto simp: tables_ok_def not_less [symmetric])

lemma tables_ok_update_bucket0:
  assumes "tables_ok env d" and "ht_ok env (ht0 d)"
    and "ht_ok env ((ht0 d)\<lparr>table := (table (ht0 d))[i := ys], used := u\<rparr>)"
    and "i < length (table (ht0 d))" and "p < length (table (ht0 d) ! i)"
  shows "tables_ok env (d\<lparr>ht0 := (ht0 d)\<lparr>table := (table (ht0 d))[i := ys], used := u\<rparr>\<rparr>)"
  using assms moved_empty [OF assms(1) _ assms(4,5)]
  by (auto simp: tables_ok_def dictIsRehashing_def nth_list_update)

lemma tables_ok_update1:
  assumes "tables_ok env d" and "dictIsRehashing d" and "ht_ok env t"
  shows "tables_ok env (d\<lparr>ht1 := t\<rparr>)"
  using assms by (auto simp: tables_ok_def dictIsRehashing_def)

lemma dictSetVal_mset:
  assumes ok: "tables_ok env d" and v: "valid_ref d r"
  shows "tables_ok env (dictSetVal d r val) \<and>
     add_mset (dictGetEntry d r) (mset (dents (dictSetVal d r val))) =
     add_mset (fst (dictGetEntry d r), val) (mset (dents d)) \<and>
     iterators (dictSetVal d r val) = iterators d"
proof -
  obtain tb i p where r: "r = (tb, i, p)" by (cases r)
  have h: "if tb = 0 then ht_ok env (ht0 d) else tb = 1 \<and> dictIsRehashing d \<and> ht_ok env (ht1 d)"
    using valid_ref_ht_ok ok v r by blast
  show ?thesis
  proof (cases "tb = 0")
    case True
    then have t0: "ht_ok env (ht0 d)" and b: "i < length (table (ht0 d))" "p < length (table (ht0 d) ! i)"
      using h v r by auto
    note se = set_entry_ok [OF t0 b, of val]
    have "tables_ok env (d\<lparr>ht0 := set_entry i p val (ht0 d)\<rparr>)"
      using tables_ok_update_bucket0 [OF ok t0 _ b, where u = "used (ht0 d)"] se(1) by (simp add: set_entry_def)
    then show ?thesis using se(2) r True by (simp add: dents_with)
  next
    case False
    then have t1: "ht_ok env (ht1 d)" "dictIsRehashing d" and b: "i < length (table (ht1 d))" "p < length (table (ht1 d) ! i)"
      using h v r by auto
    note se = set_entry_ok [OF t1(1) b, of val]
    show ?thesis using tables_ok_update1 [OF ok t1(2) se(1)] se(2) r False by (simp add: dents_with)
  qed
qed

lemma map_of_add_mset:
  assumes "mset ys = add_mset (k, v) (mset xs)" and "distinct (map fst ys)"
  shows "map_of ys = (map_of xs)(k \<mapsto> v)" and "distinct (map fst xs)" and "k \<notin> fst ` set xs"
proof -
  have m: "mset ys = mset ((k, v) # xs)" using assms(1) by simp
  have d: "distinct (map fst ((k, v) # xs))" using distinct_fst_mset [OF m] assms(2) by simp
  show "map_of ys = (map_of xs)(k \<mapsto> v)" using map_of_mset_eq [OF m assms(2)] by simp
  show "distinct (map fst xs)" "k \<notin> fst ` set xs" using d by auto
qed

lemma distinct_add_mset:
  assumes "mset ys = add_mset (k, v) (mset xs)" and "distinct (map fst xs)" and "k \<notin> fst ` set xs"
  shows "distinct (map fst ys)"
  using distinct_fst_mset [of ys "(k, v) # xs"] assms by auto

lemma dictSetVal_ok:
  assumes ok: "dict_ok env d" and e: "entry_at d key r"
  shows "dict_ok env (dictSetVal d r val) \<and> dict_map (dictSetVal d r val) = (dict_map d)(key \<mapsto> val) \<and>
     iterators (dictSetVal d r val) = iterators d"
proof -
  let ?d = "dictSetVal d r val" and ?v = "snd (dictGetEntry d r)"
  have v: "valid_ref d r" and k: "dictGetEntry d r = (key, ?v)" using e by (auto simp: entry_at_def prod_eq_iff)
  have m: "add_mset (key, ?v) (mset (dents ?d)) = add_mset (key, val) (mset (dents d))"
    and t: "tables_ok env ?d" "iterators ?d = iterators d"
    using dictSetVal_mset [OF dict_ok_tables [OF ok] v, of val] k by (metis fst_conv)+
  have "(key, ?v) \<in> set (dents d)" using valid_ref_dents [OF v] k by simp
  then obtain xs where xs: "mset (dents d) = add_mset (key, ?v) (mset xs)"
    by (metis ex_mset in_multiset_in_set insert_DiffM)
  then have m': "mset (dents ?d) = add_mset (key, val) (mset xs)" using m by (simp add: add_mset_commute)
  have dd: "distinct (map fst (dents d))" using ok by (simp add: dict_ok_def)
  note a = map_of_add_mset [OF xs dd]
  have d': "distinct (map fst (dents ?d))" by (rule distinct_add_mset [OF m' a(2,3)])
  have "dict_map ?d = (dict_map d)(key \<mapsto> val)"
    using map_of_add_mset(1) [OF m' d'] a(1) by (simp add: dict_map_def)
  then show ?thesis using t d' by (simp add: dict_ok_def)
qed


lemma dictKeyIndex_spec:
  assumes exact: "keys_exact env" and ok: "dict_ok env d" and room: "dict_room d"
  shows "\<exists>d' index existing. dictKeyIndex env d key = Some (d', index, existing) \<and>
     dict_ok env d' \<and> ht_ok env (ht0 d') \<and> dents d' = dents d \<and> iterators d' = iterators d \<and>
     (if key \<in> fst ` set (dents d) then index = None \<and> (\<exists>r. existing = Some r \<and> entry_at d' key r)
      else existing = None \<and>
           index = Some (if dictIsRehashing d' then bucket_index env (ht1 d') key
                         else bucket_index env (ht0 d') key))"
proof -
  obtain d' where d': "dictExpandIfNeeded env d = (d', True)" "tables_ok env d'" "ht_ok env (ht0 d')"
    "dents d' = dents d" "iterators d' = iterators d"
    using dictExpandIfNeeded_spec [OF dict_ok_tables [OF ok] room] by blast
  have ok': "dict_ok env d'" using ok d' by (simp add: dict_ok_def)
  show ?thesis
  proof (cases rule: search_cases [OF exact d'(2,3), of key, case_names first second absent1 absent2])
    case (first p)
    then show ?thesis
      using d' ok' entry_at_in [OF first(3)]
      by (auto simp: dictKeyIndex_def Let_def)
  next
    case (second p)
    then show ?thesis
      using d' ok' entry_at_in [OF second(6)]
      by (auto simp: dictKeyIndex_def Let_def)
  next
    case absent1
    then show ?thesis using d' ok' by (auto simp: dictKeyIndex_def Let_def)
  next
    case absent2
    then show ?thesis using d' ok' by (auto simp: dictKeyIndex_def Let_def)
  qed
qed

lemma dict_room_cong: "dictSize d' = dictSize d \<Longrightarrow> dict_room d' = dict_room d"
  by (simp add: dict_room_def)

lemma dictAddRaw_spec:
  assumes exact: "keys_exact env" and ok: "dict_ok env d" and room: "dict_room d"
  shows "\<exists>d' entry existing. dictAddRaw env d key v0 = Some (d', entry, existing) \<and>
     dict_ok env d' \<and> iterators d' = iterators d \<and>
     (if key \<in> dom (dict_map d)
      then entry = None \<and> dict_map d' = dict_map d \<and> (\<exists>r. existing = Some r \<and> entry_at d' key r)
      else existing = None \<and> dict_map d' = (dict_map d)(key \<mapsto> v0) \<and> (\<exists>r. entry = Some r \<and> entry_at d' key r))"
proof -
  obtain d1 where d1: "rehash_if_needed env d = Some d1" "tables_ok env d1" "mset (dents d1) = mset (dents d)"
    "iterators d1 = iterators d"
    using rehash_if_needed_spec [OF dict_ok_tables [OF ok]] by blast
  note s1 = same_entries [OF d1(3) ok d1(2)]
  have room1: "dict_room d1" using room dict_room_cong [OF s1(3)] by simp
  obtain d2 index existing where d2: "dictKeyIndex env d1 key = Some (d2, index, existing)"
    "dict_ok env d2" "ht_ok env (ht0 d2)" "dents d2 = dents d1" "iterators d2 = iterators d1"
    and res: "if key \<in> fst ` set (dents d1) then index = None \<and> (\<exists>r. existing = Some r \<and> entry_at d2 key r)
      else existing = None \<and>
           index = Some (if dictIsRehashing d2 then bucket_index env (ht1 d2) key
                         else bucket_index env (ht0 d2) key)"
    using dictKeyIndex_spec [OF exact s1(1) room1, of key] by blast
  have dom: "key \<in> fst ` set (dents d1) \<longleftrightarrow> key \<in> dom (dict_map d)"
    using s1(2) dom_dict_map by metis
  have map2: "dict_map d2 = dict_map d" using d2(4) s1(2) by (simp add: dict_map_def)
  show ?thesis
  proof (cases "key \<in> dom (dict_map d)")
    case True
    then show ?thesis using d1 d2 res dom map2 by (auto simp: dictAddRaw_def)
  next
    case False
    let ?t = "if dictIsRehashing d2 then ht1 d2 else ht0 d2"
    define idx where "idx = bucket_index env ?t key"
    define d3 where "d3 = (if dictIsRehashing d2 then d2\<lparr>ht1 := push_entry idx (key, v0) (ht1 d2)\<rparr>
       else d2\<lparr>ht0 := push_entry idx (key, v0) (ht0 d2)\<rparr>)"
    define r :: entry_ref where "r = ((if dictIsRehashing d2 then 1 else 0), idx, 0)"
    have eq: "dictAddRaw env d key v0 = Some (d3, Some r, None)"
      using False res dom d1(1) d2(1) by (auto simp: dictAddRaw_def d3_def r_def idx_def)
    have t: "ht_ok env ?t" using d2(2,3) by (auto simp: dict_ok_def tables_ok_def)
    have il: "idx < length (table ?t)" using bucket_index_less [OF t, of key] t by (simp add: idx_def ht_ok_def)
    have m3: "mset (dents d3) = add_mset (key, v0) (mset (dents d2))"
      using push_entry_ok(2) [OF t, of idx "(key, v0)"]
      by (cases "dictIsRehashing d2") (simp_all add: d3_def dents_with idx_def)
    have t3: "tables_ok env d3"
      using tables_ok_push [OF dict_ok_tables [OF d2(2)] d2(3), of idx "(key, v0)"]
      by (cases "dictIsRehashing d2") (simp_all add: d3_def idx_def)
    have "key \<notin> fst ` set (dents d2)" "distinct (map fst (dents d2))"
      using False dom d2(2,4) by (auto simp: dict_ok_def)
    then have dd: "distinct (map fst (dents d3))" using distinct_add_mset [OF m3] by simp
    have "entry_at d3 key r"
      using il by (cases "dictIsRehashing d2") (simp_all add: entry_at_def r_def d3_def push_entry_def)
    moreover have "dict_map d3 = (dict_map d)(key \<mapsto> v0)"
      using map_of_add_mset(1) [OF m3 dd] map2 by (simp add: dict_map_def)
    moreover have "iterators d3 = iterators d" using d1(4) d2(5) by (simp add: d3_def)
    ultimately show ?thesis using eq t3 dd False by (cases r) (simp add: dict_ok_def)
  qed
qed

lemma dictAdd_spec:
  assumes "keys_exact env" and "dict_ok env d" and "dict_room d"
  shows "\<exists>d'. dictAdd env d key val = Some (d', key \<notin> dom (dict_map d)) \<and>
     dict_ok env d' \<and> iterators d' = iterators d \<and>
     dict_map d' = (if key \<in> dom (dict_map d) then dict_map d else (dict_map d)(key \<mapsto> val))"
proof -
  obtain d1 entry existing where r: "dictAddRaw env d key val = Some (d1, entry, existing)"
    "dict_ok env d1" "iterators d1 = iterators d"
    "if key \<in> dom (dict_map d)
      then entry = None \<and> dict_map d1 = dict_map d \<and> (\<exists>r. existing = Some r \<and> entry_at d1 key r)
      else existing = None \<and> dict_map d1 = (dict_map d)(key \<mapsto> val) \<and> (\<exists>r. entry = Some r \<and> entry_at d1 key r)"
    using dictAddRaw_spec [OF assms, of key val] by blast
  show ?thesis
  proof (cases "key \<in> dom (dict_map d)")
    case True
    then show ?thesis using r by (simp add: dictAdd_def)
  next
    case False
    then obtain e where e: "entry = Some e" "entry_at d1 key e" using r(4) by auto
    then show ?thesis
      using False r dictSetVal_ok [OF r(2) e(2), of val] by (simp add: dictAdd_def)
  qed
qed

lemma dictReplace_spec:
  assumes "keys_exact env" and "dict_ok env d" and "dict_room d"
  shows "\<exists>d'. dictReplace env d key val = Some (d', key \<notin> dom (dict_map d)) \<and>
     dict_ok env d' \<and> iterators d' = iterators d \<and> dict_map d' = (dict_map d)(key \<mapsto> val)"
proof -
  obtain d1 entry existing where r: "dictAddRaw env d key val = Some (d1, entry, existing)"
    "dict_ok env d1" "iterators d1 = iterators d"
    "if key \<in> dom (dict_map d)
      then entry = None \<and> dict_map d1 = dict_map d \<and> (\<exists>r. existing = Some r \<and> entry_at d1 key r)
      else existing = None \<and> dict_map d1 = (dict_map d)(key \<mapsto> val) \<and> (\<exists>r. entry = Some r \<and> entry_at d1 key r)"
    using dictAddRaw_spec [OF assms, of key val] by blast
  show ?thesis
  proof (cases "key \<in> dom (dict_map d)")
    case True
    then obtain e where "entry = None" "existing = Some e" "entry_at d1 key e" using r(4) by auto
    then show ?thesis
      using True r dictSetVal_ok [OF r(2), of key e val] by (simp add: dictReplace_def)
  next
    case False
    then obtain e where "entry = Some e" "entry_at d1 key e" using r(4) by auto
    then show ?thesis
      using False r dictSetVal_ok [OF r(2), of key e val] by (simp add: dictReplace_def)
  qed
qed


lemma empty_tables: "tables_ok env d \<Longrightarrow> used (ht0 d) = 0 \<and> used (ht1 d) = 0 \<Longrightarrow> dents d = []"
  using dictSize_dents [of env d] by (simp add: dictSize_def)

lemma nonempty_ht0: "dents d \<noteq> [] \<Longrightarrow> tables_ok env d \<Longrightarrow> ht_ok env (ht0 d)"
  by (auto simp: tables_ok_def dents_def dictReset_def split: if_splits)

lemma dictFind_spec:
  assumes exact: "keys_exact env" and ok: "dict_ok env d"
  shows "\<exists>d' he. dictFind env d key = Some (d', he) \<and> dict_ok env d' \<and> dict_map d' = dict_map d \<and>
     dictSize d' = dictSize d \<and> iterators d' = iterators d \<and>
     (case he of None \<Rightarrow> key \<notin> dom (dict_map d) | Some r \<Rightarrow> entry_at d' key r)"
proof (cases "used (ht0 d) + used (ht1 d) = 0")
  case True
  then show ?thesis using ok empty_tables [OF dict_ok_tables [OF ok]] by (simp add: dictFind_def dom_dict_map)
next
  case False
  obtain d1 where d1: "rehash_if_needed env d = Some d1" "tables_ok env d1" "mset (dents d1) = mset (dents d)"
    "iterators d1 = iterators d"
    using rehash_if_needed_spec [OF dict_ok_tables [OF ok]] by blast
  note s1 = same_entries [OF d1(3) ok d1(2)]
  have "dents d1 \<noteq> []"
    using False dictSize_dents [OF d1(2)] s1(3) by (auto simp: dictSize_def)
  then have t0: "ht_ok env (ht0 d1)" using nonempty_ht0 d1(2) by blast
  have dom: "key \<in> fst ` set (dents d1) \<longleftrightarrow> key \<in> dom (dict_map d)" using s1(2) dom_dict_map by metis
  show ?thesis
    using False d1 s1 dom
    by (cases rule: search_cases [OF exact d1(2) t0, of key])
       (auto simp: dictFind_def Let_def)
qed

lemma dictFetchValue_spec:
  assumes "keys_exact env" and "dict_ok env d"
  shows "\<exists>d'. dictFetchValue env d key = Some (d', dict_map d key) \<and> dict_ok env d' \<and>
     dict_map d' = dict_map d \<and> iterators d' = iterators d"
proof -
  obtain d' he where f: "dictFind env d key = Some (d', he)" "dict_ok env d'" "dict_map d' = dict_map d"
    "iterators d' = iterators d"
    "case he of None \<Rightarrow> key \<notin> dom (dict_map d) | Some r \<Rightarrow> entry_at d' key r"
    using dictFind_spec [OF assms, of key] by blast
  show ?thesis
  proof (cases he)
    case None
    then show ?thesis using f by (auto simp: dictFetchValue_def domIff)
  next
    case (Some r)
    then show ?thesis using f entry_at_lookup [OF f(2), of key r] by (simp add: dictFetchValue_def)
  qed
qed

text \<open>Unlinking a found entry: the general step of \<open>dictGenericDelete\<close>.\<close>

lemma unlink_spec:
  assumes ok: "dict_ok env d" and m: "add_mset (dictGetEntry d r) (mset (dents d')) = mset (dents d)"
    and t: "tables_ok env d'" and e: "entry_at d key r"
  shows "dict_ok env d' \<and> dict_map d' = (dict_map d)(key := None)"
proof -
  obtain v where v: "dictGetEntry d r = (key, v)" using e by (auto simp: entry_at_def) (metis prod.collapse)
  have dd: "distinct (map fst (dents d))" using ok by (simp add: dict_ok_def)
  note a = map_of_add_mset [OF m [symmetric, unfolded v] dd]
  have "map_of (dents d') key = None" using a(3) by (simp add: map_of_eq_None_iff)
  then have "dict_map d' = (dict_map d)(key := None)" using a(1) by (auto simp: dict_map_def)
  then show ?thesis using t a(2) by (simp add: dict_ok_def)
qed

lemma dictGenericDelete_spec:
  assumes exact: "keys_exact env" and ok: "dict_ok env d"
  shows "\<exists>d'. dictGenericDelete env d key = Some (d', map_option (Pair key) (dict_map d key)) \<and>
     dict_ok env d' \<and> dict_map d' = (dict_map d)(key := None) \<and> iterators d' = iterators d"
proof (cases "used (ht0 d) = 0 \<and> used (ht1 d) = 0")
  case True
  then have "dents d = []" using ok empty_tables [OF dict_ok_tables [OF ok]] by simp
  then show ?thesis using ok True by (simp add: dictGenericDelete_def dict_map_def)
next
  case False
  obtain d1 where d1: "rehash_if_needed env d = Some d1" "tables_ok env d1" "mset (dents d1) = mset (dents d)"
    "iterators d1 = iterators d"
    using rehash_if_needed_spec [OF dict_ok_tables [OF ok]] by blast
  note s1 = same_entries [OF d1(3) ok d1(2)]
  have "dents d1 \<noteq> []"
    using False dictSize_dents [OF d1(2)] s1(3) by (auto simp: dictSize_def)
  then have t0: "ht_ok env (ht0 d1)" using nonempty_ht0 d1(2) by blast
  have dom: "key \<in> fst ` set (dents d1) \<longleftrightarrow> key \<in> dom (dict_map d)" using s1(2) dom_dict_map by metis
  show ?thesis
  proof (cases rule: search_cases [OF exact d1(2) t0, of key, case_names first second absent1 absent2])
    case (first p)
    let ?i = "bucket_index env (ht0 d1) key" let ?d = "d1\<lparr>ht0 := unlink_entry ?i p (ht0 d1)\<rparr>"
    have p: "p < length (table (ht0 d1) ! ?i)" using first(3) by (simp add: entry_at_def)
    note u = unlink_entry_ok [OF t0 first(1) p]
    have "tables_ok env ?d"
      using tables_ok_update_bucket0 [OF d1(2) t0 _ first(1) p] u(1) by (simp add: unlink_entry_def)
    moreover have "add_mset (dictGetEntry d1 (0, ?i, p)) (mset (dents ?d)) = mset (dents d1)"
      using u(2) by (simp add: dents_with union_mset_add_mset_left [symmetric])
    ultimately have "dict_ok env ?d \<and> dict_map ?d = (dict_map d1)(key := None)"
      using unlink_spec [OF s1(1) _ _ first(3)] by blast
    then show ?thesis
      using False d1 s1(2) first entry_at_lookup [OF s1(1) first(3)]
      by (auto simp: dictGenericDelete_def Let_def entry_at_def prod_eq_iff)
  next
    case (second p)
    let ?i = "bucket_index env (ht1 d1) key" let ?d = "d1\<lparr>ht1 := unlink_entry ?i p (ht1 d1)\<rparr>"
    have p: "p < length (table (ht1 d1) ! ?i)" using second(6) by (simp add: entry_at_def)
    have t1: "ht_ok env (ht1 d1)" using d1(2) second(3) by (simp add: tables_ok_def)
    note u = unlink_entry_ok [OF t1 second(4) p]
    have "tables_ok env ?d" by (rule tables_ok_update1 [OF d1(2) second(3) u(1)])
    moreover have "add_mset (dictGetEntry d1 (1, ?i, p)) (mset (dents ?d)) = mset (dents d1)"
      using u(2) by (simp add: dents_with union_mset_add_mset_right [symmetric])
    ultimately have "dict_ok env ?d \<and> dict_map ?d = (dict_map d1)(key := None)"
      using unlink_spec [OF s1(1) _ _ second(6)] by blast
    then show ?thesis
      using False d1 s1(2) second entry_at_lookup [OF s1(1) second(6)]
      by (auto simp: dictGenericDelete_def Let_def entry_at_def prod_eq_iff)
  next
    case absent1
    then have n: "dict_map d key = None" using dom by auto
    then have "(dict_map d)(key := None) = dict_map d" by auto
    then show ?thesis
      using False d1 s1 absent1 n by (auto simp: dictGenericDelete_def Let_def)
  next
    case absent2
    then have n: "dict_map d key = None" using dom by auto
    then have "(dict_map d)(key := None) = dict_map d" by auto
    then show ?thesis
      using False d1 s1 absent2 n by (auto simp: dictGenericDelete_def Let_def)
  qed
qed

lemma dictDelete_spec:
  assumes "keys_exact env" and "dict_ok env d"
  shows "\<exists>d'. dictDelete env d key = Some (d', key \<in> dom (dict_map d)) \<and>
     dict_ok env d' \<and> dict_map d' = (dict_map d)(key := None) \<and> iterators d' = iterators d"
  using dictGenericDelete_spec [OF assms, of key] by (auto simp: dictDelete_def domIff)

lemma dictCreate_ok: "dict_ok env dictCreate" "dict_map dictCreate = Map.empty"
  by (simp_all add: dictCreate_def dictInit_def dict_ok_def tables_ok_def dictIsRehashing_def dents_def
      dictReset_def dict_map_def)

lemma dictEmpty_ok: "dict_ok env (dictEmpty d)" "dict_map (dictEmpty d) = Map.empty"
  by (simp_all add: dictEmpty_def dictClear_def dict_ok_def tables_ok_def dictIsRehashing_def dents_def
      dictReset_def dict_map_def)

section \<open>The dictionary as a finite map\<close>

lemma card_dict_map: "dict_ok env d \<Longrightarrow> card (dom (dict_map d)) = dictSize d"
  using dictSize_dents [of env d] distinct_card [of "map fst (dents d)"]
  by (simp add: dict_ok_def dom_dict_map)

lemma finite_dict_map: "finite (dom (dict_map d))"
  by (simp add: dom_dict_map)

text \<open>
  A dictionary whose key comparison is exact is a finite map up to \<open>2 ^ 62\<close> entries: no
  operation trips an assertion, and rehashing is invisible.
\<close>

locale exact_dict =
  fixes env :: "'k dict_env"
  assumes exact: "keys_exact env"

sublocale exact_dict \<subseteq> dmap: fallible_map "dict_ok env" dict_map "2 ^ 62" dictCreate
  "dictAdd env" "dictReplace env" "dictDelete env" "dictFetchValue env"
proof unfold_locales
  fix s :: "('k, 'v) dict" and k :: 'k and v :: 'v
  assume ok: "dict_ok env s"
  show "\<exists>s'. dictDelete env s k = Some (s', dict_map s k \<noteq> None) \<and> dict_ok env s' \<and>
      dict_map s' = (dict_map s)(k := None)"
    using dictDelete_spec [OF exact ok, of k] by (auto simp: domIff)
  show "\<exists>s'. dictFetchValue env s k = Some (s', dict_map s k) \<and> dict_ok env s' \<and> dict_map s' = dict_map s"
    using dictFetchValue_spec [OF exact ok, of k] by blast
  assume "card (dom (dict_map s)) < 2 ^ 62"
  then have room: "dict_room s" using card_dict_map [OF ok] by (simp add: dict_room_def)
  show "\<exists>s'. dictAdd env s k v = Some (s', dict_map s k = None) \<and> dict_ok env s' \<and>
      dict_map s' = (if dict_map s k = None then (dict_map s)(k \<mapsto> v) else dict_map s)"
    using dictAdd_spec [OF exact ok room, of k v] by (auto simp: domIff split: if_splits)
  show "\<exists>s'. dictReplace env s k v = Some (s', dict_map s k = None) \<and> dict_ok env s' \<and>
      dict_map s' = (dict_map s)(k \<mapsto> v)"
    using dictReplace_spec [OF exact ok room, of k v] by (auto simp: domIff)
qed (simp_all add: dictCreate_ok finite_dict_map)

context exact_dict
begin

lemmas run_dict = dmap.run_refines

end

text \<open>With no comparison callback the keys are compared as pointers, which is exact.\<close>

lemma keys_exact_pointers: "keys_exact \<lparr>hashFunction = h, keyCompare = None, dict_can_resize = r\<rparr>"
  by (simp add: keys_exact_def dictCompareKeys_def)

interpretation ptr_dict: exact_dict "\<lparr>hashFunction = h, keyCompare = None, dict_can_resize = r\<rparr>" for h r
  by unfold_locales (rule keys_exact_pointers)

text \<open>
  C3. Any sequence of dictAdd, dictReplace, dictDelete and dictFetchValue calls on a fresh
  dictionary runs without a failed assertion or an access outside a table, and returns
  exactly the replies of a mathematical map, although every call may expand the table or
  move buckets from the old table to the new one; the final dictionary represents the
  final map.
\<close>

theorem dict_refines_map:
  assumes "keys_exact env" and "length cs \<le> 2 ^ 62"
  shows "\<exists>d rs. run_steps (map_step (dictAdd env) (dictReplace env) (dictDelete env) (dictFetchValue env))
      dictCreate cs = Some (d, rs) \<and> dict_ok env d \<and>
    run_steps spec_step Map.empty cs = Some (dict_map d, rs)"
  using exact_dict.run_dict [OF exact_dict.intro [OF assms(1)], of dictCreate cs] assms(2)
  by (simp add: dictCreate_ok)

definition mod3_env :: "nat dict_env" where
  "mod3_env = \<lparr>hashFunction = (\<lambda>k. word_of_nat (k mod 3)), keyCompare = None, dict_can_resize = True\<rparr>"

theorem dict_refines_map_witness:
  "\<exists>d. run_steps (map_step (dictAdd mod3_env) (dictReplace mod3_env) (dictDelete mod3_env) (dictFetchValue mod3_env))
      dictCreate [MAdd 1 ''a'', MAdd 4 ''b'', MReplace 1 ''c'', MDelete 4, MFetch 1, MFetch 4] =
    Some (d, [Changed True, Changed True, Changed False, Changed True, Fetched (Some ''c''), Fetched None])"
proof -
  have "keys_exact mod3_env" by (simp add: mod3_env_def keys_exact_pointers)
  moreover have "length [MAdd 1 ''a'', MAdd 4 ''b'', MReplace 1 ''c'', MDelete 4, MFetch 1, MFetch (4::nat)] \<le> 2 ^ 62"
    by simp
  ultimately show ?thesis using dict_refines_map by fastforce
qed

text \<open>
  C18. A rehashing step of any number of buckets keeps the invariant and the represented map,
  and reports 0 exactly when the dictionary is no longer rehashing.
\<close>

theorem dictRehash_invisible:
  assumes "dict_ok env d"
  shows "\<exists>d' more. dictRehash env d n = Some (d', more) \<and> dict_ok env d' \<and> dict_map d' = dict_map d \<and>
     dictSize d' = dictSize d \<and> (more \<longleftrightarrow> dictIsRehashing d')"
  using dictRehash_spec [OF dict_ok_tables [OF assms], of n] same_entries [OF _ assms] by metis

text \<open>A dictionary of five entries is in the middle of a rehash from 4 to 8 buckets.\<close>

definition five_dict :: "(nat, nat) dict" where
  "five_dict = \<lparr>ht0 = \<lparr>table = [[], [(4, 40), (1, 10)], [(2, 20)], []], ht_size = 4, sizemask = 3, used = 3\<rparr>,
     ht1 = \<lparr>table = [[(3, 30)], [(7, 70)], [], [], [], [], [], []], ht_size = 8, sizemask = 7, used = 2\<rparr>,
     rehashidx = 1, iterators = 0\<rparr>"

lemma five_dict_ok: "dict_ok mod3_env five_dict"
proof -
  have k: "\<exists>k\<ge>2. k \<le> 63 \<and> 2 ^ k = (4::nat)" "\<exists>k\<ge>2. k \<le> 63 \<and> 2 ^ k = (8::nat)"
    by (rule exI [of _ 2], simp) (rule exI [of _ 3], simp)
  have less: "i < (4::nat) \<longleftrightarrow> i = 0 \<or> i = 1 \<or> i = 2 \<or> i = 3"
    "i < (8::nat) \<longleftrightarrow> i = 0 \<or> i = 1 \<or> i = 2 \<or> i = 3 \<or> i = 4 \<or> i = 5 \<or> i = 6 \<or> i = 7" for i
    by auto
  have "ht_ok mod3_env (ht0 five_dict)" "ht_ok mod3_env (ht1 five_dict)"
    by (auto simp: ht_ok_def five_dict_def bucket_index_def mod3_env_def less k)
  then show ?thesis
    by (simp add: dict_ok_def tables_ok_def five_dict_def dictIsRehashing_def dents_def)
qed

theorem dictRehash_invisible_witness:
  "\<exists>d' more. dictRehash mod3_env five_dict 1 = Some (d', more) \<and> dict_map d' 4 = Some 40 \<and> dictSize d' = 5"
  using dictRehash_invisible [OF five_dict_ok, of 1]
  by (auto simp: five_dict_def dict_map_def dents_def dictSize_def)

end
