(* ===== verification/Networking.thy ===== *)
theory Networking
  imports Util Interfaces "HOL-Library.Signed_Division"
begin

text \<open>
  \<open>networking.c\<close>: the output side of a client connection.  Replies are queued in a
  static buffer of 16 KB and, when it is full, in a list of reply blocks; \<open>writeToClient\<close>
  drains both to the socket.  The bytes of a buffer beyond its used part are never read, so
  the static buffer is the list of its first \<open>bufpos\<close> bytes and a block the list of its
  used bytes with the size of its allocation.  A block pointer that is NULL (the placeholder
  of a deferred length) is \<open>None\<close>.  A failed \<open>serverAssert\<close> sets \<open>aborted\<close>.
\<close>

section \<open>State\<close>

datatype client_flag =
    CLIENT_SLAVE | CLIENT_MASTER | CLIENT_MONITOR | CLIENT_MULTI | CLIENT_DIRTY_CAS
  | CLIENT_CLOSE_AFTER_REPLY | CLIENT_LUA | CLIENT_CLOSE_ASAP | CLIENT_DIRTY_EXEC
  | CLIENT_MASTER_FORCE_REPLY | CLIENT_PRE_PSYNC | CLIENT_PUBSUB | CLIENT_PENDING_WRITE
  | CLIENT_REPLY_OFF | CLIENT_REPLY_SKIP | CLIENT_MODULE | CLIENT_BLOCKED | CLIENT_ASKING
  | CLIENT_REPLY_SKIP_NEXT | CLIENT_FORCE_REPL

datatype repl_state =
    REPL_STATE_NONE | SLAVE_STATE_WAIT_BGSAVE_START | SLAVE_STATE_WAIT_BGSAVE_END
  | SLAVE_STATE_SEND_BULK | SLAVE_STATE_ONLINE

record reply_block =
  bk_size :: nat
  bk_data :: bytes

record client =
  cid :: nat
  fd :: int
  flags :: "client_flag set"
  replstate :: repl_state
  repl_put_online_on_ack :: bool
  cbuf :: bytes
  reply :: "reply_block option list"
  reply_bytes :: nat
  sentlen :: nat
  obuf_soft_limit_reached_time :: int
  lastinteraction :: int
  write_handler :: bool

record obuf_limits =
  hard_limit_bytes :: nat
  soft_limit_bytes :: nat
  soft_limit_seconds :: int

datatype client_type = CLIENT_TYPE_NORMAL | CLIENT_TYPE_SLAVE | CLIENT_TYPE_PUBSUB | CLIENT_TYPE_MASTER

record net_server =
  unixtime :: int
  client_obuf_limits :: "client_type \<Rightarrow> obuf_limits"
  clients_pending_write :: "nat list"
  clients_to_close :: "nat list"
  stat_net_output_bytes :: nat
  aborted :: bool
  proto_max_bulk_len :: int
  client_max_querybuf_len :: nat
  lua_timedout :: bool
  stat_net_input_bytes :: nat

text \<open>A string object: an \<open>sds\<close> string or an integer stored in the pointer.\<close>

datatype robj = StrObj bytes | IntObj int

definition PROTO_REPLY_CHUNK_BYTES :: nat where "PROTO_REPLY_CHUNK_BYTES = 16 * 1024"
definition OBJ_SHARED_BULKHDR_LEN :: nat where "OBJ_SHARED_BULKHDR_LEN = 32"
definition NET_MAX_WRITES_PER_EVENT :: nat where "NET_MAX_WRITES_PER_EVENT = 1024 * 64"
definition SIZE_MAX :: nat where "SIZE_MAX = 2 ^ 64 - 1"

abbreviation CRLF :: bytes where "CRLF \<equiv> [13, 10]"

section \<open>Limits and asynchronous closing\<close>

definition freeClientAsync :: "'a net_server_scheme \<Rightarrow> 'b client_scheme \<Rightarrow> 'a net_server_scheme \<times> 'b client_scheme" where
  "freeClientAsync s c =
     (if CLIENT_CLOSE_ASAP \<in> flags c \<or> CLIENT_LUA \<in> flags c then (s, c)
      else (s\<lparr>clients_to_close := clients_to_close s @ [cid c]\<rparr>, c\<lparr>flags := insert CLIENT_CLOSE_ASAP (flags c)\<rparr>))"

text \<open>A list node takes 24 bytes and the header of a block 16.\<close>

definition getClientOutputBufferMemoryUsage :: "'b client_scheme \<Rightarrow> nat" where
  "getClientOutputBufferMemoryUsage c = reply_bytes c + (24 + 16) * length (reply c)"

definition getClientType :: "'b client_scheme \<Rightarrow> client_type" where
  "getClientType c =
     (if CLIENT_MASTER \<in> flags c then CLIENT_TYPE_MASTER
      else if CLIENT_SLAVE \<in> flags c \<and> CLIENT_MONITOR \<notin> flags c then CLIENT_TYPE_SLAVE
      else if CLIENT_PUBSUB \<in> flags c then CLIENT_TYPE_PUBSUB
      else CLIENT_TYPE_NORMAL)"

definition checkClientOutputBufferLimits :: "'a net_server_scheme \<Rightarrow> 'b client_scheme \<Rightarrow> 'b client_scheme \<times> bool" where
  "checkClientOutputBufferLimits s c =
     (let used_mem = getClientOutputBufferMemoryUsage c;
          class = getClientType c;
          class = (if class = CLIENT_TYPE_MASTER then CLIENT_TYPE_NORMAL else class);
          lim = client_obuf_limits s class;
          hard = (hard_limit_bytes lim \<noteq> 0 \<and> used_mem \<ge> hard_limit_bytes lim);
          soft = (soft_limit_bytes lim \<noteq> 0 \<and> used_mem \<ge> soft_limit_bytes lim)
      in if soft then
           (if obuf_soft_limit_reached_time c = 0 then
              (c\<lparr>obuf_soft_limit_reached_time := unixtime s\<rparr>, hard)
            else
              (let elapsed = unixtime s - obuf_soft_limit_reached_time c;
                   soft = (\<not> elapsed \<le> soft_limit_seconds lim)
               in (c, soft \<or> hard)))
         else (c\<lparr>obuf_soft_limit_reached_time := 0\<rparr>, hard))"

definition asyncCloseClientOnOutputBufferLimitReached ::
    "'a net_server_scheme \<Rightarrow> 'b client_scheme \<Rightarrow> 'a net_server_scheme \<times> 'b client_scheme" where
  "asyncCloseClientOnOutputBufferLimitReached s c =
     (if fd c = -1 then (s, c)
      else if \<not> reply_bytes c < SIZE_MAX - 1024 * 64 then (s\<lparr>aborted := True\<rparr>, c)
      else if reply_bytes c = 0 \<or> CLIENT_CLOSE_ASAP \<in> flags c then (s, c)
      else
        (let (c, reached) = checkClientOutputBufferLimits s c
         in if reached then freeClientAsync s c else (s, c)))"

section \<open>Queueing output\<close>

definition clientHasPendingReplies :: "'b client_scheme \<Rightarrow> bool" where
  "clientHasPendingReplies c \<longleftrightarrow> length (cbuf c) \<noteq> 0 \<or> length (reply c) \<noteq> 0"

definition clientInstallWriteHandler :: "'a net_server_scheme \<Rightarrow> 'b client_scheme \<Rightarrow>
    'a net_server_scheme \<times> 'b client_scheme" where
  "clientInstallWriteHandler s c =
     (if CLIENT_PENDING_WRITE \<notin> flags c \<and>
         (replstate c = REPL_STATE_NONE \<or> (replstate c = SLAVE_STATE_ONLINE \<and> \<not> repl_put_online_on_ack c))
      then (s\<lparr>clients_pending_write := cid c # clients_pending_write s\<rparr>,
            c\<lparr>flags := insert CLIENT_PENDING_WRITE (flags c)\<rparr>)
      else (s, c))"

text \<open>The returned flag is whether the result is \<open>C_OK\<close>.\<close>

definition prepareClientToWrite :: "'a net_server_scheme \<Rightarrow> 'b client_scheme \<Rightarrow>
    ('a net_server_scheme \<times> 'b client_scheme) \<times> bool" where
  "prepareClientToWrite s c =
     (if CLIENT_LUA \<in> flags c \<or> CLIENT_MODULE \<in> flags c then ((s, c), True)
      else if CLIENT_REPLY_OFF \<in> flags c \<or> CLIENT_REPLY_SKIP \<in> flags c then ((s, c), False)
      else if CLIENT_MASTER \<in> flags c \<and> CLIENT_MASTER_FORCE_REPLY \<notin> flags c then ((s, c), False)
      else if fd c \<le> 0 then ((s, c), False)
      else (if \<not> clientHasPendingReplies c then clientInstallWriteHandler s c else (s, c), True))"

definition addReplyToBuffer :: "bytes \<Rightarrow> 'b client_scheme \<Rightarrow> 'b client_scheme \<times> bool" where
  "addReplyToBuffer str c =
     (let available = PROTO_REPLY_CHUNK_BYTES - length (cbuf c) in
      if CLIENT_CLOSE_AFTER_REPLY \<in> flags c then (c, True)
      else if length (reply c) > 0 then (c, False)
      else if length str > available then (c, False)
      else (c\<lparr>cbuf := cbuf c @ str\<rparr>, True))"

text \<open>
  \<open>usable n\<close> is the payload that \<open>zmalloc_usable\<close> reports for a block allocated with
  \<open>n\<close> bytes of payload: the allocator may round up.
\<close>

definition addReplyStringToList :: "(nat \<Rightarrow> nat) \<Rightarrow> bytes \<Rightarrow> 'a net_server_scheme \<Rightarrow> 'b client_scheme \<Rightarrow>
    'a net_server_scheme \<times> 'b client_scheme" where
  "addReplyStringToList usable str s c =
     (if CLIENT_CLOSE_AFTER_REPLY \<in> flags c then (s, c)
      else
        (let tail = (if reply c = [] then None else last (reply c));
             (c, str) =
               (case tail of
                  None \<Rightarrow> (c, str)
                | Some t \<Rightarrow>
                    (let avail = bk_size t - length (bk_data t);
                         copy = (if avail \<ge> length str then length str else avail)
                     in (c\<lparr>reply := butlast (reply c) @ [Some (t\<lparr>bk_data := bk_data t @ take copy str\<rparr>)]\<rparr>,
                         drop copy str)));
             c = (if length str \<noteq> 0 then
                    (let sz = (if length str < PROTO_REPLY_CHUNK_BYTES then PROTO_REPLY_CHUNK_BYTES else length str);
                         t = \<lparr>bk_size = usable sz, bk_data = str\<rparr>
                     in c\<lparr>reply := reply c @ [Some t], reply_bytes := reply_bytes c + bk_size t\<rparr>)
                  else c)
         in asyncCloseClientOnOutputBufferLimitReached s c))"

definition addReplyString :: "(nat \<Rightarrow> nat) \<Rightarrow> bytes \<Rightarrow> 'a net_server_scheme \<times> 'b client_scheme \<Rightarrow>
    'a net_server_scheme \<times> 'b client_scheme" where
  "addReplyString usable str sc =
     (let ((s, c), ok) = prepareClientToWrite (fst sc) (snd sc) in
      if \<not> ok then (s, c)
      else
        (let (c, ok) = addReplyToBuffer str c in
         if \<not> ok then addReplyStringToList usable str s c else (s, c)))"

text \<open>\<open>addReplySds\<close> differs from \<open>addReplyString\<close> in freeing its argument.\<close>

definition addReplySds :: "(nat \<Rightarrow> nat) \<Rightarrow> bytes \<Rightarrow> 'a net_server_scheme \<times> 'b client_scheme \<Rightarrow>
    'a net_server_scheme \<times> 'b client_scheme" where
  "addReplySds usable str sc =
     (let ((s, c), ok) = prepareClientToWrite (fst sc) (snd sc) in
      if \<not> ok then (s, c)
      else
        (let (c, ok) = addReplyToBuffer str c in
         if \<not> ok then addReplyStringToList usable str s c else (s, c)))"

definition addReply :: "(nat \<Rightarrow> nat) \<Rightarrow> robj \<Rightarrow> 'a net_server_scheme \<times> 'b client_scheme \<Rightarrow>
    'a net_server_scheme \<times> 'b client_scheme" where
  "addReply usable obj sc =
     (let ((s, c), ok) = prepareClientToWrite (fst sc) (snd sc) in
      if \<not> ok then (s, c)
      else
        (case obj of
           StrObj str \<Rightarrow>
             (let (c, ok) = addReplyToBuffer str c in
              if \<not> ok then addReplyStringToList usable str s c else (s, c))
         | IntObj v \<Rightarrow>
             (let (len, b) = ll2string (replicate 32 0) v;
                  str = take len b;
                  (c, ok) = addReplyToBuffer str c
              in if \<not> ok then addReplyStringToList usable str s c else (s, c))))"

section \<open>Protocol replies\<close>

text \<open>Shared objects, as \<open>createSharedObjects\<close> builds them; \<open>%d\<close> prints like \<open>show_int\<close>.\<close>

definition shared_mbulkhdr :: "nat \<Rightarrow> robj" where
  "shared_mbulkhdr j = StrObj (42 # show_int (int j) @ CRLF)"

definition shared_bulkhdr :: "nat \<Rightarrow> robj" where
  "shared_bulkhdr j = StrObj (36 # show_int (int j) @ CRLF)"

definition addReplyLongLongWithPrefix :: "(nat \<Rightarrow> nat) \<Rightarrow> int \<Rightarrow> byte \<Rightarrow>
    'a net_server_scheme \<times> 'b client_scheme \<Rightarrow> 'a net_server_scheme \<times> 'b client_scheme" where
  "addReplyLongLongWithPrefix usable ll prefix sc =
     (if prefix = 42 \<and> ll < int OBJ_SHARED_BULKHDR_LEN \<and> ll \<ge> 0 then addReply usable (shared_mbulkhdr (nat ll)) sc
      else if prefix = 36 \<and> ll < int OBJ_SHARED_BULKHDR_LEN \<and> ll \<ge> 0 then
        addReply usable (shared_bulkhdr (nat ll)) sc
      else
        (let (len, b) = ll2string (replicate (128 - 1) 0) ll
         in addReplyString usable (prefix # take len b @ CRLF) sc))"

definition addReplyLongLong :: "(nat \<Rightarrow> nat) \<Rightarrow> int \<Rightarrow>
    'a net_server_scheme \<times> 'b client_scheme \<Rightarrow> 'a net_server_scheme \<times> 'b client_scheme" where
  "addReplyLongLong usable ll sc =
     (if ll = 0 then addReply usable (StrObj (ascii '':0'' @ CRLF)) sc
      else if ll = 1 then addReply usable (StrObj (ascii '':1'' @ CRLF)) sc
      else addReplyLongLongWithPrefix usable ll 58 sc)"

text \<open>The length arguments are counts, never negative.\<close>

definition addReplyMultiBulkLen :: "(nat \<Rightarrow> nat) \<Rightarrow> nat \<Rightarrow>
    'a net_server_scheme \<times> 'b client_scheme \<Rightarrow> 'a net_server_scheme \<times> 'b client_scheme" where
  "addReplyMultiBulkLen usable len sc =
     (if len < OBJ_SHARED_BULKHDR_LEN then addReply usable (shared_mbulkhdr len) sc
      else addReplyLongLongWithPrefix usable (int len) 42 sc)"

function bulk_len_loop :: "int \<Rightarrow> nat \<Rightarrow> nat" where
  "bulk_len_loop n len = (let n = n sdiv 10 in if n \<noteq> 0 then bulk_len_loop n (len + 1) else len)"
  by pat_completeness auto
termination
  by (relation "measure (\<lambda>(n, len). nat \<bar>n\<bar>)") (auto simp: signed_divide_int_def abs_mult zdiv_eq_0_iff)

definition bulk_len :: "robj \<Rightarrow> nat" where
  "bulk_len obj =
     (case obj of
        StrObj str \<Rightarrow> length str
      | IntObj n \<Rightarrow> (if n < 0 then bulk_len_loop (to_sint 64 (to_uint 64 (- n))) 2 else bulk_len_loop n 1))"

definition addReplyBulkLen :: "(nat \<Rightarrow> nat) \<Rightarrow> robj \<Rightarrow>
    'a net_server_scheme \<times> 'b client_scheme \<Rightarrow> 'a net_server_scheme \<times> 'b client_scheme" where
  "addReplyBulkLen usable obj sc =
     (let len = bulk_len obj in
      if len < OBJ_SHARED_BULKHDR_LEN then addReply usable (shared_bulkhdr len) sc
      else addReplyLongLongWithPrefix usable (int len) 36 sc)"

definition addReplyBulk :: "(nat \<Rightarrow> nat) \<Rightarrow> robj \<Rightarrow>
    'a net_server_scheme \<times> 'b client_scheme \<Rightarrow> 'a net_server_scheme \<times> 'b client_scheme" where
  "addReplyBulk usable obj sc =
     addReply usable (StrObj CRLF) (addReply usable obj (addReplyBulkLen usable obj sc))"

definition addReplyBulkCBuffer :: "(nat \<Rightarrow> nat) \<Rightarrow> bytes \<Rightarrow>
    'a net_server_scheme \<times> 'b client_scheme \<Rightarrow> 'a net_server_scheme \<times> 'b client_scheme" where
  "addReplyBulkCBuffer usable p sc =
     addReply usable (StrObj CRLF)
       (addReplyString usable p (addReplyLongLongWithPrefix usable (int (length p)) 36 sc))"

definition addReplyBulkSds :: "(nat \<Rightarrow> nat) \<Rightarrow> bytes \<Rightarrow>
    'a net_server_scheme \<times> 'b client_scheme \<Rightarrow> 'a net_server_scheme \<times> 'b client_scheme" where
  "addReplyBulkSds usable str sc =
     addReply usable (StrObj CRLF)
       (addReplySds usable str (addReplyLongLongWithPrefix usable (int (length str)) 36 sc))"

text \<open>The NULL pointer is \<open>None\<close>.\<close>

definition addReplyBulkCString :: "(nat \<Rightarrow> nat) \<Rightarrow> bytes option \<Rightarrow>
    'a net_server_scheme \<times> 'b client_scheme \<Rightarrow> 'a net_server_scheme \<times> 'b client_scheme" where
  "addReplyBulkCString usable str sc =
     (case str of
        None \<Rightarrow> addReply usable (StrObj (ascii ''$-1'' @ CRLF)) sc
      | Some str \<Rightarrow> addReplyBulkCBuffer usable (cstr str) sc)"

definition addReplyBulkLongLong :: "(nat \<Rightarrow> nat) \<Rightarrow> int \<Rightarrow>
    'a net_server_scheme \<times> 'b client_scheme \<Rightarrow> 'a net_server_scheme \<times> 'b client_scheme" where
  "addReplyBulkLongLong usable ll sc =
     (let (len, b) = ll2string (replicate 64 0) ll in addReplyBulkCBuffer usable (take len b) sc)"

definition addReplyErrorLength :: "(nat \<Rightarrow> nat) \<Rightarrow> bytes \<Rightarrow>
    'a net_server_scheme \<times> 'b client_scheme \<Rightarrow> 'a net_server_scheme \<times> 'b client_scheme" where
  "addReplyErrorLength usable str sc =
     (let sc = (if length str = 0 \<or> hd str \<noteq> 45 then addReplyString usable (ascii ''-ERR '') sc else sc)
      in addReplyString usable CRLF (addReplyString usable str sc))"

definition addReplyError :: "(nat \<Rightarrow> nat) \<Rightarrow> bytes \<Rightarrow>
    'a net_server_scheme \<times> 'b client_scheme \<Rightarrow> 'a net_server_scheme \<times> 'b client_scheme" where
  "addReplyError usable err sc = addReplyErrorLength usable (cstr err) sc"

text \<open>The argument is the formatted message.\<close>

definition addReplyErrorFormat :: "(nat \<Rightarrow> nat) \<Rightarrow> bytes \<Rightarrow>
    'a net_server_scheme \<times> 'b client_scheme \<Rightarrow> 'a net_server_scheme \<times> 'b client_scheme" where
  "addReplyErrorFormat usable str sc =
     addReplyErrorLength usable (map (\<lambda>b. if b = 13 \<or> b = 10 then 32 else b) str) sc"

definition addReplyStatusLength :: "(nat \<Rightarrow> nat) \<Rightarrow> bytes \<Rightarrow>
    'a net_server_scheme \<times> 'b client_scheme \<Rightarrow> 'a net_server_scheme \<times> 'b client_scheme" where
  "addReplyStatusLength usable str sc =
     addReplyString usable CRLF (addReplyString usable str (addReplyString usable (ascii ''+'') sc))"

definition addReplyStatus :: "(nat \<Rightarrow> nat) \<Rightarrow> bytes \<Rightarrow>
    'a net_server_scheme \<times> 'b client_scheme \<Rightarrow> 'a net_server_scheme \<times> 'b client_scheme" where
  "addReplyStatus usable status sc = addReplyStatusLength usable (cstr status) sc"

section \<open>Deferred lengths\<close>

text \<open>The node pointer is the position of the placeholder in the list; \<open>None\<close> is NULL.\<close>

definition addDeferredMultiBulkLength :: "'a net_server_scheme \<times> 'b client_scheme \<Rightarrow>
    ('a net_server_scheme \<times> 'b client_scheme) \<times> nat option" where
  "addDeferredMultiBulkLength sc =
     (let ((s, c), ok) = prepareClientToWrite (fst sc) (snd sc) in
      if \<not> ok then ((s, c), None)
      else ((s, c\<lparr>reply := reply c @ [None]\<rparr>), Some (length (reply c))))"

definition setDeferredMultiBulkLength :: "(nat \<Rightarrow> nat) \<Rightarrow> nat option \<Rightarrow> int \<Rightarrow>
    'a net_server_scheme \<times> 'b client_scheme \<Rightarrow> 'a net_server_scheme \<times> 'b client_scheme" where
  "setDeferredMultiBulkLength usable node len sc =
     (let (s, c) = sc; lenstr = 42 # show_int len @ CRLF in
      case node of
        None \<Rightarrow> (s, c)
      | Some ln \<Rightarrow>
          if \<not> ln < length (reply c) \<or> reply c ! ln \<noteq> None then (s\<lparr>aborted := True\<rparr>, c)
          else
            (let nx = (if ln + 1 < length (reply c) then reply c ! (ln + 1) else None);
                 new_block = (let t = \<lparr>bk_size = usable (length lenstr), bk_data = lenstr\<rparr>
                              in c\<lparr>reply := (reply c)[ln := Some t], reply_bytes := reply_bytes c + bk_size t\<rparr>);
                 c = (case nx of
                        None \<Rightarrow> new_block
                      | Some b \<Rightarrow>
                          if bk_size b - length (bk_data b) \<ge> length lenstr \<and>
                             length (bk_data b) < PROTO_REPLY_CHUNK_BYTES * 4
                          then c\<lparr>reply := take ln (reply c) @ Some (b\<lparr>bk_data := lenstr @ bk_data b\<rparr>) # drop (ln + 2) (reply c)\<rparr>
                          else new_block)
             in asyncCloseClientOnOutputBufferLimitReached s c))"

section \<open>Moving output between clients\<close>

definition AddReplyFromClient :: "(nat \<Rightarrow> nat) \<Rightarrow> 'a net_server_scheme \<Rightarrow> 'b client_scheme \<Rightarrow> 'b client_scheme \<Rightarrow>
    'a net_server_scheme \<times> 'b client_scheme \<times> 'b client_scheme" where
  "AddReplyFromClient usable s dst src =
     (let ((s, dst), ok) = prepareClientToWrite s dst in
      if \<not> ok then (s, dst, src)
      else
        (let (s, dst) = addReplyString usable (cbuf src) (s, dst);
             (dst, src) = (if length (reply src) \<noteq> 0 then (dst\<lparr>reply := reply dst @ reply src\<rparr>, src\<lparr>reply := []\<rparr>)
                           else (dst, src))
         in (s, dst\<lparr>reply_bytes := reply_bytes dst + reply_bytes src\<rparr>, src\<lparr>reply_bytes := 0, cbuf := []\<rparr>)))"

definition copyClientOutputBuffer :: "'b client_scheme \<Rightarrow> 'b client_scheme \<Rightarrow> 'b client_scheme" where
  "copyClientOutputBuffer dst src =
     dst\<lparr>sentlen := 0, reply := reply src, cbuf := cbuf src, reply_bytes := reply_bytes src\<rparr>"

section \<open>Writing to the socket\<close>

text \<open>
  The answers of successive \<open>write\<close> calls: the number of bytes the kernel takes (never
  more than it is given), with the memory condition that the source reads after the write;
  a full socket buffer (\<open>EAGAIN\<close>); or another error.  When the answers run out the socket
  is full.
\<close>

datatype write_answer = Accept nat bool | Again | Failed

text \<open>
  One iteration that writes: \<open>chunk\<close> is the buffer or the head block, of which \<open>sentlen\<close>
  bytes are out already, and \<open>sent\<close> the update after \<open>n\<close> more.  The result is the end of
  the loop (\<open>Inl\<close>) or the state of the next iteration (\<open>Inr\<close>).
\<close>

definition write_once :: "write_answer list \<Rightarrow> bytes \<Rightarrow> (nat \<Rightarrow> 's \<times> 'b client_scheme) \<Rightarrow> 's \<Rightarrow> 'b client_scheme \<Rightarrow> bytes \<Rightarrow>
    ('s \<times> 'b client_scheme \<times> bytes \<times> write_answer) +
    (write_answer list \<times> 's \<times> 'b client_scheme \<times> bytes \<times> write_answer)" where
  "write_once wr chunk sent s c wire =
     (case wr of
        Accept k below # wr' \<Rightarrow>
          (let n = min k (length chunk - sentlen c) in
           if n = 0 then Inl (s, c, wire, Accept 0 below)
           else
             (let wire = wire @ take n (drop (sentlen c) chunk);
                  (s, c) = sent n
              in if length wire > NET_MAX_WRITES_PER_EVENT \<and> below \<and> CLIENT_SLAVE \<notin> flags c
                 then Inl (s, c, wire, Accept n below)
                 else Inr (wr', s, c, wire, Accept n below)))
      | Failed # _ \<Rightarrow> Inl (s, c, wire, Failed)
      | _ \<Rightarrow> Inl (s, c, wire, Again))"

definition buffer_sent :: "nat \<Rightarrow> 'b client_scheme \<Rightarrow> 'b client_scheme" where
  "buffer_sent n c =
     (let c = c\<lparr>sentlen := sentlen c + n\<rparr>
      in if sentlen c = length (cbuf c) then c\<lparr>cbuf := [], sentlen := 0\<rparr> else c)"

definition block_sent :: "reply_block \<Rightarrow> nat \<Rightarrow> 'a net_server_scheme \<Rightarrow> 'b client_scheme \<Rightarrow>
    'a net_server_scheme \<times> 'b client_scheme" where
  "block_sent b n s c =
     (let c = c\<lparr>sentlen := sentlen c + n\<rparr> in
      if sentlen c = length (bk_data b) then
        (let c = c\<lparr>reply_bytes := reply_bytes c - bk_size b, reply := tl (reply c), sentlen := 0\<rparr>
         in (if length (reply c) = 0 \<and> reply_bytes c \<noteq> 0 then s\<lparr>aborted := True\<rparr> else s, c))
      else (s, c))"

lemma write_once_Inr:
  assumes "write_once wr chunk sent s c wire = Inr (wr', s', c', wire', nw)"
  shows "length wr' < length wr" and "\<exists>n. c' = snd (sent n)"
  using assms by (auto simp: write_once_def Let_def split: list.splits write_answer.splits if_splits prod.splits)
     (metis snd_conv)+

lemma length_reply_sent:
  "length (reply (buffer_sent n c)) = length (reply c)"
  "length (reply (snd (block_sent b n s c))) \<le> length (reply c)"
  by (simp_all add: buffer_sent_def block_sent_def Let_def)

lemma write_once_less:
  assumes "write_once wr chunk sent s c wire = Inr (wr', s', c', wire', nw)"
    and "\<And>n. length (reply (snd (sent n))) \<le> length (reply c)"
  shows "length wr' + length (reply c') < length wr + length (reply c)"
  using write_once_Inr [OF assms(1)] assms(2) by (metis add_less_le_mono)

function write_loop :: "write_answer list \<Rightarrow> 'a net_server_scheme \<Rightarrow> 'b client_scheme \<Rightarrow> bytes \<Rightarrow> write_answer \<Rightarrow>
    'a net_server_scheme \<times> 'b client_scheme \<times> bytes \<times> write_answer" where
  "write_loop wr s c wire nwritten =
     (if \<not> clientHasPendingReplies c then (s, c, wire, nwritten)
      else if length (cbuf c) > 0 then
        (case write_once wr (cbuf c) (\<lambda>n. (s, buffer_sent n c)) s c wire of
           Inl r \<Rightarrow> r
         | Inr (wr, s, c, wire, nwritten) \<Rightarrow> write_loop wr s c wire nwritten)
      else
        (case hd (reply c) of
           None \<Rightarrow> (s\<lparr>aborted := True\<rparr>, c, wire, nwritten)
         | Some b \<Rightarrow>
             if length (bk_data b) = 0 then
               write_loop wr s (c\<lparr>reply_bytes := reply_bytes c - bk_size b, reply := tl (reply c)\<rparr>) wire nwritten
             else
               (case write_once wr (bk_data b) (\<lambda>n. block_sent b n s c) s c wire of
                  Inl r \<Rightarrow> r
                | Inr (wr, s, c, wire, nwritten) \<Rightarrow> write_loop wr s c wire nwritten)))"
  by pat_completeness auto
termination
proof (relation "measure (\<lambda>(wr, s, c, wire, nw). length wr + length (reply c))", goal_cases)
  case 1
  then show ?case by simp
next
  case 2
  then show ?case by (auto dest!: write_once_less simp: length_reply_sent)
next
  case 3
  then show ?case by (auto simp: clientHasPendingReplies_def)
next
  case 4
  then show ?case by (auto dest!: write_once_less simp: length_reply_sent)
qed

declare write_loop.simps [simp del]

text \<open>The client is \<open>None\<close> when it was freed (the result \<open>C_ERR\<close>).\<close>

definition writeToClient :: "write_answer list \<Rightarrow> 'a net_server_scheme \<Rightarrow> 'b client_scheme \<Rightarrow> bool \<Rightarrow>
    'a net_server_scheme \<times> 'b client_scheme option \<times> bytes" where
  "writeToClient wr s c handler_installed =
     (let (s, c, wire, nwritten) = write_loop wr s c [] (Accept 0 True);
          s = s\<lparr>stat_net_output_bytes := stat_net_output_bytes s + length wire\<rparr>
      in if nwritten = Failed then (s, None, wire)
         else
           (let c = (if length wire > 0 \<and> CLIENT_MASTER \<notin> flags c then c\<lparr>lastinteraction := unixtime s\<rparr> else c)
            in if \<not> clientHasPendingReplies c then
                 (let c = c\<lparr>sentlen := 0\<rparr>;
                      c = (if handler_installed then c\<lparr>write_handler := False\<rparr> else c)
                  in if CLIENT_CLOSE_AFTER_REPLY \<in> flags c then (s, None, wire) else (s, Some c, wire))
               else (s, Some c, wire)))"

section \<open>The pending stream\<close>

definition block_bytes :: "reply_block option \<Rightarrow> bytes" where
  "block_bytes b = (case b of None \<Rightarrow> [] | Some t \<Rightarrow> bk_data t)"

definition queued :: "'b client_scheme \<Rightarrow> bytes" where
  "queued c = cbuf c @ concat (map block_bytes (reply c))"

definition pending :: "'b client_scheme \<Rightarrow> bytes" where
  "pending c = drop (sentlen c) (queued c)"

definition block_ok :: "reply_block option \<Rightarrow> bool" where
  "block_ok b = (case b of None \<Rightarrow> True | Some t \<Rightarrow> length (bk_data t) \<le> bk_size t)"

definition block_size :: "reply_block option \<Rightarrow> nat" where
  "block_size b = (case b of None \<Rightarrow> 0 | Some t \<Rightarrow> bk_size t)"

definition client_ok :: "'b client_scheme \<Rightarrow> bool" where
  "client_ok c \<longleftrightarrow>
     length (cbuf c) \<le> PROTO_REPLY_CHUNK_BYTES \<and>
     list_all block_ok (reply c) \<and>
     reply_bytes c = sum_list (map block_size (reply c)) \<and>
     (if cbuf c \<noteq> [] then sentlen c < length (cbuf c)
      else if reply c = [] then sentlen c = 0
      else sentlen c = 0 \<or> sentlen c < length (block_bytes (hd (reply c))))"

text \<open>A client takes output when it may be written to and is not about to be closed.\<close>

definition accepts :: "'b client_scheme \<Rightarrow> bool" where
  "accepts c \<longleftrightarrow>
     CLIENT_CLOSE_AFTER_REPLY \<notin> flags c \<and>
     (CLIENT_LUA \<in> flags c \<or> CLIENT_MODULE \<in> flags c \<or>
      CLIENT_REPLY_OFF \<notin> flags c \<and> CLIENT_REPLY_SKIP \<notin> flags c \<and>
      (CLIENT_MASTER \<in> flags c \<longrightarrow> CLIENT_MASTER_FORCE_REPLY \<in> flags c) \<and> fd c > 0)"

lemma sentlen_le_queued: "client_ok c \<Longrightarrow> sentlen c \<le> length (queued c)"
  by (cases "reply c") (auto simp: client_ok_def queued_def split: if_splits)

text \<open>What the bookkeeping operations leave alone.\<close>

definition same_output :: "'b client_scheme \<Rightarrow> 'b client_scheme \<Rightarrow> bool" where
  "same_output c c' \<longleftrightarrow>
     cbuf c' = cbuf c \<and> reply c' = reply c \<and> reply_bytes c' = reply_bytes c \<and> sentlen c' = sentlen c \<and>
     accepts c' = accepts c \<and> cid c' = cid c \<and> replstate c' = replstate c"

lemma same_outputD:
  assumes "same_output c c'"
  shows "pending c' = pending c" and "client_ok c' = client_ok c" and "accepts c' = accepts c"
  using assms by (simp_all add: same_output_def pending_def queued_def client_ok_def)

lemma same_output_trans: "same_output a b \<Longrightarrow> same_output b c \<Longrightarrow> same_output a c"
  by (simp add: same_output_def)

lemma freeClientAsync_same: "same_output c (snd (freeClientAsync s c))"
  by (auto simp: freeClientAsync_def same_output_def accepts_def)

lemma checkLimits_same: "same_output c (fst (checkClientOutputBufferLimits s c))"
  by (simp add: checkClientOutputBufferLimits_def Let_def same_output_def accepts_def)

lemma asyncClose_same: "same_output c (snd (asyncCloseClientOnOutputBufferLimitReached s c))"
proof -
  obtain c1 r where 1: "checkClientOutputBufferLimits s c = (c1, r)" by force
  have "same_output c c1" using checkLimits_same [of c s] 1 by simp
  then have "same_output c (snd (freeClientAsync s c1))"
    using freeClientAsync_same same_output_trans by blast
  with \<open>same_output c c1\<close> show ?thesis
    by (auto simp: asyncCloseClientOnOutputBufferLimitReached_def 1) (simp_all add: same_output_def)
qed

lemma prepare_same: "same_output c (snd (fst (prepareClientToWrite s c)))"
  by (auto simp: prepareClientToWrite_def clientInstallWriteHandler_def same_output_def accepts_def)

lemma prepare_accepts:
  "CLIENT_CLOSE_AFTER_REPLY \<notin> flags c \<Longrightarrow> snd (prepareClientToWrite s c) = accepts c"
  by (auto simp: prepareClientToWrite_def accepts_def)

lemma prepare_close: "CLIENT_CLOSE_AFTER_REPLY \<in> flags (snd (fst (prepareClientToWrite s c))) \<longleftrightarrow>
    CLIENT_CLOSE_AFTER_REPLY \<in> flags c"
  by (auto simp: prepareClientToWrite_def clientInstallWriteHandler_def)

section \<open>Queueing appends to the pending stream\<close>

lemma pending_append:
  assumes "client_ok c" and "queued c' = queued c @ str" and "sentlen c' = sentlen c"
  shows "pending c' = pending c @ str"
  using assms sentlen_le_queued [OF assms(1)] by (simp add: pending_def)

lemma addReplyToBuffer_spec:
  assumes "client_ok c" and "CLIENT_CLOSE_AFTER_REPLY \<notin> flags c" and "addReplyToBuffer str c = (c', ok)"
  shows "if ok then client_ok c' \<and> flags c' = flags c \<and> fd c' = fd c \<and> cid c' = cid c \<and>
      replstate c' = replstate c \<and> pending c' = pending c @ str else c' = c"
proof (cases "length (reply c) > 0 \<or> length str > PROTO_REPLY_CHUNK_BYTES - length (cbuf c)")
  case True
  then show ?thesis using assms by (auto simp: addReplyToBuffer_def Let_def split: if_splits)
next
  case False
  then have c': "c' = c\<lparr>cbuf := cbuf c @ str\<rparr>" "ok" using assms by (auto simp: addReplyToBuffer_def Let_def split: if_splits)
  have "queued c' = queued c @ str" using c' False by (simp add: queued_def)
  moreover have "sentlen c' = sentlen c" using c' by simp
  ultimately have "pending c' = pending c @ str" by (rule pending_append [OF assms(1)])
  moreover have "client_ok c'" using assms(1) c' False by (auto simp: client_ok_def split: if_splits)
  ultimately show ?thesis using c' by simp
qed

lemma hd_last_block:
  assumes "xs \<noteq> []" and "last xs = Some t"
  shows "length (block_bytes (hd xs)) \<le> length (block_bytes (hd (butlast xs @ [Some (t\<lparr>bk_data := bk_data t @ str\<rparr>)])))"
  using assms by (cases xs rule: rev_cases) (auto simp: hd_append block_bytes_def)

lemma extend_tail_spec:
  assumes ok: "client_ok c" and ne: "reply c \<noteq> []" and t: "last (reply c) = Some t"
    and fits: "length str \<le> bk_size t - length (bk_data t)"
  defines "c' \<equiv> c\<lparr>reply := butlast (reply c) @ [Some (t\<lparr>bk_data := bk_data t @ str\<rparr>)]\<rparr>"
  shows "client_ok c'" and "pending c' = pending c @ str"
proof -
  obtain bs where bs: "reply c = bs @ [Some t]" using ne t by (metis append_butlast_last_id)
  have q: "queued c' = queued c @ str" by (simp add: c'_def queued_def bs block_bytes_def)
  show "pending c' = pending c @ str" by (rule pending_append [OF ok q]) (simp add: c'_def)
  have "length (block_bytes (hd (reply c))) \<le> length (block_bytes (hd (reply c')))"
    using hd_last_block [OF ne t] by (simp add: c'_def)
  then show "client_ok c'" using ok fits by (auto simp: client_ok_def c'_def bs block_ok_def block_size_def split: if_splits)
qed

lemma new_block_spec:
  assumes ok: "client_ok c" and fits: "length str \<le> sz"
  defines "c' \<equiv> c\<lparr>reply := reply c @ [Some \<lparr>bk_size = sz, bk_data = str\<rparr>], reply_bytes := reply_bytes c + sz\<rparr>"
  shows "client_ok c'" and "pending c' = pending c @ str"
proof -
  have q: "queued c' = queued c @ str" by (simp add: c'_def queued_def block_bytes_def)
  show "pending c' = pending c @ str" by (rule pending_append [OF ok q]) (simp add: c'_def)
  show "client_ok c'"
    using ok fits by (auto simp: client_ok_def c'_def block_ok_def block_size_def split: if_splits)
qed

lemma asyncClose_spec:
  assumes "client_ok c" and "asyncCloseClientOnOutputBufferLimitReached s c = (s', c')"
  shows "client_ok c' \<and> accepts c' = accepts c \<and> pending c' = pending c \<and> cid c' = cid c \<and>
    replstate c' = replstate c \<and> net_server.more s' = net_server.more s"
proof -
  have "same_output c c'" using asyncClose_same [of c s] assms(2) by simp
  moreover have "net_server.more s' = net_server.more s"
    using assms(2) by (auto simp: asyncCloseClientOnOutputBufferLimitReached_def freeClientAsync_def
        split: if_splits prod.splits)
  ultimately show ?thesis using assms(1) by (simp add: same_outputD) (simp add: same_output_def)
qed

lemma addReplyStringToList_spec:
  assumes ok: "client_ok c" and cl: "CLIENT_CLOSE_AFTER_REPLY \<notin> flags c" and us: "\<And>n. n \<le> usable n"
    and r: "addReplyStringToList usable str s c = (s', c')"
  shows "client_ok c' \<and> accepts c' = accepts c \<and> pending c' = pending c @ str \<and> cid c' = cid c \<and>
    replstate c' = replstate c \<and> net_server.more s' = net_server.more s"
proof -
  define tail where "tail = (if reply c = [] then None else last (reply c))"
  define c1str where "c1str = (case tail of
      None \<Rightarrow> (c, str)
    | Some t \<Rightarrow>
        (let avail = bk_size t - length (bk_data t); copy = (if avail \<ge> length str then length str else avail)
         in (c\<lparr>reply := butlast (reply c) @ [Some (t\<lparr>bk_data := bk_data t @ take copy str\<rparr>)]\<rparr>, drop copy str)))"
  obtain c1 str1 where 1: "c1str = (c1, str1)" by force
  have s1: "client_ok c1 \<and> accepts c1 = accepts c \<and> cid c1 = cid c \<and> replstate c1 = replstate c \<and>
      pending c1 @ str1 = pending c @ str"
  proof (cases tail)
    case None
    then show ?thesis using 1 ok by (simp add: c1str_def)
  next
    case (Some t)
    then have t: "reply c \<noteq> []" "last (reply c) = Some t" by (auto simp: tail_def split: if_splits)
    define copy where "copy = (if bk_size t - length (bk_data t) \<ge> length str then length str
      else bk_size t - length (bk_data t))"
    have "length (take copy str) \<le> bk_size t - length (bk_data t)" by (simp add: copy_def min_def)
    note e = extend_tail_spec [OF ok t this]
    have "c1 = c\<lparr>reply := butlast (reply c) @ [Some (t\<lparr>bk_data := bk_data t @ take copy str\<rparr>)]\<rparr>"
      "str1 = drop copy str" using 1 Some by (simp_all add: c1str_def Let_def copy_def)
    then show ?thesis using e by (simp add: accepts_def)
  qed
  define c2 where "c2 = (if length str1 \<noteq> 0 then
      (let sz = (if length str1 < PROTO_REPLY_CHUNK_BYTES then PROTO_REPLY_CHUNK_BYTES else length str1);
           t = \<lparr>bk_size = usable sz, bk_data = str1\<rparr>
       in c1\<lparr>reply := reply c1 @ [Some t], reply_bytes := reply_bytes c1 + bk_size t\<rparr>)
     else c1)"
  have s2: "client_ok c2 \<and> accepts c2 = accepts c1 \<and> cid c2 = cid c1 \<and> replstate c2 = replstate c1 \<and>
      pending c2 = pending c1 @ str1"
  proof (cases "length str1 = 0")
    case False
    have "length str1 \<le> usable (if length str1 < PROTO_REPLY_CHUNK_BYTES then PROTO_REPLY_CHUNK_BYTES else length str1)"
      by (rule order_trans [OF _ us]) simp
    from new_block_spec [OF conjunct1 [OF s1] this] False show ?thesis
      by (simp add: c2_def Let_def accepts_def)
  qed (use s1 in \<open>simp add: c2_def\<close>)
  have "asyncCloseClientOnOutputBufferLimitReached s c2 = (s', c')"
    using r cl 1 unfolding addReplyStringToList_def c2_def c1str_def tail_def by (simp add: Let_def)
  from asyncClose_spec [OF conjunct1 [OF s2] this] s1 s2 show ?thesis by simp
qed

lemma addReplyString_spec:
  assumes ok: "client_ok (snd sc)" and us: "\<And>n. n \<le> usable n"
  shows "client_ok (snd (addReplyString usable str sc)) \<and>
    accepts (snd (addReplyString usable str sc)) = accepts (snd sc) \<and>
    cid (snd (addReplyString usable str sc)) = cid (snd sc) \<and>
    replstate (snd (addReplyString usable str sc)) = replstate (snd sc) \<and>
    net_server.more (fst (addReplyString usable str sc)) = net_server.more (fst sc) \<and>
    pending (snd (addReplyString usable str sc)) = pending (snd sc) @ (if accepts (snd sc) then str else [])"
proof -
  obtain s c where sc: "sc = (s, c)" by force
  obtain s1 c1 b where p: "prepareClientToWrite s c = ((s1, c1), b)" by (metis surj_pair)
  have so: "same_output c c1" using prepare_same [of c s] p by simp
  then have c1: "client_ok c1" "accepts c1 = accepts c" "pending c1 = pending c" "cid c1 = cid c" "replstate c1 = replstate c"
    using ok sc by (simp_all add: same_outputD) (simp_all add: same_output_def)
  have m: "net_server.more s1 = net_server.more s"
    using p by (auto simp: prepareClientToWrite_def clientInstallWriteHandler_def split: if_splits)
  obtain c2 b2 where a: "addReplyToBuffer str c1 = (c2, b2)" by force
  have R: "addReplyString usable str sc = (if \<not> b then (s1, c1) else if \<not> b2 then addReplyStringToList usable str s1 c2
      else (s1, c2))"
    unfolding addReplyString_def sc fst_conv snd_conv p a Let_def prod.case by simp
  consider "\<not> b" | "b" "CLIENT_CLOSE_AFTER_REPLY \<in> flags c" | "b" "CLIENT_CLOSE_AFTER_REPLY \<notin> flags c" by blast
  then show ?thesis
  proof cases
    case 1
    then have "\<not> accepts c" using prepare_accepts [of c s] p by (auto simp: accepts_def)
    moreover have "addReplyString usable str sc = (s1, c1)" using R 1 by simp
    ultimately show ?thesis using c1 m sc by simp
  next
    case 2
    then have "CLIENT_CLOSE_AFTER_REPLY \<in> flags c1" using prepare_close [of s c] p by simp
    then have "c2 = c1" "b2" using a by (auto simp: addReplyToBuffer_def)
    then have "addReplyString usable str sc = (s1, c1)" using R 2 by simp
    moreover have "\<not> accepts c" using 2 by (simp add: accepts_def)
    ultimately show ?thesis using c1 m sc by simp
  next
    case 3
    then have cl: "CLIENT_CLOSE_AFTER_REPLY \<notin> flags c1" using prepare_close [of s c] p by simp
    have acc: "accepts c" using prepare_accepts [of c s] p 3 by simp
    note b = addReplyToBuffer_spec [OF c1(1) cl a]
    show ?thesis
    proof (cases b2)
      case True
      then have "addReplyString usable str sc = (s1, c2)" using R 3 by simp
      moreover have "accepts c2 = accepts c1" using b True by (simp add: accepts_def)
      ultimately show ?thesis using b True c1 m sc acc by simp
    next
      case False
      then have c2: "c2 = c1" using b by simp
      obtain s3 c3 where 3: "addReplyStringToList usable str s1 c1 = (s3, c3)" by force
      then have "addReplyString usable str sc = (s3, c3)" using R \<open>b\<close> False c2 by simp
      then show ?thesis using addReplyStringToList_spec [OF c1(1) cl us 3] c1 m sc acc by simp
    qed
  qed
qed

text \<open>Queueing sets at most two flags of the client and no field that an extension of its record adds.\<close>

abbreviation queue_flags :: "client_flag set" where
  "queue_flags \<equiv> {CLIENT_PENDING_WRITE, CLIENT_CLOSE_ASAP}"

definition frame :: "'b client_scheme \<Rightarrow> client_flag set \<times> 'b" where
  "frame c = (flags c - queue_flags, client.more c)"

lemma freeClientAsync_frame: "frame (snd (freeClientAsync s c)) = frame c"
  by (auto simp: frame_def freeClientAsync_def)

lemma asyncClose_frame: "frame (snd (asyncCloseClientOnOutputBufferLimitReached s c)) = frame c"
proof -
  obtain c1 r where 1: "checkClientOutputBufferLimits s c = (c1, r)" by force
  have "frame c1 = frame c"
    using 1 by (auto simp: frame_def checkClientOutputBufferLimits_def Let_def split: if_splits)
  then show ?thesis
    using freeClientAsync_frame [of s c1] by (simp add: asyncCloseClientOnOutputBufferLimitReached_def 1)
qed

lemma prepare_frame: "frame (snd (fst (prepareClientToWrite s c))) = frame c"
  by (auto simp: frame_def prepareClientToWrite_def clientInstallWriteHandler_def)

lemma addReplyToBuffer_frame: "frame (fst (addReplyToBuffer str c)) = frame c"
  by (simp add: frame_def addReplyToBuffer_def Let_def)

lemma addReplyStringToList_frame: "frame (snd (addReplyStringToList usable str s c)) = frame c"
  by (auto simp: addReplyStringToList_def Let_def asyncClose_frame split: option.split) (simp_all add: frame_def)

lemma addReplyString_frame: "frame (snd (addReplyString usable str sc)) = frame (snd sc)"
  using prepare_frame [of "fst sc" "snd sc"]
  by (auto simp: addReplyString_def Let_def split_beta addReplyToBuffer_frame addReplyStringToList_frame)

text \<open>
  The reply functions work on the pair of server and client; the queue they append to is
  the pending stream of the client.
\<close>

interpretation out: output_sink
  "\<lambda>sc :: 'a net_server_scheme \<times> 'b client_scheme. client_ok (snd sc) \<and> (\<forall>n. n \<le> usable n)"
  "\<lambda>sc. accepts (snd sc)" "\<lambda>sc. pending (snd sc)"
  "\<lambda>sc. (cid (snd sc), replstate (snd sc), frame (snd sc), net_server.more (fst sc))" "addReplyString usable" for usable
  by unfold_locales (simp add: addReplyString_spec addReplyString_frame)

lemma addReply_StrObj: "addReply usable (StrObj str) = addReplyString usable str"
  by (rule ext) (simp add: addReply_def addReplyString_def split: prod.split)

lemma addReplySds_eq: "addReplySds usable = addReplyString usable"
  by (rule ext, rule ext) (simp add: addReplySds_def addReplyString_def)

lemma length_show_int_64:
  assumes "in_sint 64 v"
  shows "length (show_int v) \<le> 20"
proof -
  have "nat \<bar>v\<bar> < 10 ^ 19" using assms by (auto simp: in_sint_def)
  then have "length (dec (nat \<bar>v\<bar>)) \<le> 19" using length_dec_less [of 19 "nat \<bar>v\<bar>"] by simp
  then show ?thesis by (auto simp: show_int_def)
qed

lemma ll2string_chars:
  assumes "in_sint 64 v" and "20 < n"
  shows "ll2string (replicate n 0) v = (length (show_int v), show_int v @ 0 # drop (Suc (length (show_int v))) (replicate n 0))"
  using ll2string_spec [OF assms(1), of "replicate n 0"] length_show_int_64 [OF assms(1)] assms(2) by simp

lemma addReply_IntObj: "in_sint 64 v \<Longrightarrow> addReply usable (IntObj v) = addReplyString usable (show_int v)"
  by (rule ext) (simp add: addReply_def addReplyString_def ll2string_chars split: prod.split)

definition robj_ok :: "robj \<Rightarrow> bool" where
  "robj_ok obj = (case obj of StrObj str \<Rightarrow> length str < 2 ^ 63 | IntObj v \<Rightarrow> in_sint 64 v)"

definition robj_bytes :: "robj \<Rightarrow> bytes" where
  "robj_bytes obj = (case obj of StrObj str \<Rightarrow> str | IntObj v \<Rightarrow> show_int v)"

lemma addReply_eq: "robj_ok obj \<Longrightarrow> addReply usable obj = addReplyString usable (robj_bytes obj)"
  by (cases obj) (simp_all add: robj_ok_def robj_bytes_def addReply_StrObj addReply_IntObj)

lemma addReplyLongLongWithPrefix_eq:
  assumes "in_sint 64 ll"
  shows "addReplyLongLongWithPrefix usable ll prefix = addReplyString usable (prefix # show_int ll @ CRLF)"
  by (rule ext)
     (auto simp: addReplyLongLongWithPrefix_def shared_mbulkhdr_def shared_bulkhdr_def addReply_StrObj
       ll2string_chars [OF assms])

lemma addReplyMultiBulkLen_eq:
  "int len < 2 ^ 63 \<Longrightarrow> addReplyMultiBulkLen usable len = addReplyString usable (42 # show_int (int len) @ CRLF)"
  by (rule ext) (simp add: addReplyMultiBulkLen_def shared_mbulkhdr_def addReply_StrObj
      addReplyLongLongWithPrefix_eq in_sint_def)

lemma bulk_len_loop_spec: "0 \<le> n \<Longrightarrow> bulk_len_loop n len + 1 = length (dec (nat n)) + len"
proof (induction n len rule: bulk_len_loop.induct)
  case (1 n len)
  have d: "n sdiv 10 = n div 10" using 1 by (simp add: signed_divide_int_def sgn_if)
  show ?case
  proof (cases "n div 10 = 0")
    case True
    then have "n < 10" using 1(2) by linarith
    then show ?thesis using True d by (simp add: bulk_len_loop.simps [of n] dec_small)
  next
    case False
    have "10 \<le> n" "0 < n div 10" using False 1(2) by linarith+
    then have "length (dec (nat n)) = Suc (length (dec (nat (n div 10))))"
      using length_dec_div [of 1 "nat n"] by (simp add: nat_div_distrib)
    then show ?thesis
      using 1(1) [of "n div 10"] False d \<open>0 < n div 10\<close> by (simp add: bulk_len_loop.simps [of n])
  qed
qed

lemma bulk_len_eq:
  assumes "robj_ok obj"
  shows "bulk_len obj = length (robj_bytes obj)"
proof (cases obj)
  case (IntObj n)
  have r: "- (2 ^ 63) \<le> n" "n < 2 ^ 63" using assms IntObj by (simp_all add: robj_ok_def in_sint_def)
  consider "0 \<le> n" | "n < 0" "n \<noteq> - (2 ^ 63)" | "n = - (2 ^ 63)" by linarith
  then show ?thesis
  proof cases
    case 1
    then show ?thesis using IntObj bulk_len_loop_spec [of n 1]
      by (simp add: bulk_len_def robj_bytes_def show_int_def del: bulk_len_loop.simps)
  next
    case 2
    then have "in_sint 64 (- n)" using r by (simp add: in_sint_def)
    then have "to_sint 64 (to_uint 64 (- n)) = - n" by (simp add: to_sint_to_uint)
    then show ?thesis using 2 IntObj bulk_len_loop_spec [of "- n" 2]
      by (simp add: bulk_len_def robj_bytes_def show_int_def del: bulk_len_loop.simps)
  next
    case 3
    then show ?thesis using IntObj
      by (simp add: bulk_len_def robj_bytes_def show_int_def to_sint_def to_uint_def dec.simps signed_divide_int_def)
  qed
qed (simp add: bulk_len_def robj_bytes_def)

definition resp_bulk :: "bytes \<Rightarrow> bytes" where
  "resp_bulk str = 36 # show_int (int (length str)) @ CRLF @ str @ CRLF"

lemma robj_bytes_bound: "robj_ok obj \<Longrightarrow> length (robj_bytes obj) < 2 ^ 63"
  using length_show_int_64 by (cases obj) (force simp: robj_ok_def robj_bytes_def)+

lemma addReplyBulkLen_eq:
  assumes "robj_ok obj"
  shows "addReplyBulkLen usable obj = addReplyString usable (36 # show_int (int (length (robj_bytes obj))) @ CRLF)"
proof -
  have "in_sint 64 (int (length (robj_bytes obj)))"
    using robj_bytes_bound [OF assms] by (simp add: in_sint_def)
  then show ?thesis
    by (intro ext) (simp add: addReplyBulkLen_def bulk_len_eq [OF assms] Let_def shared_bulkhdr_def
        addReply_StrObj addReplyLongLongWithPrefix_eq)
qed

lemma emits_addReplyBulk:
  assumes "robj_ok obj"
  shows "out.emits usable (addReplyBulk usable obj) (resp_bulk (robj_bytes obj))"
proof -
  have "out.emits usable (\<lambda>sc. addReplyString usable CRLF
        (addReplyString usable (robj_bytes obj)
          (addReplyString usable (36 # show_int (int (length (robj_bytes obj))) @ CRLF) sc)))
      (((36 # show_int (int (length (robj_bytes obj))) @ CRLF) @ robj_bytes obj) @ CRLF)"
    by (intro out.emits_comp out.emits_put)
  then show ?thesis
    using assms
    by (simp add: addReplyBulk_def [abs_def] addReply_StrObj addReply_eq addReplyBulkLen_eq resp_bulk_def)
qed

lemma emits_addReplyMultiBulkLen:
  "int len < 2 ^ 63 \<Longrightarrow> out.emits usable (addReplyMultiBulkLen usable len) (42 # show_int (int len) @ CRLF)"
  by (simp add: addReplyMultiBulkLen_eq out.emits_put)

lemma emits_addReply: "robj_ok obj \<Longrightarrow> out.emits usable (addReply usable obj) (robj_bytes obj)"
  by (simp add: addReply_eq out.emits_put)

lemma addReplyLongLong_eq:
  "in_sint 64 ll \<Longrightarrow> addReplyLongLong usable ll = addReplyString usable (58 # show_int ll @ CRLF)"
  by (rule ext) (auto simp: addReplyLongLong_def addReply_StrObj addReplyLongLongWithPrefix_eq
      ascii_def show_int_def dec.simps digit_char_def)

lemma emits_addReplyLongLong:
  "in_sint 64 ll \<Longrightarrow> out.emits usable (addReplyLongLong usable ll) (58 # show_int ll @ CRLF)"
  by (simp add: addReplyLongLong_eq out.emits_put)

section \<open>Draining the pending stream\<close>

definition no_placeholder :: "'b client_scheme \<Rightarrow> bool" where
  "no_placeholder c \<longleftrightarrow> None \<notin> set (reply c)"

definition drains :: "'b client_scheme \<Rightarrow> bytes \<Rightarrow> 'b client_scheme \<Rightarrow> bool" where
  "drains c w c' \<longleftrightarrow> client_ok c' \<and> no_placeholder c' \<and> flags c' = flags c \<and> w @ pending c' = pending c"

lemma drains_refl: "client_ok c \<Longrightarrow> no_placeholder c \<Longrightarrow> drains c [] c"
  by (simp add: drains_def)

lemma drains_trans: "drains a u b \<Longrightarrow> drains b v c \<Longrightarrow> drains a (u @ v) c"
  by (auto simp: drains_def)

text \<open>One successful \<open>write\<close> from the static buffer, and one from the head block.\<close>

lemma write_buffer_drains:
  assumes ok: "client_ok c" "no_placeholder c" and b: "cbuf c \<noteq> []" and n: "n \<le> length (cbuf c) - sentlen c"
  defines "c' \<equiv> c\<lparr>sentlen := sentlen c + n\<rparr>"
  shows "drains c (take n (drop (sentlen c) (cbuf c)))
    (if sentlen c' = length (cbuf c') then c'\<lparr>cbuf := [], sentlen := 0\<rparr> else c')"
proof -
  have "sentlen c < length (cbuf c)" using ok(1) b by (auto simp: client_ok_def split: if_splits)
  then show ?thesis
    using ok b n
    by (auto simp: drains_def client_ok_def no_placeholder_def pending_def queued_def c'_def add.commute
        simp flip: drop_drop append_assoc split: if_splits)
qed

lemma client_ok_tl:
  assumes "client_ok c" and "cbuf c = []" and "reply c = Some b # rs"
  shows "client_ok (c\<lparr>reply_bytes := reply_bytes c - bk_size b, reply := rs, sentlen := 0\<rparr>)"
  using assms by (simp add: client_ok_def block_size_def)

lemma write_block_drains:
  assumes ok: "client_ok c" "no_placeholder c" and b: "cbuf c = []" "reply c = Some b # rs" "bk_data b \<noteq> []"
    and n: "n \<le> length (bk_data b) - sentlen c"
  shows "drains c (take n (drop (sentlen c) (bk_data b)))
    (if sentlen c + n = length (bk_data b)
     then c\<lparr>reply_bytes := reply_bytes c - bk_size b, reply := rs, sentlen := 0\<rparr> else c\<lparr>sentlen := sentlen c + n\<rparr>)"
proof -
  have s: "sentlen c < length (bk_data b)"
    using ok(1) b by (auto simp: client_ok_def block_bytes_def split: if_splits)
  show ?thesis
  proof (cases "sentlen c + n = length (bk_data b)")
    case True
    then have "take n (drop (sentlen c) (bk_data b)) = drop (sentlen c) (bk_data b)" using s by simp
    then show ?thesis using True client_ok_tl [OF ok(1) b(1,2)] ok b s
      by (simp add: drains_def no_placeholder_def pending_def queued_def block_bytes_def)
  next
    case False
    then have f: "sentlen c + n < length (bk_data b)" using n s by linarith
    then have "client_ok (c\<lparr>sentlen := sentlen c + n\<rparr>)" using ok(1) b by (simp add: client_ok_def block_bytes_def)
    moreover have "take n (drop (sentlen c) (bk_data b)) @ drop (sentlen c + n) (bk_data b) = drop (sentlen c) (bk_data b)"
      by (metis append_take_drop_id drop_drop add.commute)
    ultimately show ?thesis using False f ok b s
      by (simp add: drains_def no_placeholder_def pending_def queued_def block_bytes_def)
  qed
qed

lemma empty_block_drains:
  assumes ok: "client_ok c" "no_placeholder c" and b: "cbuf c = []" "reply c = Some b # rs" "bk_data b = []"
  shows "drains c [] (c\<lparr>reply_bytes := reply_bytes c - bk_size b, reply := rs\<rparr>)"
proof -
  have "sentlen c = 0" using ok(1) b by (auto simp: client_ok_def block_bytes_def split: if_splits)
  then have "c\<lparr>reply_bytes := reply_bytes c - bk_size b, reply := rs, sentlen := 0\<rparr> =
      c\<lparr>reply_bytes := reply_bytes c - bk_size b, reply := rs\<rparr>" by simp
  then show ?thesis using client_ok_tl [OF ok(1) b(1,2)] ok b
    by (simp add: drains_def no_placeholder_def pending_def queued_def block_bytes_def)
qed

text \<open>An iteration drains what it put on the wire.\<close>

lemma write_once_drains:
  assumes ok: "client_ok c" "no_placeholder c"
    and sent: "\<And>n. n \<le> length chunk - sentlen c \<Longrightarrow>
      drains c (take n (drop (sentlen c) chunk)) (snd (sent n)) \<and> aborted (fst (sent n)) = aborted s"
  shows "write_once wr chunk sent s c wire = Inl (s', c', wire', nw) \<Longrightarrow>
      \<exists>w. wire' = wire @ w \<and> drains c w c' \<and> aborted s' = aborted s"
    and "write_once wr chunk sent s c wire = Inr (wr', s', c', wire', nw) \<Longrightarrow>
      \<exists>w. wire' = wire @ w \<and> drains c w c' \<and> aborted s' = aborted s"
proof -
  have d: "drains c (take (min k (length chunk - sentlen c)) (drop (sentlen c) chunk)) c1 \<and> aborted s1 = aborted s"
    if "sent (min k (length chunk - sentlen c)) = (s1, c1)" for k s1 c1
    using sent [of "min k (length chunk - sentlen c)"] that by simp
  show "write_once wr chunk sent s c wire = Inl (s', c', wire', nw) \<Longrightarrow>
      \<exists>w. wire' = wire @ w \<and> drains c w c' \<and> aborted s' = aborted s"
    using drains_refl [OF ok] d
    by (auto simp: write_once_def Let_def split: list.splits write_answer.splits if_splits prod.splits)
  show "write_once wr chunk sent s c wire = Inr (wr', s', c', wire', nw) \<Longrightarrow>
      \<exists>w. wire' = wire @ w \<and> drains c w c' \<and> aborted s' = aborted s"
    using d by (auto simp: write_once_def Let_def split: list.splits write_answer.splits if_splits prod.splits)
qed

lemma block_sent_drains:
  assumes ok: "client_ok c" "no_placeholder c" and b: "cbuf c = []" "reply c = Some b # rs" "bk_data b \<noteq> []"
    and n: "n \<le> length (bk_data b) - sentlen c"
  shows "drains c (take n (drop (sentlen c) (bk_data b))) (snd (block_sent b n s c)) \<and>
    aborted (fst (block_sent b n s c)) = aborted s"
proof -
  have "reply_bytes c = bk_size b + sum_list (map block_size rs)"
    using ok(1) b(2) by (simp add: client_ok_def block_size_def)
  then have "rs = [] \<Longrightarrow> reply_bytes c - bk_size b = 0" by simp
  then show ?thesis
    using write_block_drains [OF ok b n] b(2) by (auto simp: block_sent_def Let_def split: if_splits)
qed

text \<open>The three ways an iteration goes: the end, an empty head block, a write.\<close>

lemma write_loop_cases:
  assumes ok: "client_ok c" "no_placeholder c"
  obtains (stop) "write_loop wr s c wire nw = (s, c, wire, nw)" and "pending c = []"
  | (skip) c1 where "write_loop wr s c wire nw = write_loop wr s c1 wire nw" and "drains c [] c1"
      and "length (reply c1) < length (reply c)"
  | (wrt) chunk sent where
      "write_loop wr s c wire nw =
         (case write_once wr chunk sent s c wire of Inl r \<Rightarrow> r
          | Inr (wr, s, c, wire, nw) \<Rightarrow> write_loop wr s c wire nw)"
      and "\<And>n. n \<le> length chunk - sentlen c \<Longrightarrow>
        drains c (take n (drop (sentlen c) chunk)) (snd (sent n)) \<and> aborted (fst (sent n)) = aborted s"
      and "\<And>n. length (reply (snd (sent n))) \<le> length (reply c) \<and> flags (snd (sent n)) = flags c"
      and "sentlen c < length chunk" and "pending c \<noteq> []"
proof -
  note r = write_loop.simps [of wr s c wire nw]
  consider "\<not> clientHasPendingReplies c" | "clientHasPendingReplies c" "cbuf c \<noteq> []"
    | b rs where "clientHasPendingReplies c" "cbuf c = []" "reply c = Some b # rs"
    using ok(2) by (cases "reply c"; cases "hd (reply c)") (auto simp: no_placeholder_def clientHasPendingReplies_def)
  then show thesis
  proof cases
    case 1
    then show thesis using r stop by (simp add: pending_def queued_def clientHasPendingReplies_def)
  next
    case 2
    have l: "sentlen c < length (cbuf c)" using ok(1) 2 by (simp add: client_ok_def)
    then have "pending c \<noteq> []" by (simp add: pending_def queued_def)
    with l show thesis
      by (intro wrt [of "cbuf c" "\<lambda>n. (s, buffer_sent n c)"])
         (use 2 r write_buffer_drains [OF ok 2(2)] in \<open>simp_all add: buffer_sent_def Let_def\<close>)
  next
    case 3
    show thesis
    proof (cases "bk_data b = []")
      case True
      then show thesis
        using skip [of "c\<lparr>reply_bytes := reply_bytes c - bk_size b, reply := rs\<rparr>"] r 3
          empty_block_drains [OF ok 3(2,3) True] by simp
    next
      case False
      have l: "sentlen c < length (bk_data b)"
        using ok(1) 3 False by (auto simp: client_ok_def block_bytes_def split: if_splits)
      then have "pending c \<noteq> []" using 3 by (simp add: pending_def queued_def block_bytes_def)
      moreover have "length (reply (snd (block_sent b n s c))) \<le> length (reply c) \<and>
          flags (snd (block_sent b n s c)) = flags c" for n
        using length_reply_sent(2) [of b n s c] by (simp add: block_sent_def Let_def)
      moreover have "write_loop wr s c wire nw =
         (case write_once wr (bk_data b) (\<lambda>n. block_sent b n s c) s c wire of Inl r \<Rightarrow> r
          | Inr (wr, s, c, wire, nw) \<Rightarrow> write_loop wr s c wire nw)"
        using r 3 False by simp
      ultimately show thesis using wrt block_sent_drains [OF ok 3(2,3) False] l by blast
    qed
  qed
qed

lemma write_loop_spec:
  assumes "client_ok c" and "no_placeholder c" and "write_loop wr s c wire nw = (s', c', wire', nw')"
  shows "\<exists>w. wire' = wire @ w \<and> drains c w c' \<and> aborted s' = aborted s"
  using assms
proof (induction "length wr + length (reply c)" arbitrary: wr s c wire nw rule: less_induct)
  case less
  note ok = less.prems(1,2)
  show ?case
  proof (cases rule: write_loop_cases [OF ok, of wr s wire nw, case_names stop skip wrt])
    case stop
    then show ?thesis using less.prems drains_refl [OF ok] by auto
  next
    case (skip c1)
    then have "client_ok c1" "no_placeholder c1" by (simp_all add: drains_def)
    moreover have "write_loop wr s c1 wire nw = (s', c', wire', nw')" using skip(1) less.prems(3) by simp
    ultimately obtain w where "wire' = wire @ w" "drains c1 w c'" "aborted s' = aborted s"
      using less.hyps [of wr c1 s wire nw] skip(3) by auto
    then show ?thesis using drains_trans [OF skip(2)] by force
  next
    case (wrt chunk sent)
    show ?thesis
    proof (cases "write_once wr chunk sent s c wire")
      case (Inl a)
      then have "write_once wr chunk sent s c wire = Inl (s', c', wire', nw')" using wrt(1) less.prems(3) by simp
      from write_once_drains(1) [OF ok wrt(2) this] show ?thesis by simp
    next
      case (Inr a)
      obtain wr1 s1 c1 wire1 nw1 where a: "a = (wr1, s1, c1, wire1, nw1)" by (metis surj_pair)
      obtain w1 where w1: "wire1 = wire @ w1" "drains c w1 c1" "aborted s1 = aborted s"
        using write_once_drains(2) [OF ok wrt(2) Inr [unfolded a]] by blast
      have "length wr1 + length (reply c1) < length wr + length (reply c)"
        using write_once_less [OF Inr [unfolded a]] wrt(3) by blast
      moreover have "client_ok c1" "no_placeholder c1" using w1(2) by (simp_all add: drains_def)
      moreover have "write_loop wr1 s1 c1 wire1 nw1 = (s', c', wire', nw')" using wrt(1) less.prems(3) Inr a by simp
      ultimately obtain w2 where "wire' = wire1 @ w2" "drains c1 w2 c'" "aborted s' = aborted s1"
        using less.hyps by blast
      then show ?thesis using w1 drains_trans [OF w1(2)] by auto
    qed
  qed
qed

lemma drains_same: "drains c w c1 \<Longrightarrow> same_output c1 c2 \<Longrightarrow> flags c2 = flags c1 \<Longrightarrow> drains c w c2"
  using same_outputD [of c1 c2] by (simp add: drains_def no_placeholder_def) (simp add: same_output_def)

lemma writeToClient_spec:
  assumes "client_ok c" and "no_placeholder c" and r: "writeToClient wr s c h = (s', c', wire)"
  shows "aborted s' = aborted s \<and> (\<exists>c1. drains c wire c1 \<and> (c' = None \<or> c' = Some c1))"
proof -
  obtain s1 c1 w nw where l: "write_loop wr s c [] (Accept 0 True) = (s1, c1, w, nw)" by (metis surj_pair)
  have d: "drains c w c1" "aborted s1 = aborted s" using write_loop_spec [OF assms(1,2) l] by auto
  define c2 where "c2 = (if length w > 0 \<and> CLIENT_MASTER \<notin> flags c1 then c1\<lparr>lastinteraction := unixtime s1\<rparr> else c1)"
  define c3 where "c3 = (if h then c2\<lparr>sentlen := 0, write_handler := False\<rparr> else c2\<lparr>sentlen := 0\<rparr>)"
  have 2: "same_output c1 c2" "flags c2 = flags c1" by (auto simp: c2_def same_output_def accepts_def)
  have d2: "drains c w c2" by (rule drains_same [OF d(1) 2])
  have d3: "drains c w c3" if "\<not> clientHasPendingReplies c2"
  proof -
    have "sentlen c2 = 0" using that d2 by (auto simp: drains_def client_ok_def clientHasPendingReplies_def)
    then have "same_output c2 c3" "flags c3 = flags c2" by (auto simp: c3_def same_output_def accepts_def)
    then show ?thesis by (rule drains_same [OF d2])
  qed
  have "aborted s' = aborted s \<and> wire = w \<and> (c' = None \<or> (if clientHasPendingReplies c2 then c' = Some c2 else c' = Some c3))"
    using r d(2) unfolding writeToClient_def l by (auto simp: Let_def c2_def c3_def split: if_splits)
  then show ?thesis using d2 d3 by (metis (full_types))
qed

lemma drains_length: "drains c w c' \<Longrightarrow> length (pending c') = length (pending c) - length w"
  by (auto simp: drains_def) (metis add_diff_cancel_left' length_append)

text \<open>A socket that always takes something drains a replica completely.\<close>

definition willing :: "write_answer list \<Rightarrow> bool" where
  "willing wr \<longleftrightarrow> list_all (\<lambda>a. case a of Accept k _ \<Rightarrow> 0 < k | _ \<Rightarrow> False) wr"

lemma write_once_willing:
  assumes "willing wr" and "wr \<noteq> []" and "sentlen c < length chunk"
    and "\<And>n. CLIENT_SLAVE \<in> flags (snd (sent n))"
  obtains wr' n s' c' nw where "write_once wr chunk sent s c wire = Inr (wr', s', c', wire @ take n (drop (sentlen c) chunk), nw)"
    and "wr = hd wr # wr'" and "willing wr'" and "0 < n" and "n \<le> length chunk - sentlen c" and "sent n = (s', c')"
proof -
  obtain k below wr' where wr: "wr = Accept k below # wr'" "0 < k" "willing wr'"
    using assms(1,2) by (cases wr) (auto simp: willing_def split: write_answer.splits)
  define n where "n = min k (length chunk - sentlen c)"
  obtain s' c' where s': "sent n = (s', c')" by force
  have "CLIENT_SLAVE \<in> flags c'" using assms(4) [of n] s' by simp
  then have "write_once wr chunk sent s c wire = Inr (wr', s', c', wire @ take n (drop (sentlen c) chunk), Accept n below)"
    using wr s' assms(3) by (simp add: write_once_def Let_def n_def)
  moreover have "0 < n" "n \<le> length chunk - sentlen c" using wr assms(3) by (auto simp: n_def)
  ultimately show thesis using that wr s' by simp
qed

lemma write_loop_complete:
  assumes "client_ok c" and "no_placeholder c" and "CLIENT_SLAVE \<in> flags c"
    and "willing wr" and "length (pending c) \<le> length wr"
    and "write_loop wr s c wire nw = (s', c', wire', nw')"
  shows "pending c' = [] \<and> (nw' = nw \<or> (\<exists>n b. nw' = Accept n b))"
  using assms
proof (induction "length wr + length (reply c)" arbitrary: wr s c wire nw rule: less_induct)
  case less
  note ok = less.prems(1,2) and sl = less.prems(3)
  show ?case
  proof (cases rule: write_loop_cases [OF ok, of wr s wire nw, case_names stop skip wrt])
    case stop
    then show ?thesis using less.prems(6) by auto
  next
    case (skip c1)
    then have "client_ok c1" "no_placeholder c1" "CLIENT_SLAVE \<in> flags c1" "length (pending c1) \<le> length wr"
      using less.prems(3,5) by (simp_all add: drains_def)
    moreover have "write_loop wr s c1 wire nw = (s', c', wire', nw')" using skip(1) less.prems(6) by simp
    ultimately show ?thesis using less.hyps [of wr c1 s wire nw] skip(3) less.prems(4) by auto
  next
    case (wrt chunk sent)
    have "wr \<noteq> []" using less.prems(5) wrt(5) by auto
    from write_once_willing [OF less.prems(4) this wrt(4), of sent s wire] wrt(3) sl
    obtain wr1 n s1 c1 nw1 where w: "write_once wr chunk sent s c wire =
        Inr (wr1, s1, c1, wire @ take n (drop (sentlen c) chunk), nw1)" "wr = hd wr # wr1" "willing wr1"
      "0 < n" "n \<le> length chunk - sentlen c" "sent n = (s1, c1)" by metis
    have d: "drains c (take n (drop (sentlen c) chunk)) c1" using wrt(2) [OF w(5)] w(6) by simp
    have "length (pending c1) \<le> length wr1"
      using drains_length [OF d] less.prems(5) w(2,4,5) wrt(4) by (cases wr) auto
    moreover have "length wr1 + length (reply c1) < length wr + length (reply c)"
      using write_once_less [OF w(1)] wrt(3) by blast
    moreover have "client_ok c1" "no_placeholder c1" "CLIENT_SLAVE \<in> flags c1" using d sl by (simp_all add: drains_def)
    moreover have "write_loop wr1 s1 c1 (wire @ take n (drop (sentlen c) chunk)) nw1 = (s', c', wire', nw')"
      using wrt(1) less.prems(6) w(1) by simp
    ultimately have "pending c' = [] \<and> (nw' = nw1 \<or> (\<exists>n b. nw' = Accept n b))"
      using less.hyps w(3) by blast
    moreover have "\<exists>n b. nw1 = Accept n b"
      using w(1) by (auto simp: write_once_def Let_def split: list.splits write_answer.splits if_splits prod.splits)
    ultimately show ?thesis by blast
  qed
qed

lemma writeToClient_complete:
  assumes "client_ok c" and "no_placeholder c" and "CLIENT_SLAVE \<in> flags c" and "CLIENT_CLOSE_AFTER_REPLY \<notin> flags c"
    and "willing wr" and "length (pending c) \<le> length wr"
  shows "\<exists>s' c'. writeToClient wr s c h = (s', Some c', pending c) \<and> pending c' = []"
proof -
  obtain s1 c1 w nw where l: "write_loop wr s c [] (Accept 0 True) = (s1, c1, w, nw)" by (metis surj_pair)
  have e: "pending c1 = []" "nw \<noteq> Failed" using write_loop_complete [OF assms(1,2,3,5,6) l] by auto
  obtain s' c' w' where r': "writeToClient wr s c h = (s', c', w')" by (metis surj_pair)
  then have "w' = w \<and> (c' = None \<longrightarrow> nw = Failed \<or> CLIENT_CLOSE_AFTER_REPLY \<in> flags c1)"
    unfolding writeToClient_def l by (auto simp: Let_def split: if_splits)
  then have r: "writeToClient wr s c h = (s', c', w)" "c' = None \<Longrightarrow> nw = Failed \<or> CLIENT_CLOSE_AFTER_REPLY \<in> flags c1"
    using r' by auto
  have "drains c w c1" using write_loop_spec [OF assms(1,2) l] by auto
  then have w: "w = pending c" "flags c1 = flags c" using e by (auto simp: drains_def)
  then obtain c2 where "c' = Some c2" using r e assms(4) by auto
  moreover from this obtain c3 where "drains c w c3" "c' = Some c3" using writeToClient_spec [OF assms(1,2) r(1)] by auto
  ultimately show ?thesis using r(1) w by (auto simp: drains_def)
qed

section \<open>Properties\<close>

text \<open>
  C12. Queueing a bulk reply appends exactly the protocol bytes (dollar sign, decimal length,
  CRLF, payload, CRLF) to the pending stream of a client that accepts output, whatever mix
  of static buffer, partly filled tail block and new blocks they end up in; the payload of
  an integer object is its decimal notation and its announced length is right.  A client
  that does not accept output is left with the stream it had.
\<close>

theorem addReplyBulk_stream:
  assumes "\<And>n. n \<le> usable n" and "client_ok c" and "robj_ok obj"
  shows "client_ok (snd (addReplyBulk usable obj (s, c))) \<and>
    pending (snd (addReplyBulk usable obj (s, c))) =
      pending c @ (if accepts c then
        36 # show_int (int (length (robj_bytes obj))) @ CRLF @ robj_bytes obj @ CRLF else [])"
  using out.emitsD(1,4) [OF emits_addReplyBulk [OF assms(3), of usable], of "(s, c)"] assms(1,2)
  by (simp add: resp_bulk_def)

definition sample_client :: client where
  "sample_client = \<lparr>cid = 1, fd = 7, flags = {CLIENT_SLAVE}, replstate = SLAVE_STATE_ONLINE,
     repl_put_online_on_ack = False, cbuf = [1, 2], reply = [Some \<lparr>bk_size = 8, bk_data = [3, 4]\<rparr>],
     reply_bytes = 8, sentlen = 1, obuf_soft_limit_reached_time = 0, lastinteraction = 0, write_handler = False\<rparr>"

definition sample_server :: net_server where
  "sample_server = \<lparr>unixtime = 0,
     client_obuf_limits = (\<lambda>_. \<lparr>hard_limit_bytes = 0, soft_limit_bytes = 0, soft_limit_seconds = 0\<rparr>),
     clients_pending_write = [], clients_to_close = [], stat_net_output_bytes = 0, aborted = False,
     proto_max_bulk_len = 512 * 1024 * 1024, client_max_querybuf_len = 1024 * 1024 * 1024, lua_timedout = False,
     stat_net_input_bytes = 0\<rparr>"

lemma sample_client_ok: "client_ok sample_client" "no_placeholder sample_client" "accepts sample_client"
  "pending sample_client = [2, 3, 4]"
  by (simp_all add: sample_client_def client_ok_def no_placeholder_def accepts_def PROTO_REPLY_CHUNK_BYTES_def
      block_ok_def block_size_def pending_def queued_def block_bytes_def)

theorem addReplyBulk_stream_witness:
  "pending (snd (addReplyBulk (\<lambda>n. n) (IntObj (- 12)) (sample_server, sample_client))) =
     [2, 3, 4, 36, 51, 13, 10, 45, 49, 50, 13, 10]"
proof -
  have "show_int (- 12) = [45, 49, 50]" "show_int 3 = [51]"
    by (simp_all add: show_int_def dec.simps digit_char_def)
  then show ?thesis
    using addReplyBulk_stream [of "\<lambda>n. n" sample_client "IntObj (- 12)" sample_server]
    by (simp add: sample_client_ok robj_ok_def robj_bytes_def in_sint_def)
qed

text \<open>
  C10. Whatever the socket takes at each \<open>write\<close>, the bytes put on the wire followed by
  the stream that is still pending are the stream that was pending before: nothing is lost,
  repeated or reordered between the static buffer and the blocks.  The invariant is kept and
  the assertion on the block accounting never fires.
\<close>

theorem writeToClient_stream:
  assumes "client_ok c" and "no_placeholder c" and "writeToClient wr s c h = (s', c', wire)"
  shows "aborted s' = aborted s \<and> (\<exists>rest. wire @ rest = pending c \<and>
    (case c' of None \<Rightarrow> True | Some c1 \<Rightarrow> client_ok c1 \<and> pending c1 = rest))"
  using writeToClient_spec [OF assms] by (auto simp: drains_def)

theorem writeToClient_stream_witness:
  "\<exists>s' c'. writeToClient [Accept 1 True, Accept 5 True, Again] sample_server sample_client False = (s', c', [2, 3, 4]) \<and>
     aborted s' = False"
proof -
  obtain s' c' w where r: "writeToClient [Accept 1 True, Accept 5 True, Again] sample_server sample_client False = (s', c', w)"
    by (metis surj_pair)
  have "w = [2, 3, 4]"
    using r by (simp add: writeToClient_def write_loop.simps write_once_def sample_client_def buffer_sent_def
        block_sent_def clientHasPendingReplies_def NET_MAX_WRITES_PER_EVENT_def)
  then show ?thesis
    using writeToClient_stream [OF sample_client_ok(1,2) r] r by (simp add: sample_server_def)
qed

text \<open>
  C14. A socket that takes at least one byte per \<open>write\<close> receives the whole pending stream
  of a replica in one call, and the replica stays connected with nothing pending.
\<close>

theorem writeToClient_finishes:
  assumes "client_ok c" and "no_placeholder c" and "CLIENT_SLAVE \<in> flags c" and "CLIENT_CLOSE_AFTER_REPLY \<notin> flags c"
    and "willing wr" and "length (pending c) \<le> length wr"
  shows "\<exists>s' c'. writeToClient wr s c h = (s', Some c', pending c) \<and> pending c' = []"
  by (rule writeToClient_complete [OF assms])

theorem writeToClient_finishes_witness:
  "\<exists>s' c'. writeToClient (replicate 3 (Accept 1 True)) sample_server sample_client True = (s', Some c', [2, 3, 4]) \<and>
     pending c' = []"
  using writeToClient_finishes [OF sample_client_ok(1,2), of "replicate 3 (Accept 1 True)" sample_server True]
  by (simp add: sample_client_ok willing_def) (simp add: sample_client_def numeral_eq_Suc)

text \<open>
  C15. A formatted error is one line of the protocol whatever the message holds: it starts
  with a minus sign and no CR or LF of the message survives, so a client-supplied string
  quoted in an error cannot forge further replies.
\<close>

theorem addReplyErrorFormat_one_line:
  assumes "\<And>n. n \<le> usable n" and "client_ok c" and "accepts c"
  shows "\<exists>line. pending (snd (addReplyErrorFormat usable str (s, c))) = pending c @ line @ CRLF \<and>
    hd line = 45 \<and> 13 \<notin> set line \<and> 10 \<notin> set line"
proof -
  define m where "m = map (\<lambda>b. if b = 13 \<or> b = 10 then (32 :: byte) else b) str"
  define pre :: bytes where "pre = (if length m = 0 \<or> hd m \<noteq> 45 then ascii ''-ERR '' else [])"
  have p: "out.emits usable (\<lambda>sc. if length m = 0 \<or> hd m \<noteq> 45 then addReplyString usable (ascii ''-ERR '') sc else sc) pre"
    by (cases "length m = 0 \<or> hd m \<noteq> 45") (simp_all add: pre_def out.emits_put out.emits_id)
  have "out.emits usable (addReplyErrorFormat usable str) ((pre @ m) @ CRLF)"
    unfolding addReplyErrorFormat_def [abs_def] addReplyErrorLength_def Let_def m_def [symmetric]
    by (intro out.emits_comp out.emits_put p)
  from out.emitsD(4) [OF this, of "(s, c)"] assms
  have "pending (snd (addReplyErrorFormat usable str (s, c))) = pending c @ (pre @ m) @ CRLF" by simp
  moreover have "hd (pre @ m) = 45" by (cases m) (auto simp: pre_def ascii_def)
  moreover have "13 \<notin> set (pre @ m)" "10 \<notin> set (pre @ m)" by (auto simp: pre_def ascii_def m_def)
  ultimately show ?thesis by blast
qed

theorem addReplyErrorFormat_one_line_witness:
  "\<exists>line. pending (snd (addReplyErrorFormat (\<lambda>n. n) [98, 97, 100, 13, 10, 43, 79, 75] (sample_server, sample_client))) =
     [2, 3, 4] @ line @ CRLF \<and> 10 \<notin> set line"
  using addReplyErrorFormat_one_line [of "\<lambda>n. n" sample_client] sample_client_ok by force

lemma fill_placeholder:
  assumes "client_ok c" and "reply c = bef @ None # aft" and "length str \<le> sz"
  shows "client_ok (c\<lparr>reply := bef @ Some \<lparr>bk_size = sz, bk_data = str\<rparr> # aft, reply_bytes := reply_bytes c + sz\<rparr>)"
  using assms by (cases bef) (auto simp: client_ok_def block_ok_def block_size_def block_bytes_def split: if_splits)

lemma glue_placeholder:
  assumes "client_ok c" and "reply c = bef @ None # Some b # aft" and "length str \<le> bk_size b - length (bk_data b)"
  shows "client_ok (c\<lparr>reply := bef @ Some (b\<lparr>bk_data := str @ bk_data b\<rparr>) # aft\<rparr>)"
  using assms by (cases bef) (auto simp: client_ok_def block_ok_def block_size_def block_bytes_def split: if_splits)

text \<open>
  C13. Filling a deferred length puts the header bytes exactly where the placeholder was: the
  stream is what was queued before the placeholder, the multi bulk header with the count, and
  what was queued after it, whether the header gets a block of its own or is moved into the
  spare room of the next block.  The block accounting stays right.
\<close>

theorem setDeferredMultiBulkLength_fills:
  assumes us: "\<And>n. n \<le> usable n" and ok: "client_ok c" and ln: "ln < length (reply c)" "reply c ! ln = None"
    and r: "setDeferredMultiBulkLength usable (Some ln) len (s, c) = (s', c')"
  shows "client_ok c' \<and> pending c' = drop (sentlen c) (cbuf c @ concat (map block_bytes (take ln (reply c))) @
    (42 # show_int len @ CRLF) @ concat (map block_bytes (drop (ln + 1) (reply c))))"
proof -
  define lenstr where "lenstr = 42 # show_int len @ CRLF"
  define bef aft where "bef = take ln (reply c)" and "aft = drop (ln + 1) (reply c)"
  have split: "reply c = bef @ None # aft" "length bef = ln"
    using id_take_nth_drop [OF ln(1)] ln by (simp_all add: bef_def aft_def)
  define c1 where "c1 = (case (if ln + 1 < length (reply c) then reply c ! (ln + 1) else None) of
      Some b \<Rightarrow> if bk_size b - length (bk_data b) \<ge> length lenstr \<and> length (bk_data b) < PROTO_REPLY_CHUNK_BYTES * 4
        then c\<lparr>reply := take ln (reply c) @ Some (b\<lparr>bk_data := lenstr @ bk_data b\<rparr>) # drop (ln + 2) (reply c)\<rparr>
        else c\<lparr>reply := (reply c)[ln := Some \<lparr>bk_size = usable (length lenstr), bk_data = lenstr\<rparr>],
               reply_bytes := reply_bytes c + usable (length lenstr)\<rparr>
    | None \<Rightarrow> c\<lparr>reply := (reply c)[ln := Some \<lparr>bk_size = usable (length lenstr), bk_data = lenstr\<rparr>],
               reply_bytes := reply_bytes c + usable (length lenstr)\<rparr>)"
  have "asyncCloseClientOnOutputBufferLimitReached s c1 = (s', c')"
    using r ln unfolding setDeferredMultiBulkLength_def c1_def lenstr_def [symmetric]
    by (auto simp: Let_def split: option.splits)
  then have "client_ok c1 \<Longrightarrow> client_ok c' \<and> pending c' = pending c1" using asyncClose_spec by blast
  moreover have "client_ok c1 \<and> sentlen c1 = sentlen c \<and>
      queued c1 = cbuf c @ concat (map block_bytes bef) @ lenstr @ concat (map block_bytes aft)"
  proof (cases "(if ln + 1 < length (reply c) then reply c ! (ln + 1) else None) = None \<or>
      (\<exists>b. reply c ! (ln + 1) = Some b \<and> \<not> (bk_size b - length (bk_data b) \<ge> length lenstr \<and>
        length (bk_data b) < PROTO_REPLY_CHUNK_BYTES * 4))")
    case True
    then have "c1 = c\<lparr>reply := bef @ Some \<lparr>bk_size = usable (length lenstr), bk_data = lenstr\<rparr> # aft,
        reply_bytes := reply_bytes c + usable (length lenstr)\<rparr>"
      using split by (auto simp: c1_def split: option.splits if_splits)
    then show ?thesis using fill_placeholder [OF ok split(1) us] by (simp add: queued_def block_bytes_def)
  next
    case False
    then obtain b where b: "ln + 1 < length (reply c)" "reply c ! (ln + 1) = Some b"
      "bk_size b - length (bk_data b) \<ge> length lenstr" "length (bk_data b) < PROTO_REPLY_CHUNK_BYTES * 4"
      by (auto split: if_splits)
    then obtain aft' where aft: "aft = Some b # aft'" using split by (cases aft) (auto simp: nth_append)
    have "c1 = c\<lparr>reply := bef @ Some (b\<lparr>bk_data := lenstr @ bk_data b\<rparr>) # aft'\<rparr>"
      using b split aft by (simp add: c1_def)
    then show ?thesis using glue_placeholder [OF ok split(1) [unfolded aft] b(3)] aft
      by (simp add: queued_def block_bytes_def)
  qed
  ultimately show ?thesis by (simp add: pending_def bef_def aft_def lenstr_def)
qed

theorem setDeferredMultiBulkLength_fills_witness:
  "pending (snd (setDeferredMultiBulkLength (\<lambda>n. n) (Some 1) 2
     (sample_server, sample_client\<lparr>reply := reply sample_client @ [None, Some \<lparr>bk_size = 9, bk_data = [5]\<rparr>], reply_bytes := 17\<rparr>))) =
   [2, 3, 4, 42, 50, 13, 10, 5]"
proof -
  let ?c = "sample_client\<lparr>reply := reply sample_client @ [None, Some \<lparr>bk_size = 9, bk_data = [5]\<rparr>], reply_bytes := 17\<rparr>"
  obtain s' c' where r: "setDeferredMultiBulkLength (\<lambda>n. n) (Some 1) 2 (sample_server, ?c) = (s', c')" by force
  have "client_ok ?c"
    by (simp add: sample_client_def client_ok_def PROTO_REPLY_CHUNK_BYTES_def block_ok_def block_size_def)
  moreover have "1 < length (reply ?c)" "reply ?c ! 1 = None" by (simp_all add: sample_client_def)
  ultimately show ?thesis
    using setDeferredMultiBulkLength_fills [OF _ _ _ _ r] r
    by (simp add: sample_client_def block_bytes_def show_int_def dec.simps digit_char_def)
qed

end
