(* ===== verification/Replication.thy ===== *)
theory Replication
  imports Networking Glob
begin

text \<open>
  \<open>replication.c\<close>, master side: the replication backlog (a circular buffer over the stream
  of commands), feeding the backlog and the replicas, and partial resynchronisation.  The
  result \<open>None\<close> stands for a NULL dereference, an access outside the buffer or a loop
  that makes no progress; the theorems show that it does not happen.  Offsets are 64 bit
  counters of bytes and are not expected to wrap.
\<close>

section \<open>State\<close>

record repl_client = client +
  psync_initial_offset :: int
  repl_ack_time :: int
  slave_capa_psync2 :: bool

record repl_server = net_server +
  masterhost :: "bytes option"
  repl_backlog :: "bytes option"
  repl_backlog_size :: nat
  repl_backlog_histlen :: nat
  repl_backlog_idx :: nat
  repl_backlog_off :: int
  master_repl_offset :: int
  slaveseldb :: int
  replid :: bytes
  replid2 :: bytes
  second_replid_offset :: int
  slaves :: "repl_client list"
  repl_min_slaves_to_write :: int
  repl_min_slaves_max_lag :: int
  repl_good_slaves_count :: nat

definition CONFIG_REPL_BACKLOG_MIN_SIZE :: nat where "CONFIG_REPL_BACKLOG_MIN_SIZE = 1024 * 16"
definition PROTO_SHARED_SELECT_CMDS :: int where "PROTO_SHARED_SELECT_CMDS = 10"
definition LONG_STR_SIZE :: nat where "LONG_STR_SIZE = 21"

section \<open>The backlog\<close>

text \<open>\<open>junk\<close> gives the bytes of freshly allocated memory.\<close>

definition createReplicationBacklog :: "(nat \<Rightarrow> byte) \<Rightarrow> repl_server \<Rightarrow> repl_server option" where
  "createReplicationBacklog junk s =
     (if repl_backlog s \<noteq> None then None
      else Some (s\<lparr>repl_backlog := Some (map junk [0..<repl_backlog_size s]), repl_backlog_histlen := 0,
                   repl_backlog_idx := 0, repl_backlog_off := master_repl_offset s + 1\<rparr>))"

definition resizeReplicationBacklog :: "(nat \<Rightarrow> byte) \<Rightarrow> int \<Rightarrow> repl_server \<Rightarrow> repl_server" where
  "resizeReplicationBacklog junk newsize s =
     (let newsize = (if newsize < int CONFIG_REPL_BACKLOG_MIN_SIZE then int CONFIG_REPL_BACKLOG_MIN_SIZE else newsize) in
      if int (repl_backlog_size s) = newsize then s
      else
        (let s = s\<lparr>repl_backlog_size := nat newsize\<rparr> in
         if repl_backlog s \<noteq> None then
           s\<lparr>repl_backlog := Some (map junk [0..<repl_backlog_size s]), repl_backlog_histlen := 0,
             repl_backlog_idx := 0, repl_backlog_off := master_repl_offset s + 1\<rparr>
         else s))"

definition freeReplicationBacklog :: "repl_server \<Rightarrow> repl_server option" where
  "freeReplicationBacklog s = (if length (slaves s) \<noteq> 0 then None else Some (s\<lparr>repl_backlog := None\<rparr>))"

function feed_loop :: "nat \<Rightarrow> bytes \<Rightarrow> bytes \<Rightarrow> nat \<Rightarrow> nat \<Rightarrow> (bytes \<times> nat \<times> nat) option" where
  "feed_loop sz p b idx histlen =
     (if length p = 0 then Some (b, idx, histlen)
      else
        (let thislen = sz - idx;
             thislen = (if thislen > length p then length p else thislen)
         in if thislen = 0 \<or> \<not> idx + thislen \<le> length b then None
            else
              (let b = buf_write idx (take thislen p) b;
                   idx = idx + thislen;
                   idx = (if idx = sz then 0 else idx)
               in feed_loop sz (drop thislen p) b idx (histlen + thislen))))"
  by pat_completeness auto
termination by (relation "measure (\<lambda>(sz, p, _). length p)") auto

declare feed_loop.simps [simp del]

definition feedReplicationBacklog :: "bytes \<Rightarrow> repl_server \<Rightarrow> repl_server option" where
  "feedReplicationBacklog p s =
     do {
       let s = s\<lparr>master_repl_offset := master_repl_offset s + int (length p)\<rparr>;
       b \<leftarrow> repl_backlog s;
       (b, idx, histlen) \<leftarrow> feed_loop (repl_backlog_size s) p b (repl_backlog_idx s) (repl_backlog_histlen s);
       let histlen = (if histlen > repl_backlog_size s then repl_backlog_size s else histlen);
       Some (s\<lparr>repl_backlog := Some b, repl_backlog_idx := idx, repl_backlog_histlen := histlen,
               repl_backlog_off := master_repl_offset s - int histlen + 1\<rparr>)
     }"

definition feedReplicationBacklogWithObject :: "robj \<Rightarrow> repl_server \<Rightarrow> repl_server option" where
  "feedReplicationBacklogWithObject obj s =
     (case obj of
        IntObj v \<Rightarrow> (let (len, llstr) = ll2string (replicate LONG_STR_SIZE 0) v
                     in feedReplicationBacklog (take len llstr) s)
      | StrObj str \<Rightarrow> feedReplicationBacklog str s)"

section \<open>Feeding the replicas\<close>

text \<open>
  The loops over \<open>server.slaves\<close>: every replica that is not waiting for a BGSAVE to start
  goes through \<open>f\<close> together with the server.
\<close>

fun for_slaves :: "(repl_server \<times> repl_client \<Rightarrow> repl_server \<times> repl_client) \<Rightarrow> repl_server \<Rightarrow> repl_client list \<Rightarrow>
    repl_server \<times> repl_client list" where
  "for_slaves f s [] = (s, [])"
| "for_slaves f s (slave # rest) =
     (let (s, slave) = (if replstate slave = SLAVE_STATE_WAIT_BGSAVE_START then (s, slave) else f (s, slave));
          (s, rest) = for_slaves f s rest
      in (s, slave # rest))"

definition each_slave :: "(repl_server \<times> repl_client \<Rightarrow> repl_server \<times> repl_client) \<Rightarrow> repl_server \<Rightarrow> repl_server" where
  "each_slave f s = (let (s, sl) = for_slaves f s (slaves s) in s\<lparr>slaves := sl\<rparr>)"

text \<open>The SELECT command; the shared ones and the ones built on the fly have the same bytes.\<close>

definition select_cmd :: "int \<Rightarrow> robj" where
  "select_cmd dictid =
     (let (dictid_len, llstr) = ll2string (replicate (if 0 \<le> dictid \<and> dictid < PROTO_SHARED_SELECT_CMDS then 64 else LONG_STR_SIZE) 0) dictid
      in StrObj (ascii ''*2'' @ CRLF @ ascii ''$6'' @ CRLF @ ascii ''SELECT'' @ CRLF @
                 ascii ''$'' @ show_int (int dictid_len) @ CRLF @ cstr llstr @ CRLF))"

definition stringObjectLen :: "robj \<Rightarrow> nat" where
  "stringObjectLen obj = (case obj of StrObj str \<Rightarrow> length str | IntObj v \<Rightarrow> sdigits10 v)"

text \<open>\<open>aux\<close>: a prefix byte, a decimal number and CRLF in a local buffer.\<close>

definition aux_header :: "byte \<Rightarrow> int \<Rightarrow> bytes" where
  "aux_header prefix n = (let (len, b) = ll2string (replicate (LONG_STR_SIZE + 3 - 1) 0) n in prefix # take len b @ CRLF)"

fun feed_args :: "robj list \<Rightarrow> repl_server \<Rightarrow> repl_server option" where
  "feed_args [] s = Some s"
| "feed_args (arg # argv) s =
     do {
       s \<leftarrow> feedReplicationBacklog (aux_header 36 (int (stringObjectLen arg))) s;
       s \<leftarrow> feedReplicationBacklogWithObject arg s;
       s \<leftarrow> feedReplicationBacklog CRLF s;
       feed_args argv s
     }"

definition replicationFeedSlaves :: "(nat \<Rightarrow> nat) \<Rightarrow> int \<Rightarrow> robj list \<Rightarrow> repl_server \<Rightarrow> repl_server option" where
  "replicationFeedSlaves usable dictid argv s =
     (if masterhost s \<noteq> None then Some s
      else if repl_backlog s = None \<and> length (slaves s) = 0 then Some s
      else if length (slaves s) \<noteq> 0 \<and> repl_backlog s = None then None
      else
        do {
          s \<leftarrow> (if slaveseldb s \<noteq> dictid then
                  do {
                    s \<leftarrow> (if repl_backlog s \<noteq> None then feedReplicationBacklogWithObject (select_cmd dictid) s else Some s);
                    Some (each_slave (addReply usable (select_cmd dictid)) s)
                  }
                else Some s);
          let s = s\<lparr>slaveseldb := dictid\<rparr>;
          s \<leftarrow> (if repl_backlog s \<noteq> None then
                  do {
                    s \<leftarrow> feedReplicationBacklog (aux_header 42 (int (length argv))) s;
                    feed_args argv s
                  }
                else Some s);
          Some (each_slave (\<lambda>sc. fold (addReplyBulk usable) argv (addReplyMultiBulkLen usable (length argv) sc)) s)
        })"

definition replicationFeedSlavesFromMasterStream :: "(nat \<Rightarrow> nat) \<Rightarrow> bytes \<Rightarrow> repl_server \<Rightarrow> repl_server option" where
  "replicationFeedSlavesFromMasterStream usable buf s =
     do {
       s \<leftarrow> (if repl_backlog s \<noteq> None then feedReplicationBacklog buf s else Some s);
       Some (each_slave (addReplyString usable buf) s)
     }"

section \<open>Partial resynchronisation\<close>

function backlog_loop :: "(nat \<Rightarrow> nat) \<Rightarrow> bytes \<Rightarrow> int \<Rightarrow> int \<Rightarrow> int \<Rightarrow> repl_server \<times> repl_client \<Rightarrow>
    (repl_server \<times> repl_client) option" where
  "backlog_loop usable b sz j len sc =
     (if len = 0 then Some sc
      else
        (let thislen = (if sz - j < len then sz - j else len)
         in if thislen \<le> 0 \<or> j < 0 \<or> \<not> j + thislen \<le> int (length b) then None
            else backlog_loop usable b sz 0 (len - thislen)
                   (addReplySds usable (buf_read (nat j) (nat thislen) b) sc)))"
  by pat_completeness auto
termination by (relation "measure (\<lambda>(usable, b, sz, j, len, sc). nat len)") (auto split: if_splits)

declare backlog_loop.simps [simp del]

definition addReplyReplicationBacklog :: "(nat \<Rightarrow> nat) \<Rightarrow> int \<Rightarrow> repl_server \<times> repl_client \<Rightarrow>
    ((repl_server \<times> repl_client) \<times> int) option" where
  "addReplyReplicationBacklog usable offset sc =
     (let s = fst sc in
      if repl_backlog_histlen s = 0 then Some (sc, 0)
      else
        do {
          let sz = int (repl_backlog_size s);
          let skip = offset - repl_backlog_off s;
          let j = (int (repl_backlog_idx s) + (sz - int (repl_backlog_histlen s))) smod sz;
          let j = (j + skip) smod sz;
          let len = int (repl_backlog_histlen s) - skip;
          b \<leftarrow> repl_backlog s;
          sc \<leftarrow> backlog_loop usable b sz j len sc;
          Some (sc, int (repl_backlog_histlen s) - skip)
        })"

definition refreshGoodSlavesCount :: "repl_server \<Rightarrow> repl_server" where
  "refreshGoodSlavesCount s =
     (if repl_min_slaves_to_write s = 0 \<or> repl_min_slaves_max_lag s = 0 then s
      else s\<lparr>repl_good_slaves_count :=
             length (filter (\<lambda>slave. replstate slave = SLAVE_STATE_ONLINE \<and>
               unixtime s - repl_ack_time slave \<le> repl_min_slaves_max_lag s) (slaves s))\<rparr>)"

definition getLongLongFromObject :: "robj \<Rightarrow> int option" where
  "getLongLongFromObject obj = (case obj of StrObj str \<Rightarrow> string2ll str | IntObj v \<Rightarrow> Some v)"

definition getLongLongFromObjectOrReply :: "(nat \<Rightarrow> nat) \<Rightarrow> robj \<Rightarrow> bytes option \<Rightarrow> 'a net_server_scheme \<times> 'b client_scheme \<Rightarrow>
    ('a net_server_scheme \<times> 'b client_scheme) \<times> int option" where
  "getLongLongFromObjectOrReply usable obj msg sc =
     (case getLongLongFromObject obj of
        None \<Rightarrow> (addReplyError usable (case msg of Some m \<Rightarrow> m | None \<Rightarrow> ascii ''value is not an integer or out of range'') sc, None)
      | Some v \<Rightarrow> (sc, Some v))"

definition strcasecmp_eq :: "bytes \<Rightarrow> bytes \<Rightarrow> bool" where
  "strcasecmp_eq a b \<longleftrightarrow> map tolower (cstr a) = map tolower (cstr b)"

text \<open>
  The client is not yet in \<open>server.slaves\<close>; the result has it appended there.  The
  \<open>+CONTINUE\<close> line is written straight to the socket (\<open>wire\<close>); \<open>write_ok\<close> says whether
  that write succeeds.  The flag is whether the result is \<open>C_OK\<close>.
\<close>

definition masterTryPartialResynchronization :: "(nat \<Rightarrow> nat) \<Rightarrow> bool \<Rightarrow> bytes \<Rightarrow> robj \<Rightarrow> repl_server \<Rightarrow> repl_client \<Rightarrow>
    (repl_server \<times> repl_client \<times> bytes \<times> bool) option" where
  "masterTryPartialResynchronization usable write_ok master_replid arg2 s c =
     (let ((s, c), psync_offset) = getLongLongFromObjectOrReply usable arg2 None (s, c) in
      case psync_offset of
        None \<Rightarrow> Some (s, c, [], False)
      | Some psync_offset \<Rightarrow>
          if \<not> strcasecmp_eq master_replid (replid s) \<and>
             (\<not> strcasecmp_eq master_replid (replid2 s) \<or> psync_offset > second_replid_offset s)
          then Some (s, c, [], False)
          else if repl_backlog s = None \<or> psync_offset < repl_backlog_off s \<or>
                  psync_offset > repl_backlog_off s + int (repl_backlog_histlen s)
          then Some (s, c, [], False)
          else
            (let c = c\<lparr>flags := insert CLIENT_SLAVE (flags c), replstate := SLAVE_STATE_ONLINE,
                       repl_ack_time := unixtime s, repl_put_online_on_ack := False\<rparr>;
                 line = (if slave_capa_psync2 c then ascii ''+CONTINUE '' @ replid s @ CRLF else ascii ''+CONTINUE'' @ CRLF)
             in if \<not> write_ok then
                  (let (s, c) = freeClientAsync s c in Some (s\<lparr>slaves := slaves s @ [c]\<rparr>, c, [], True))
                else
                  do {
                    ((s, c), psync_len) \<leftarrow> addReplyReplicationBacklog usable psync_offset (s, c);
                    let s = s\<lparr>slaves := slaves s @ [c]\<rparr>;
                    Some (refreshGoodSlavesCount s, c, line, True)
                  }))"

section \<open>The backlog holds the end of the stream\<close>

text \<open>
  \<open>H\<close> is everything fed since the buffer was allocated.  Byte \<open>k\<close> of it, while it is among
  the last \<open>sz\<close>, is at \<open>k mod sz\<close>, and the write index is \<open>|H| mod sz\<close>.
\<close>

definition ring_ok :: "nat \<Rightarrow> bytes \<Rightarrow> bytes \<Rightarrow> bool" where
  "ring_ok sz b H \<longleftrightarrow> 0 < sz \<and> length b = sz \<and>
     (\<forall>k < length H. length H \<le> k + sz \<longrightarrow> b ! (k mod sz) = H ! k)"

lemma mod_window:
  assumes "k < h" and "h + t \<le> k + sz" and "j < t" and "h mod sz + t \<le> (sz :: nat)"
  shows "k mod sz \<noteq> h mod sz + j"
proof
  assume eq: "k mod sz = h mod sz + j"
  have j: "h mod sz + j < sz" using assms(3,4) by simp
  then have "(h + j) mod sz = h mod sz + j" by (metis mod_add_left_eq mod_less)
  then have "(h + j) mod sz = k mod sz" using eq by simp
  then have "sz dvd (h + j - k)" using assms(1) by (simp add: mod_eq_dvd_iff_nat)
  moreover have "0 < h + j - k" "h + j - k < sz" using assms(1-3) by linarith+
  ultimately show False using nat_dvd_not_less by blast
qed

lemma ring_ok_write:
  assumes ok: "ring_ok sz b H" and fit: "length H mod sz + length q \<le> sz"
  shows "ring_ok sz (buf_write (length H mod sz) q b) (H @ q)"
proof -
  let ?idx = "length H mod sz" let ?b = "buf_write ?idx q b"
  have sz: "0 < sz" "length b = sz" using ok by (simp_all add: ring_ok_def)
  have "?b ! (k mod sz) = (H @ q) ! k" if k: "k < length (H @ q)" "length (H @ q) \<le> k + sz" for k
  proof (cases "k < length H")
    case True
    have "b ! (k mod sz) = H ! k" using ok True k(2) by (simp add: ring_ok_def)
    moreover have "\<not> (?idx \<le> k mod sz \<and> k mod sz < ?idx + length q)"
    proof
      assume "?idx \<le> k mod sz \<and> k mod sz < ?idx + length q"
      then have "k mod sz = ?idx + (k mod sz - ?idx)" "k mod sz - ?idx < length q" by auto
      then show False using mod_window [OF True _ _ fit] k(2) by (metis length_append)
    qed
    ultimately show ?thesis using True fit sz by (auto simp: nth_buf_write nth_append)
  next
    case False
    then obtain j where j: "k = length H + j" "j < length q" using k(1) by (metis add_less_cancel_left le_Suc_ex length_append not_less)
    have "?idx + j < sz" using j(2) fit by simp
    then have "k mod sz = ?idx + j" using j(1) by (metis mod_add_left_eq mod_less)
    then show ?thesis using j fit sz by (simp add: nth_buf_write nth_append)
  qed
  then show ?thesis using sz fit by (simp add: ring_ok_def)
qed

lemma feed_loop_spec:
  assumes "ring_ok sz b H"
  shows "\<exists>b'. feed_loop sz p b (length H mod sz) hl = Some (b', length (H @ p) mod sz, hl + length p) \<and>
    ring_ok sz b' (H @ p)"
  using assms
proof (induction "length p" arbitrary: p b H hl rule: less_induct)
  case less
  have sz: "0 < sz" "length b = sz" using less.prems by (simp_all add: ring_ok_def)
  show ?case
  proof (cases "p = []")
    case True
    then show ?thesis using less.prems by (simp add: feed_loop.simps)
  next
    case False
    let ?idx = "length H mod sz"
    define t where "t = (if sz - ?idx > length p then length p else sz - ?idx)"
    have i: "?idx < sz" using sz by simp
    then have t: "0 < t" "?idx + t \<le> sz" "t \<le> length p" using False by (auto simp: t_def)
    let ?b = "buf_write ?idx (take t p) b" and ?H = "H @ take t p"
    have r: "ring_ok sz ?b ?H" using ring_ok_write [OF less.prems, of "take t p"] t by simp
    have idx: "length ?H mod sz = (if ?idx + t = sz then 0 else ?idx + t)"
    proof -
      have "length ?H mod sz = (?idx + t) mod sz" using t by (simp add: mod_add_left_eq min_def)
      then show ?thesis using t(2) by (auto simp: mod_less le_neq_implies_less)
    qed
    have "feed_loop sz p b ?idx hl = feed_loop sz (drop t p) ?b (length ?H mod sz) (hl + t)"
      using False t i sz unfolding idx by (subst feed_loop.simps) (simp add: Let_def t_def [symmetric])
    moreover have "\<exists>b'. feed_loop sz (drop t p) ?b (length ?H mod sz) (hl + t) =
        Some (b', length (?H @ drop t p) mod sz, hl + t + length (drop t p)) \<and> ring_ok sz b' (?H @ drop t p)"
      using less.hyps [OF _ r, of "drop t p" "hl + t"] t by simp
    ultimately show ?thesis using t by simp
  qed
qed

definition backlog_ok :: "repl_server \<Rightarrow> bytes \<Rightarrow> bool" where
  "backlog_ok s H \<longleftrightarrow>
     (\<exists>b. repl_backlog s = Some b \<and> ring_ok (repl_backlog_size s) b H) \<and>
     repl_backlog_idx s = length H mod repl_backlog_size s \<and>
     repl_backlog_histlen s = min (length H) (repl_backlog_size s) \<and>
     repl_backlog_off s = master_repl_offset s - int (repl_backlog_histlen s) + 1"

lemma feedReplicationBacklog_spec:
  assumes "backlog_ok s H"
  shows "\<exists>s'. feedReplicationBacklog p s = Some s' \<and> backlog_ok s' (H @ p) \<and>
    master_repl_offset s' = master_repl_offset s + int (length p) \<and>
    slaves s' = slaves s \<and> slaveseldb s' = slaveseldb s \<and> masterhost s' = masterhost s \<and>
    net_server.truncate s' = net_server.truncate s"
proof -
  obtain b where b: "repl_backlog s = Some b" "ring_ok (repl_backlog_size s) b H" "repl_backlog_idx s = length H mod repl_backlog_size s"
    "repl_backlog_histlen s = min (length H) (repl_backlog_size s)"
    using assms by (auto simp: backlog_ok_def)
  obtain b' where b': "feed_loop (repl_backlog_size s) p b (length H mod repl_backlog_size s) (repl_backlog_histlen s) =
      Some (b', length (H @ p) mod repl_backlog_size s, repl_backlog_histlen s + length p)"
    "ring_ok (repl_backlog_size s) b' (H @ p)"
    using feed_loop_spec [OF b(2)] by blast
  then show ?thesis using b by (auto simp: feedReplicationBacklog_def backlog_ok_def net_server.truncate_def Let_def min_def)
qed


text \<open>Feeding several pieces is feeding their concatenation.\<close>

definition feeds :: "(repl_server \<Rightarrow> repl_server option) \<Rightarrow> bytes \<Rightarrow> bool" where
  "feeds f w \<longleftrightarrow> (\<forall>s H. backlog_ok s H \<longrightarrow> (\<exists>s'. f s = Some s' \<and> backlog_ok s' (H @ w) \<and>
     master_repl_offset s' = master_repl_offset s + int (length w) \<and>
     slaves s' = slaves s \<and> slaveseldb s' = slaveseldb s \<and> masterhost s' = masterhost s \<and>
     net_server.truncate s' = net_server.truncate s))"

lemma feeds_backlog: "feeds (feedReplicationBacklog p) p"
  unfolding feeds_def using feedReplicationBacklog_spec by blast

lemma feeds_bind:
  assumes "feeds f v" and "feeds g w"
  shows "feeds (\<lambda>s. f s \<bind> g) (v @ w)"
  unfolding feeds_def
proof (intro allI impI)
  fix s H
  assume "backlog_ok s H"
  then obtain s1 where 1: "f s = Some s1" "backlog_ok s1 (H @ v)" "master_repl_offset s1 = master_repl_offset s + int (length v)"
    "slaves s1 = slaves s" "slaveseldb s1 = slaveseldb s" "masterhost s1 = masterhost s"
    "net_server.truncate s1 = net_server.truncate s"
    using assms(1) unfolding feeds_def by blast
  obtain s2 where 2: "g s1 = Some s2" "backlog_ok s2 ((H @ v) @ w)" "master_repl_offset s2 = master_repl_offset s1 + int (length w)"
    "slaves s2 = slaves s1" "slaveseldb s2 = slaveseldb s1" "masterhost s2 = masterhost s1"
    "net_server.truncate s2 = net_server.truncate s1"
    using assms(2) 1(2) unfolding feeds_def by blast
  then show "\<exists>s'. f s \<bind> g = Some s' \<and> backlog_ok s' (H @ v @ w) \<and>
     master_repl_offset s' = master_repl_offset s + int (length (v @ w)) \<and>
     slaves s' = slaves s \<and> slaveseldb s' = slaveseldb s \<and> masterhost s' = masterhost s \<and>
     net_server.truncate s' = net_server.truncate s"
    using 1 by simp
qed

lemma feeds_Some: "feeds Some []"
  by (simp add: feeds_def)

lemma feeds_object: "robj_ok obj \<Longrightarrow> feeds (feedReplicationBacklogWithObject obj) (robj_bytes obj)"
  by (cases obj) (simp_all add: feedReplicationBacklogWithObject_def [abs_def] robj_bytes_def robj_ok_def feeds_backlog
      ll2string_chars LONG_STR_SIZE_def)

lemma aux_header_eq: "in_sint 64 n \<Longrightarrow> aux_header prefix n = prefix # show_int n @ CRLF"
  by (simp add: aux_header_def ll2string_chars LONG_STR_SIZE_def)

lemma stringObjectLen_eq: "robj_ok obj \<Longrightarrow> stringObjectLen obj = length (robj_bytes obj)"
proof (cases obj)
  case (IntObj v)
  moreover assume "robj_ok obj"
  ultimately show ?thesis
    by (auto simp: stringObjectLen_def robj_bytes_def length_show_int sdigits10_def Let_def LLONG_MAX_def)
qed (simp add: stringObjectLen_def robj_bytes_def)

lemma feeds_args: "list_all robj_ok argv \<Longrightarrow> feeds (feed_args argv) (concat (map (\<lambda>a. resp_bulk (robj_bytes a)) argv))"
proof (induction argv)
  case Nil
  have "feed_args [] = Some" by (rule ext) simp
  then show ?case by (simp add: feeds_Some)
next
  case (Cons arg argv)
  have len: "in_sint 64 (int (length (robj_bytes arg)))"
    using Cons.prems robj_bytes_bound [of arg] by (simp add: in_sint_def)
  have "feeds (\<lambda>s. feedReplicationBacklog (aux_header 36 (int (stringObjectLen arg))) s \<bind>
      (\<lambda>s. feedReplicationBacklogWithObject arg s \<bind> (\<lambda>s. feedReplicationBacklog CRLF s \<bind> feed_args argv)))
      (aux_header 36 (int (stringObjectLen arg)) @ robj_bytes arg @ CRLF @ concat (map (\<lambda>a. resp_bulk (robj_bytes a)) argv))"
    using Cons by (intro feeds_bind feeds_backlog feeds_object) simp_all
  moreover have "feed_args (arg # argv) = (\<lambda>s. feedReplicationBacklog (aux_header 36 (int (stringObjectLen arg))) s \<bind>
      (\<lambda>s. feedReplicationBacklogWithObject arg s \<bind> (\<lambda>s. feedReplicationBacklog CRLF s \<bind> feed_args argv)))"
    by (rule ext) simp
  ultimately show ?case
    using Cons.prems len by (simp add: resp_bulk_def aux_header_eq stringObjectLen_eq)
qed

section \<open>Feeding replicas and backlog alike\<close>

text \<open>The encoding of a command as a multi bulk request.\<close>

definition resp_command :: "bytes list \<Rightarrow> bytes" where
  "resp_command args = 42 # show_int (int (length args)) @ CRLF @ concat (map resp_bulk args)"

definition select_bytes :: "int \<Rightarrow> bytes" where
  "select_bytes dictid = resp_command [ascii ''SELECT'', show_int dictid]"

lemma cstr_ll2string:
  assumes "in_sint 64 v" and "20 < n"
  shows "cstr (snd (ll2string (replicate n 0) v)) = show_int v"
proof -
  have "b \<noteq> 0" if "b \<in> set (show_int v)" for b
    using that dec_digits [of b] by (auto simp: show_int_def is_digit_def split: if_splits)
  then have "takeWhile (\<lambda>b. b \<noteq> 0) (show_int v @ 0 # xs) = show_int v" for xs
    by (simp add: takeWhile_append2)
  then show ?thesis by (simp add: cstr_def ll2string_chars [OF assms])
qed

lemma select_cmd_eq:
  assumes "in_sint 64 dictid"
  shows "select_cmd dictid = StrObj (select_bytes dictid)"
proof -
  have n: "20 < (if 0 \<le> dictid \<and> dictid < PROTO_SHARED_SELECT_CMDS then 64 else LONG_STR_SIZE)"
    by (simp add: LONG_STR_SIZE_def)
  have "show_int 2 = [50]" "show_int 6 = [54]" by (simp_all add: show_int_def dec.simps digit_char_def)
  then show ?thesis
    using cstr_ll2string [OF assms n] ll2string_chars [OF assms n]
    by (simp add: select_cmd_def select_bytes_def resp_command_def resp_bulk_def ascii_def split: prod.splits)
qed

definition fed :: "bytes \<Rightarrow> repl_client \<Rightarrow> repl_client \<Rightarrow> bool" where
  "fed w c c' \<longleftrightarrow> client_ok c' \<and> accepts c' = accepts c \<and> replstate c' = replstate c \<and> cid c' = cid c \<and>
     pending c' = pending c @ (if replstate c \<noteq> SLAVE_STATE_WAIT_BGSAVE_START \<and> accepts c then w else [])"

lemma fed_trans: "fed v a b \<Longrightarrow> fed w b c \<Longrightarrow> fed (v @ w) a c"
  by (auto simp: fed_def)

lemma for_slaves_spec:
  assumes "out.emits usable f w" and "\<And>n. n \<le> usable n" and "list_all client_ok sl"
  shows "list_all2 (fed w) sl (snd (for_slaves f s sl)) \<and>
    net_server.more (fst (for_slaves f s sl)) = net_server.more s"
  using assms(3)
proof (induction sl arbitrary: s)
  case (Cons c sl)
  define sc where "sc = (if replstate c = SLAVE_STATE_WAIT_BGSAVE_START then (s, c) else f (s, c))"
  have "fed w c (snd sc) \<and> net_server.more (fst sc) = net_server.more s"
    using out.emitsD [OF assms(1), of "(s, c)"] assms(2) Cons.prems by (auto simp: sc_def fed_def)
  then show ?case
    using Cons.IH [of "fst sc"] Cons.prems by (simp add: sc_def [symmetric] Let_def split_beta)
qed simp

lemma same_more:
  assumes "net_server.more s' = net_server.more (s :: repl_server)"
  shows "backlog_ok s' = backlog_ok s" and "master_repl_offset s' = master_repl_offset s"
    and "slaveseldb s' = slaveseldb s" and "masterhost s' = masterhost s" and "repl_backlog s' = repl_backlog s"
    and "slaves s' = slaves s"
proof -
  show "master_repl_offset s' = master_repl_offset s" "slaveseldb s' = slaveseldb s" "masterhost s' = masterhost s"
    "repl_backlog s' = repl_backlog s" "slaves s' = slaves s"
    using assms by (cases s; cases s'; simp)+
  show "backlog_ok s' = backlog_ok s" using assms by (cases s; cases s'; simp add: backlog_ok_def fun_eq_iff)
qed

lemma each_slave_spec:
  assumes "out.emits usable f w" and "\<And>n. n \<le> usable n" and "list_all client_ok (slaves s)"
  shows "list_all2 (fed w) (slaves s) (slaves (each_slave f s))" and "backlog_ok (each_slave f s) = backlog_ok s"
    and "master_repl_offset (each_slave f s) = master_repl_offset s" and "slaveseldb (each_slave f s) = slaveseldb s"
    and "masterhost (each_slave f s) = masterhost s" and "repl_backlog (each_slave f s) = repl_backlog s"
proof -
  obtain s1 sl where 1: "for_slaves f s (slaves s) = (s1, sl)" by force
  have f: "list_all2 (fed w) (slaves s) sl" "net_server.more s1 = net_server.more s"
    using for_slaves_spec [OF assms, of s] 1 by simp_all
  have e: "each_slave f s = s1\<lparr>slaves := sl\<rparr>" by (simp add: each_slave_def 1)
  show "list_all2 (fed w) (slaves s) (slaves (each_slave f s))" using f by (simp add: e)
  show "backlog_ok (each_slave f s) = backlog_ok s"
    using same_more(1) [OF f(2)] by (simp add: e backlog_ok_def fun_eq_iff)
  show "master_repl_offset (each_slave f s) = master_repl_offset s" "slaveseldb (each_slave f s) = slaveseldb s"
    "masterhost (each_slave f s) = masterhost s" "repl_backlog (each_slave f s) = repl_backlog s"
    using same_more [OF f(2)] by (simp_all add: e)
qed

lemma emits_command:
  assumes "list_all robj_ok argv" and "int (length argv) < 2 ^ 63"
  shows "out.emits usable (\<lambda>sc. fold (addReplyBulk usable) argv (addReplyMultiBulkLen usable (length argv) sc))
    (resp_command (map robj_bytes argv))"
proof -
  have "out.emits usable (fold (addReplyBulk usable) argv) (concat (map (\<lambda>a. resp_bulk (robj_bytes a)) argv))"
    using assms(1) by (intro out.emits_fold emits_addReplyBulk) (auto simp: list_all_iff)
  from out.emits_comp [OF emits_addReplyMultiBulkLen [OF assms(2)] this] show ?thesis
    by (simp add: resp_command_def comp_def)
qed

lemma fed_list_trans:
  "list_all2 (fed v) as bs \<Longrightarrow> list_all2 (fed w) bs cs \<Longrightarrow> list_all2 (fed (v @ w)) as cs"
  by (rule list_all2_trans [OF fed_trans])

lemma fed_list_ok: "list_all2 (fed v) as bs \<Longrightarrow> list_all client_ok bs"
  by (auto simp: list_all2_conv_all_nth list_all_length fed_def)

lemma fed_list_refl: "list_all client_ok as \<Longrightarrow> list_all2 (fed []) as as"
  by (auto simp: list_all2_conv_all_nth list_all_length fed_def)

text \<open>A feed of the backlog followed by the same bytes to every replica.\<close>

lemma feed_both:
  assumes "feeds f w" and "out.emits usable g w" and us: "\<And>n. n \<le> usable n"
    and ok: "backlog_ok s H" "list_all client_ok (slaves s)"
  shows "\<exists>s1. f s = Some s1 \<and> backlog_ok (each_slave g s1) (H @ w) \<and>
    master_repl_offset (each_slave g s1) = master_repl_offset s + int (length w) \<and>
    slaveseldb (each_slave g s1) = slaveseldb s \<and> masterhost (each_slave g s1) = masterhost s \<and>
    repl_backlog s1 \<noteq> None \<and> list_all2 (fed w) (slaves s) (slaves (each_slave g s1))"
proof -
  obtain s1 where 1: "f s = Some s1" "backlog_ok s1 (H @ w)" "master_repl_offset s1 = master_repl_offset s + int (length w)"
    "slaves s1 = slaves s" "slaveseldb s1 = slaveseldb s" "masterhost s1 = masterhost s"
    using assms(1) ok(1) unfolding feeds_def by blast
  note e = each_slave_spec [OF assms(2) us, of s1]
  have "repl_backlog s1 \<noteq> None" using 1(2) by (auto simp: backlog_ok_def)
  then show ?thesis using 1 e ok(2) by simp
qed

text \<open>The SELECT that precedes a command on another database.\<close>

lemma feed_select:
  assumes us: "\<And>n. n \<le> usable n" and ok: "backlog_ok s H" "list_all client_ok (slaves s)" and db: "in_sint 64 dictid"
  defines "sel \<equiv> (if slaveseldb s \<noteq> dictid then select_bytes dictid else [])"
  shows "\<exists>t. (if slaveseldb s \<noteq> dictid then
      do { t \<leftarrow> (if repl_backlog s \<noteq> None then feedReplicationBacklogWithObject (select_cmd dictid) s else Some s);
           Some (each_slave (addReply usable (select_cmd dictid)) t) } else Some s) = Some t \<and>
    backlog_ok t (H @ sel) \<and> master_repl_offset t = master_repl_offset s + int (length sel) \<and>
    list_all2 (fed sel) (slaves s) (slaves t)"
proof (cases "slaveseldb s = dictid")
  case True
  then show ?thesis using ok by (simp add: sel_def fed_list_refl)
next
  case False
  have "repl_backlog s \<noteq> None" using ok(1) by (auto simp: backlog_ok_def)
  moreover have "robj_ok (StrObj (select_bytes dictid))"
    using length_show_int_64 [OF db] length_show_int_64 [of "int (length (show_int dictid))"]
    by (auto simp: robj_ok_def select_bytes_def resp_command_def resp_bulk_def show_int_def dec.simps in_sint_def ascii_def)
  then have f: "feeds (feedReplicationBacklogWithObject (select_cmd dictid)) (select_bytes dictid)"
    using feeds_object [of "select_cmd dictid"] by (simp add: select_cmd_eq [OF db] robj_bytes_def)
  have "out.emits usable (addReply usable (select_cmd dictid)) (select_bytes dictid)"
    by (simp add: select_cmd_eq [OF db] addReply_StrObj out.emits_put)
  from feed_both [OF f this us ok] show ?thesis using False calculation by (auto simp: sel_def)
qed

lemma replicationFeedSlaves_spec:
  assumes us: "\<And>n. n \<le> usable n" and m: "masterhost s = None" and ok: "backlog_ok s H" "list_all client_ok (slaves s)"
    and args: "list_all robj_ok argv" "int (length argv) < 2 ^ 63" and db: "in_sint 32 dictid"
  defines "w \<equiv> (if slaveseldb s \<noteq> dictid then select_bytes dictid else []) @ resp_command (map robj_bytes argv)"
  shows "\<exists>s'. replicationFeedSlaves usable dictid argv s = Some s' \<and> backlog_ok s' (H @ w) \<and>
    master_repl_offset s' = master_repl_offset s + int (length w) \<and> slaveseldb s' = dictid \<and>
    list_all2 (fed w) (slaves s) (slaves s')"
proof -
  have db64: "in_sint 64 dictid" using db by (simp add: in_sint_def)
  have bl: "repl_backlog s \<noteq> None" using ok(1) by (auto simp: backlog_ok_def)
  define sel where "sel = (if slaveseldb s \<noteq> dictid then select_bytes dictid else [])"
  obtain t where t: "(if slaveseldb s \<noteq> dictid then
      do { t \<leftarrow> (if repl_backlog s \<noteq> None then feedReplicationBacklogWithObject (select_cmd dictid) s else Some s);
           Some (each_slave (addReply usable (select_cmd dictid)) t) } else Some s) = Some t"
    "backlog_ok t (H @ sel)" "master_repl_offset t = master_repl_offset s + int (length sel)"
    "list_all2 (fed sel) (slaves s) (slaves t)"
    using feed_select [OF us ok db64] unfolding sel_def by blast
  let ?t = "t\<lparr>slaveseldb := dictid\<rparr>" and ?c = "resp_command (map robj_bytes argv)"
  have t': "backlog_ok ?t (H @ sel)" "list_all client_ok (slaves ?t)" "repl_backlog ?t \<noteq> None"
    using t(2,4) fed_list_ok by (auto simp: backlog_ok_def)
  have "feeds (\<lambda>s. feedReplicationBacklog (aux_header 42 (int (length argv))) s \<bind> feed_args argv) ?c"
    using feeds_bind [OF feeds_backlog feeds_args [OF args(1)], of "aux_header 42 (int (length argv))"] args(2)
    by (simp add: resp_command_def aux_header_eq in_sint_def comp_def)
  from feed_both [OF this emits_command [OF args] us t'(1,2)]
  obtain s2 where s2: "feedReplicationBacklog (aux_header 42 (int (length argv))) ?t \<bind> feed_args argv = Some s2"
    and r: "let s' = each_slave (\<lambda>sc. fold (addReplyBulk usable) argv (addReplyMultiBulkLen usable (length argv) sc)) s2 in
      backlog_ok s' ((H @ sel) @ ?c) \<and> master_repl_offset s' = master_repl_offset ?t + int (length ?c) \<and>
      slaveseldb s' = slaveseldb ?t \<and> list_all2 (fed ?c) (slaves ?t) (slaves s')"
    by (auto simp: Let_def)
  obtain s3 where "feedReplicationBacklog (aux_header 42 (int (length argv))) ?t = Some s3" "feed_args argv s3 = Some s2"
    using s2 by (auto simp: bind_eq_Some_conv)
  then have "replicationFeedSlaves usable dictid argv s =
      Some (each_slave (\<lambda>sc. fold (addReplyBulk usable) argv (addReplyMultiBulkLen usable (length argv) sc)) s2)"
    unfolding replicationFeedSlaves_def t(1) using m bl t'(3) by auto
  then show ?thesis
    using r t(3,4) fed_list_trans [OF t(4)] by (auto simp: w_def sel_def Let_def)
qed

section \<open>Properties\<close>

text \<open>
  C6. Propagating a command feeds one and the same byte string to the backlog and to every
  attached replica that is past the start of its BGSAVE: a SELECT when the database changed,
  then the multi bulk encoding of the arguments.  The master offset grows by its length, the
  backlog goes on holding the end of the stream, and no output of a replica is lost.  The
  two encoders (decimal headers built in a local buffer, and the addReply functions with
  their shared headers) agree.
\<close>

theorem replicationFeedSlaves_consistent:
  assumes us: "\<And>n. n \<le> usable n" and m: "masterhost s = None" and ok: "backlog_ok s H" "list_all client_ok (slaves s)"
    and args: "list_all robj_ok argv" "int (length argv) < 2 ^ 63" and db: "in_sint 32 dictid"
  defines "w \<equiv> (if slaveseldb s \<noteq> dictid then select_bytes dictid else []) @ resp_command (map robj_bytes argv)"
  shows "\<exists>s'. replicationFeedSlaves usable dictid argv s = Some s' \<and> backlog_ok s' (H @ w) \<and>
    master_repl_offset s' = master_repl_offset s + int (length w) \<and> slaveseldb s' = dictid \<and>
    list_all2 (fed w) (slaves s) (slaves s')"
  unfolding w_def by (rule replicationFeedSlaves_spec [OF assms(1-7)])

definition sample_repl :: repl_server where
  "sample_repl = net_server.extend sample_server
     (repl_server.fields None (Some [0, 0, 0, 0]) 4 0 0 1 0 0 [97] [98] (- 1)
        [client.extend (sample_client\<lparr>cbuf := [], reply := [], reply_bytes := 0, sentlen := 0\<rparr>) (repl_client.fields 0 0 True)] 0 0 0)"

lemma sample_repl_ok: "backlog_ok sample_repl []" "list_all client_ok (slaves sample_repl)" "masterhost sample_repl = None"
  "slaveseldb sample_repl = 0"
  by (simp_all add: sample_repl_def backlog_ok_def ring_ok_def net_server.defs repl_server.defs client.defs repl_client.defs
      client_ok_def sample_client_def sample_server_def)

theorem replicationFeedSlaves_consistent_witness:
  "\<exists>s'. replicationFeedSlaves (\<lambda>n. n) 0 [StrObj [80], IntObj 5] sample_repl = Some s' \<and>
     master_repl_offset s' = 18 \<and>
     backlog_ok s' [42, 50, 13, 10, 36, 49, 13, 10, 80, 13, 10, 36, 49, 13, 10, 53, 13, 10]"
proof -
  have d: "show_int 2 = [50]" "show_int 1 = [49]" "show_int 5 = [53]" by (simp_all add: show_int_def dec.simps digit_char_def)
  have "resp_command (map robj_bytes [StrObj [80], IntObj 5]) =
      [42, 50, 13, 10, 36, 49, 13, 10, 80, 13, 10, 36, 49, 13, 10, 53, 13, 10]"
    by (simp add: resp_command_def resp_bulk_def robj_bytes_def d)
  moreover have "list_all robj_ok [StrObj [80], IntObj 5]" "in_sint 32 0" by (simp_all add: robj_ok_def in_sint_def)
  moreover have "master_repl_offset sample_repl = 0" by (simp add: sample_repl_def net_server.defs repl_server.defs)
  ultimately show ?thesis
    using replicationFeedSlaves_consistent [of "\<lambda>n. n" sample_repl "[]" "[StrObj [80], IntObj 5]" 0] sample_repl_ok
    by auto
qed

section \<open>Partial resynchronisation sends the missing bytes\<close>

lemma backlog_loop_spec:
  assumes us: "\<And>n. n \<le> usable n" and ok: "client_ok (snd sc)" and j: "0 \<le> j" "j < int (length b)"
    and len: "0 \<le> len" "len \<le> int (length b)" and sz: "sz = int (length b)"
  shows "\<exists>sc'. backlog_loop usable b sz j len sc = Some sc' \<and> client_ok (snd sc') \<and>
    cid (snd sc') = cid (snd sc) \<and> replstate (snd sc') = replstate (snd sc) \<and> accepts (snd sc') = accepts (snd sc) \<and>
    net_server.more (fst sc') = net_server.more (fst sc) \<and>
    pending (snd sc') = pending (snd sc) @ (if accepts (snd sc) then take (nat len) (drop (nat j) b @ b) else [])"
proof -
  have one: "\<exists>sc'. backlog_loop usable b sz k n sc = Some sc' \<and> client_ok (snd sc') \<and>
    cid (snd sc') = cid (snd sc) \<and> replstate (snd sc') = replstate (snd sc) \<and> accepts (snd sc') = accepts (snd sc) \<and>
    net_server.more (fst sc') = net_server.more (fst sc) \<and>
    pending (snd sc') = pending (snd sc) @ (if accepts (snd sc) then take (nat n) (drop (nat k) b) else [])"
    if "client_ok (snd sc)" "0 \<le> k" "0 \<le> n" "k + n \<le> sz" for k n sc
  proof (cases "n = 0")
    case True
    then show ?thesis using that by (simp add: backlog_loop.simps)
  next
    case False
    let ?sc = "addReplyString usable (buf_read (nat k) (nat n) b) sc"
    have "backlog_loop usable b sz k n sc = Some ?sc"
      using False that sz
      by (subst backlog_loop.simps) (simp add: Let_def addReplySds_eq backlog_loop.simps [of _ _ _ 0 0])
    then show ?thesis using addReplyString_spec [OF that(1) us, of "buf_read (nat k) (nat n) b"] by (simp add: buf_read_def)
  qed
  show ?thesis
  proof (cases "j + len \<le> sz")
    case True
    then have eq: "take (nat len) (drop (nat j) b @ b) = take (nat len) (drop (nat j) b)" using j len sz by simp
    show ?thesis unfolding eq by (rule one [OF ok j(1) len(1) True])
  next
    case False
    let ?n = "sz - j" let ?sc = "addReplyString usable (buf_read (nat j) (nat ?n) b) sc"
    note a = addReplyString_spec [OF ok us, of "buf_read (nat j) (nat ?n) b"]
    have l: "backlog_loop usable b sz j len sc = backlog_loop usable b sz 0 (len - ?n) ?sc"
      using False j len sz by (subst backlog_loop.simps) (auto simp: Let_def addReplySds_eq)
    have t: "take (nat len) (drop (nat j) b @ b) = buf_read (nat j) (nat ?n) b @ take (nat (len - ?n)) (drop (nat 0) b)"
      using False j len sz by (simp add: buf_read_def nat_diff_distrib')
    have "0 \<le> len - ?n" "0 + (len - ?n) \<le> sz" using False j len sz by linarith+
    from one [OF conjunct1 [OF a] order_refl this] show ?thesis unfolding l t using a by (auto simp del: split_paired_Ex)
  qed
qed

text \<open>The bytes from the read position to the write position are the end of the history.\<close>

lemma ring_suffix:
  assumes ok: "ring_ok sz b H" and n: "n \<le> length H" "n \<le> sz"
  shows "take n (drop ((length H - n) mod sz) b @ b) = drop (length H - n) H"
proof (rule nth_equalityI)
  have sz: "0 < sz" "length b = sz" using ok by (simp_all add: ring_ok_def)
  let ?j = "(length H - n) mod sz"
  have j: "?j < sz" using sz by simp
  show "length (take n (drop ?j b @ b)) = length (drop (length H - n) H)" using n sz j by simp
  fix i
  assume "i < length (take n (drop ?j b @ b))"
  then have i: "i < n" by simp
  have m: "(length H - n + i) mod sz = (if ?j + i < sz then ?j + i else ?j + i - sz)"
  proof -
    have "(length H - n + i) mod sz = (?j + i) mod sz" by (simp add: mod_add_left_eq)
    moreover have "?j + i < sz + sz" using j i n by linarith
    ultimately show ?thesis by (cases "?j + i < sz") (simp_all add: le_mod_geq)
  qed
  have "b ! ((length H - n + i) mod sz) = H ! (length H - n + i)" using ok i n by (simp add: ring_ok_def)
  moreover have "take n (drop ?j b @ b) ! i = b ! ((length H - n + i) mod sz)"
  proof (cases "?j + i < sz")
    case True
    then have "i < sz - ?j" by linarith
    then show ?thesis unfolding m using True i sz by (simp add: nth_append)
  next
    case False
    then have "i - (sz - ?j) = ?j + i - sz" "\<not> i < sz - ?j" "?j + i - sz < n - (sz - ?j)" using j i by linarith+
    then show ?thesis unfolding m using i sz False by (simp add: nth_append)
  qed
  ultimately show "take n (drop ?j b @ b) ! i = drop (length H - n) H ! i" using n by simp
qed


lemma addReplyReplicationBacklog_spec:
  assumes us: "\<And>n. n \<le> usable n" and bl: "backlog_ok (fst sc) H" and ok: "client_ok (snd sc)"
    and off: "repl_backlog_off (fst sc) \<le> off" "off \<le> repl_backlog_off (fst sc) + int (repl_backlog_histlen (fst sc))"
  defines "n \<equiv> nat (master_repl_offset (fst sc) + 1 - off)"
  shows "n \<le> length H \<and> (\<exists>sc'. addReplyReplicationBacklog usable off sc = Some (sc', int n) \<and> client_ok (snd sc') \<and>
    cid (snd sc') = cid (snd sc) \<and> replstate (snd sc') = replstate (snd sc) \<and> accepts (snd sc') = accepts (snd sc) \<and>
    net_server.more (fst sc') = net_server.more (fst sc) \<and>
    pending (snd sc') = pending (snd sc) @ (if accepts (snd sc) then drop (length H - n) H else []))"
proof -
  define s where "s = fst sc"
  define sz hl where "sz = repl_backlog_size s" and "hl = repl_backlog_histlen s"
  obtain b where b: "repl_backlog s = Some b" "ring_ok sz b H" "repl_backlog_idx s = length H mod sz" "hl = min (length H) sz"
    "repl_backlog_off s = master_repl_offset s - int hl + 1"
    using bl by (auto simp: backlog_ok_def s_def sz_def hl_def)
  have sz: "0 < sz" "length b = sz" using b(2) by (simp_all add: ring_ok_def)
  have n: "n \<le> hl" "int hl - (off - repl_backlog_off s) = int n" "off - repl_backlog_off s = int (hl - n)"
    using off b(5) by (auto simp: n_def s_def hl_def)
  then have nH: "n \<le> length H" "n \<le> sz" using b(4) by auto
  show ?thesis
  proof (cases "hl = 0")
    case True
    then show ?thesis using n nH ok by (simp add: addReplyReplicationBacklog_def Let_def s_def hl_def del: split_paired_Ex)
  next
    case False
    let ?j = "(int (repl_backlog_idx s) + (int sz - int hl)) smod int sz"
    have p: "(int a) smod int sz = int (a mod sz)" for a by (simp add: signed_modulo_int_def zmod_int sgn_if)
    have "int (repl_backlog_idx s) + (int sz - int hl) = int (length H mod sz + (sz - hl))" using b(3,4) by (simp add: of_nat_diff)
    then have "?j = int ((length H mod sz + (sz - hl)) mod sz)" by (simp only: p)
    then have "(?j + int (hl - n)) smod int sz = int (((length H mod sz + (sz - hl)) mod sz + (hl - n)) mod sz)"
      by (simp only: of_nat_add [symmetric] p)
    also have "((length H mod sz + (sz - hl)) mod sz + (hl - n)) mod sz = (length H + (sz - hl) + (hl - n)) mod sz"
      by (simp only: mod_add_left_eq add.assoc)
    also have "length H + (sz - hl) + (hl - n) = (length H - n) + sz" using n(1) nH b(4) by (simp add: min_def split: if_splits)
    finally have j: "(?j + int (hl - n)) smod int sz = int ((length H - n) mod sz)" by simp
    have "\<exists>sc'. backlog_loop usable b (int sz) (int ((length H - n) mod sz)) (int n) sc = Some sc' \<and> client_ok (snd sc') \<and>
      cid (snd sc') = cid (snd sc) \<and> replstate (snd sc') = replstate (snd sc) \<and> accepts (snd sc') = accepts (snd sc) \<and>
      net_server.more (fst sc') = net_server.more (fst sc) \<and>
      pending (snd sc') = pending (snd sc) @ (if accepts (snd sc) then drop (length H - n) H else [])"
    proof -
      have "0 \<le> int ((length H - n) mod sz)" "int ((length H - n) mod sz) < int (length b)" "0 \<le> int n"
        "int n \<le> int (length b)" "int sz = int (length b)" using sz nH by simp_all
      from backlog_loop_spec [OF us ok this] show ?thesis by (simp only: nat_int ring_suffix [OF b(2) nH])
    qed
    moreover have "addReplyReplicationBacklog usable off sc =
        backlog_loop usable b (int sz) (int ((length H - n) mod sz)) (int n) sc \<bind> (\<lambda>sc'. Some (sc', int n))"
      using False b(1) n j unfolding addReplyReplicationBacklog_def s_def [symmetric] sz_def [symmetric] hl_def [symmetric] Let_def
      by simp
    ultimately show ?thesis using nH by (auto simp del: split_paired_Ex)
  qed
qed

text \<open>
  C5. Let \<open>W\<close> be the whole replication stream so far, of which the backlog holds the end.
  A partial resynchronisation from offset \<open>o\<close> is accepted exactly when the replication ID is
  one of the two valid ones (the second only up to its offset) and the bytes from \<open>o\<close> on are
  still in the backlog.  Then the replica is queued exactly the bytes of \<open>W\<close> from offset
  \<open>o\<close> on, across the wrap of the circular buffer: with the bytes it already has it ends up
  with the whole stream.  The request never reads outside the buffer.
\<close>

theorem partial_resynchronization_complete:
  assumes us: "\<And>n. n \<le> usable n" and bl: "backlog_ok s H" and W: "W = W0 @ H" "master_repl_offset s = int (length W)"
    and c: "client_ok c" "accepts c" and off: "getLongLongFromObject arg = Some off"
  shows "\<exists>s' c' wire res. masterTryPartialResynchronization usable True rid arg s c = Some (s', c', wire, res) \<and>
    (res \<longleftrightarrow> (strcasecmp_eq rid (replid s) \<or> strcasecmp_eq rid (replid2 s) \<and> off \<le> second_replid_offset s) \<and>
      int (length W) - int (repl_backlog_histlen s) < off \<and> off \<le> int (length W) + 1) \<and>
    (res \<longrightarrow> client_ok c' \<and> replstate c' = SLAVE_STATE_ONLINE \<and> slaves s' = slaves s @ [c'] \<and>
      pending c' = pending c @ drop (nat (off - 1)) W)"
proof -
  let ?id = "strcasecmp_eq rid (replid s) \<or> strcasecmp_eq rid (replid2 s) \<and> off \<le> second_replid_offset s"
  have w: "repl_backlog s \<noteq> None" "repl_backlog_off s = int (length W) - int (repl_backlog_histlen s) + 1"
    using bl W by (auto simp: backlog_ok_def)
  show ?thesis
  proof (cases "?id \<and> repl_backlog_off s \<le> off \<and> off \<le> repl_backlog_off s + int (repl_backlog_histlen s)")
    case False
    have "masterTryPartialResynchronization usable True rid arg s c = Some (s, c, [], False)"
    proof (cases ?id)
      case True
      with False show ?thesis using off by (auto simp: masterTryPartialResynchronization_def getLongLongFromObjectOrReply_def)
    next
      case False
      then show ?thesis using off by (auto simp: masterTryPartialResynchronization_def getLongLongFromObjectOrReply_def)
    qed
    then show ?thesis using False w by auto
  next
    case True
    define c1 where "c1 = c\<lparr>flags := insert CLIENT_SLAVE (flags c), replstate := SLAVE_STATE_ONLINE,
      repl_ack_time := unixtime s, repl_put_online_on_ack := False\<rparr>"
    have c1: "client_ok c1" "accepts c1" "pending c1 = pending c" "replstate c1 = SLAVE_STATE_ONLINE"
      using c by (auto simp: c1_def client_ok_def accepts_def pending_def queued_def)
    have r: "repl_backlog_off (fst (s, c1)) \<le> off" "off \<le> repl_backlog_off (fst (s, c1)) + int (repl_backlog_histlen (fst (s, c1)))"
      using True by simp_all
    from addReplyReplicationBacklog_spec [OF us, of "(s, c1)" H off] bl c1(1) r
    obtain s2 c2 where 2: "addReplyReplicationBacklog usable off (s, c1) = Some ((s2, c2), int (nat (int (length W) + 1 - off)))"
      "client_ok c2" "replstate c2 = SLAVE_STATE_ONLINE" "net_server.more s2 = net_server.more s"
      "nat (int (length W) + 1 - off) \<le> length H"
      "pending c2 = pending c @ drop (length H - nat (int (length W) + 1 - off)) H"
      using c1 W(2) by auto
    have "drop (nat (off - 1)) W = drop (length H - nat (int (length W) + 1 - off)) H"
    proof -
      have "nat (off - 1) = length W0 + (length H - nat (int (length W) + 1 - off))" using 2(5) True w(2) W by auto
      then show ?thesis using W(1) by simp
    qed
    moreover have "slaves (refreshGoodSlavesCount (s2\<lparr>slaves := slaves s2 @ [c2]\<rparr>)) = slaves s @ [c2]"
      using same_more(6) [OF 2(4)] by (simp add: refreshGoodSlavesCount_def)
    moreover have "\<exists>line. masterTryPartialResynchronization usable True rid arg s c =
        Some (refreshGoodSlavesCount (s2\<lparr>slaves := slaves s2 @ [c2]\<rparr>), c2, line, True)"
      using True off w 2(1) unfolding c1_def
      by (auto simp: masterTryPartialResynchronization_def getLongLongFromObjectOrReply_def Let_def)
    ultimately show ?thesis using True w 2 by auto
  qed
qed


definition sample_wrapped :: repl_server where
  "sample_wrapped = sample_repl\<lparr>repl_backlog := Some [5, 6, 3, 4], repl_backlog_histlen := 4, repl_backlog_idx := 2,
     repl_backlog_off := 4, master_repl_offset := 7\<rparr>"

lemma sample_wrapped_ok: "backlog_ok sample_wrapped [1, 2, 3, 4, 5, 6]"
proof -
  have six: "k < 6 \<longleftrightarrow> k = 0 \<or> k = 1 \<or> k = 2 \<or> k = 3 \<or> k = 4 \<or> k = 5" for k :: nat by auto
  have "[5, 6, 3, 4] ! (k mod 4) = [1, 2, 3, 4, 5, 6 :: byte] ! k" if "k < 6" "6 \<le> k + 4" for k
    using that unfolding six by (elim disjE) simp_all
  then have "ring_ok 4 [5, 6, 3, 4] [1, 2, 3, 4, 5, 6]" by (simp add: ring_ok_def)
  then show ?thesis
    by (simp add: sample_wrapped_def sample_repl_def backlog_ok_def net_server.defs repl_server.defs)
qed

theorem partial_resynchronization_complete_witness:
  "\<exists>s' c' wire. masterTryPartialResynchronization (\<lambda>n. n) True [65] (StrObj [53]) sample_wrapped (hd (slaves sample_repl)) =
     Some (s', c', wire, True) \<and> pending c' = [4, 5, 6]"
proof -
  define c where "c = hd (slaves sample_repl)"
  have c: "client_ok c" "accepts c" "pending c = []"
    using sample_repl_ok(2)
    by (simp_all add: c_def sample_repl_def net_server.defs repl_server.defs client.defs repl_client.defs accepts_def
        sample_client_def pending_def queued_def)
  have f: "master_repl_offset sample_wrapped = 7" "replid sample_wrapped = [97]" "repl_backlog_histlen sample_wrapped = 4"
    by (simp_all add: sample_wrapped_def sample_repl_def net_server.defs repl_server.defs)
  have g: "getLongLongFromObject (StrObj [53]) = Some 5"
    by (simp add: getLongLongFromObject_def string2ll_def LLONG_MAX_def)
  have e: "strcasecmp_eq [65] [97]" by (simp add: strcasecmp_eq_def cstr_def tolower_def)
  show ?thesis
    using partial_resynchronization_complete [of "\<lambda>n. n" sample_wrapped "[1, 2, 3, 4, 5, 6]" "[9, 1, 2, 3, 4, 5, 6]" "[9]" c
        "StrObj [53]" 5 "[65]"] sample_wrapped_ok c f g e
    by (auto simp: c_def)
qed

end
