(* ===== verification/Sds.thy ===== *)
theory Sds
  imports Util Glob
begin

text \<open>
  \<open>sds.c\<close> and \<open>sds.h\<close>: dynamic strings.  A string is the type in its flags byte, the
  length and allocation stored in its header, and the buffer after the header (with the byte
  for the terminator).  Header fields are truncated to the width of the type when they are
  set.  The allocator aborts the server when memory is exhausted, so it never returns NULL.
\<close>

section \<open>Headers\<close>

datatype sds_type = SDS_TYPE_5 | SDS_TYPE_8 | SDS_TYPE_16 | SDS_TYPE_32 | SDS_TYPE_64

record sds =
  sds_flags :: sds_type
  hdr_len :: nat
  hdr_alloc :: nat
  sds_buf :: bytes

definition SDS_MAX_PREALLOC :: nat where "SDS_MAX_PREALLOC = 1024 * 1024"

definition type_bits :: "sds_type \<Rightarrow> nat" where
  "type_bits t = (case t of SDS_TYPE_5 \<Rightarrow> 5 | SDS_TYPE_8 \<Rightarrow> 8 | SDS_TYPE_16 \<Rightarrow> 16 | SDS_TYPE_32 \<Rightarrow> 32 | SDS_TYPE_64 \<Rightarrow> 64)"

definition sdslen :: "sds \<Rightarrow> nat" where
  "sdslen s = hdr_len s"

definition sdsavail :: "sds \<Rightarrow> nat" where
  "sdsavail s = (if sds_flags s = SDS_TYPE_5 then 0 else hdr_alloc s - hdr_len s)"

definition sdssetlen :: "sds \<Rightarrow> nat \<Rightarrow> sds" where
  "sdssetlen s newlen = s\<lparr>hdr_len := newlen mod 2 ^ type_bits (sds_flags s)\<rparr>"

definition sdsinclen :: "sds \<Rightarrow> nat \<Rightarrow> sds" where
  "sdsinclen s inc = s\<lparr>hdr_len := (hdr_len s + inc) mod 2 ^ type_bits (sds_flags s)\<rparr>"

definition sdsalloc :: "sds \<Rightarrow> nat" where
  "sdsalloc s = (if sds_flags s = SDS_TYPE_5 then hdr_len s else hdr_alloc s)"

definition sdssetalloc :: "sds \<Rightarrow> nat \<Rightarrow> sds" where
  "sdssetalloc s newlen =
     (if sds_flags s = SDS_TYPE_5 then s else s\<lparr>hdr_alloc := newlen mod 2 ^ type_bits (sds_flags s)\<rparr>)"

definition sdsHdrSize :: "sds_type \<Rightarrow> nat" where
  "sdsHdrSize t = (case t of SDS_TYPE_5 \<Rightarrow> 1 | SDS_TYPE_8 \<Rightarrow> 3 | SDS_TYPE_16 \<Rightarrow> 5 | SDS_TYPE_32 \<Rightarrow> 9 | SDS_TYPE_64 \<Rightarrow> 17)"

definition sdsReqType :: "nat \<Rightarrow> sds_type" where
  "sdsReqType string_size =
     (if string_size < 2 ^ 5 then SDS_TYPE_5
      else if string_size < 2 ^ 8 then SDS_TYPE_8
      else if string_size < 2 ^ 16 then SDS_TYPE_16
      else if string_size < 2 ^ 32 then SDS_TYPE_32
      else SDS_TYPE_64)"

section \<open>Creation\<close>

text \<open>The source of the initial bytes: the NULL pointer, the \<open>SDS_NOINIT\<close> marker, or memory.\<close>

datatype sds_init = InitNull | SDS_NOINIT | Init bytes

definition sdsnewlen :: "(nat \<Rightarrow> byte) \<Rightarrow> sds_init \<Rightarrow> nat \<Rightarrow> sds" where
  "sdsnewlen junk init initlen =
     (let type = sdsReqType initlen;
          type = (if type = SDS_TYPE_5 \<and> initlen = 0 then SDS_TYPE_8 else type);
          mem = (if init = InitNull then replicate (initlen + 1) 0 else map junk [0..<initlen + 1]);
          mem = (case init of Init bs \<Rightarrow> if initlen \<noteq> 0 then buf_write 0 (take initlen bs) mem else mem | _ \<Rightarrow> mem)
      in \<lparr>sds_flags = type, hdr_len = initlen mod 2 ^ type_bits type, hdr_alloc = initlen mod 2 ^ type_bits type,
          sds_buf = mem[initlen := 0]\<rparr>)"

definition sdsempty :: "(nat \<Rightarrow> byte) \<Rightarrow> sds" where
  "sdsempty junk = sdsnewlen junk (Init []) 0"

definition sdsnew :: "(nat \<Rightarrow> byte) \<Rightarrow> bytes option \<Rightarrow> sds" where
  "sdsnew junk init =
     (case init of
        None \<Rightarrow> sdsnewlen junk InitNull 0
      | Some c \<Rightarrow> sdsnewlen junk (Init c) (length (cstr c)))"

definition sdsdup :: "(nat \<Rightarrow> byte) \<Rightarrow> sds \<Rightarrow> sds" where
  "sdsdup junk s = sdsnewlen junk (Init (sds_buf s)) (sdslen s)"

definition sdsupdatelen :: "sds \<Rightarrow> sds" where
  "sdsupdatelen s = sdssetlen s (length (cstr (sds_buf s)))"

definition sdsclear :: "sds \<Rightarrow> sds" where
  "sdsclear s = (let s = sdssetlen s 0 in s\<lparr>sds_buf := (sds_buf s)[0 := 0]\<rparr>)"

section \<open>Room\<close>

text \<open>\<open>size_t\<close> arithmetic wraps.\<close>

definition sdsMakeRoomFor :: "(nat \<Rightarrow> byte) \<Rightarrow> sds \<Rightarrow> nat \<Rightarrow> sds" where
  "sdsMakeRoomFor junk s addlen =
     (let avail = sdsavail s in
      if avail \<ge> addlen then s
      else
        (let len = sdslen s;
             newlen = (len + addlen) mod 2 ^ 64;
             newlen = (if newlen < SDS_MAX_PREALLOC then newlen * 2 else (newlen + SDS_MAX_PREALLOC) mod 2 ^ 64);
             type = sdsReqType newlen;
             type = (if type = SDS_TYPE_5 then SDS_TYPE_8 else type);
             s = (if sds_flags s = type then s\<lparr>sds_buf := realloc_buf junk (newlen + 1) (sds_buf s)\<rparr>
                  else
                    (let newsh = buf_write 0 (take (len + 1) (sds_buf s)) (map junk [0..<newlen + 1])
                     in sdssetlen (s\<lparr>sds_flags := type, sds_buf := newsh\<rparr>) len))
         in sdssetalloc s newlen))"

definition type_rank :: "sds_type \<Rightarrow> nat" where
  "type_rank t = (case t of SDS_TYPE_5 \<Rightarrow> 0 | SDS_TYPE_8 \<Rightarrow> 1 | SDS_TYPE_16 \<Rightarrow> 2 | SDS_TYPE_32 \<Rightarrow> 3 | SDS_TYPE_64 \<Rightarrow> 4)"

definition sdsRemoveFreeSpace :: "(nat \<Rightarrow> byte) \<Rightarrow> sds \<Rightarrow> sds" where
  "sdsRemoveFreeSpace junk s =
     (let len = sdslen s; avail = sdsavail s in
      if avail = 0 then s
      else
        (let type = sdsReqType len;
             s = (if sds_flags s = type \<or> type_rank type > type_rank SDS_TYPE_8
                  then s\<lparr>sds_buf := realloc_buf junk (len + 1) (sds_buf s)\<rparr>
                  else
                    (let newsh = buf_write 0 (take (len + 1) (sds_buf s)) (map junk [0..<len + 1])
                     in sdssetlen (s\<lparr>sds_flags := type, sds_buf := newsh\<rparr>) len))
         in sdssetalloc s len))"

definition sdsAllocSize :: "sds \<Rightarrow> nat" where
  "sdsAllocSize s = sdsHdrSize (sds_flags s) + sdsalloc s + 1"

text \<open>\<open>None\<close> is the failed assertion.  Its casts to \<open>unsigned int\<close> truncate to 32 bits.\<close>

definition sdsIncrLen :: "sds \<Rightarrow> int \<Rightarrow> sds option" where
  "sdsIncrLen s incr =
     (let oldlen = int (hdr_len s);
          free = int (hdr_alloc s) - int (hdr_len s);
          dec = (- incr) mod 2 ^ 32;
          ok = (case sds_flags s of
                  SDS_TYPE_5 \<Rightarrow> (incr > 0 \<and> oldlen + incr < 32) \<or> (incr < 0 \<and> oldlen \<ge> dec)
                | SDS_TYPE_32 \<Rightarrow> (incr \<ge> 0 \<and> free \<ge> incr mod 2 ^ 32) \<or> (incr < 0 \<and> oldlen \<ge> dec)
                | SDS_TYPE_64 \<Rightarrow> (incr \<ge> 0 \<and> free \<ge> incr) \<or> (incr < 0 \<and> oldlen \<ge> - incr)
                | _ \<Rightarrow> (incr \<ge> 0 \<and> free \<ge> incr) \<or> (incr < 0 \<and> oldlen \<ge> dec))
      in if \<not> ok then None
         else
           (let len = nat ((oldlen + incr) mod 2 ^ type_bits (sds_flags s))
            in Some (s\<lparr>hdr_len := len, sds_buf := (sds_buf s)[len := 0]\<rparr>)))"

section \<open>Appending and copying\<close>

definition sdsgrowzero :: "(nat \<Rightarrow> byte) \<Rightarrow> sds \<Rightarrow> nat \<Rightarrow> sds" where
  "sdsgrowzero junk s len =
     (let curlen = sdslen s in
      if len \<le> curlen then s
      else
        (let s = sdsMakeRoomFor junk s (len - curlen);
             s = s\<lparr>sds_buf := buf_write curlen (replicate (len - curlen + 1) 0) (sds_buf s)\<rparr>
         in sdssetlen s len))"

definition sdscatlen :: "(nat \<Rightarrow> byte) \<Rightarrow> sds \<Rightarrow> bytes \<Rightarrow> sds" where
  "sdscatlen junk s t =
     (let curlen = sdslen s;
          s = sdsMakeRoomFor junk s (length t);
          s = s\<lparr>sds_buf := buf_write curlen t (sds_buf s)\<rparr>;
          s = sdssetlen s (curlen + length t)
      in s\<lparr>sds_buf := (sds_buf s)[curlen + length t := 0]\<rparr>)"

definition sdscat :: "(nat \<Rightarrow> byte) \<Rightarrow> sds \<Rightarrow> bytes \<Rightarrow> sds" where
  "sdscat junk s t = sdscatlen junk s (cstr t)"

definition sdscatsds :: "(nat \<Rightarrow> byte) \<Rightarrow> sds \<Rightarrow> sds \<Rightarrow> sds" where
  "sdscatsds junk s t = sdscatlen junk s (take (sdslen t) (sds_buf t))"

definition sdscpylen :: "(nat \<Rightarrow> byte) \<Rightarrow> sds \<Rightarrow> bytes \<Rightarrow> sds" where
  "sdscpylen junk s t =
     (let s = (if sdsalloc s < length t then sdsMakeRoomFor junk s (length t - sdslen s) else s);
          s = s\<lparr>sds_buf := (buf_write 0 t (sds_buf s))[length t := 0]\<rparr>
      in sdssetlen s (length t))"

definition sdscpy :: "(nat \<Rightarrow> byte) \<Rightarrow> sds \<Rightarrow> bytes \<Rightarrow> sds" where
  "sdscpy junk s t = sdscpylen junk s (cstr t)"

section \<open>Numbers\<close>

text \<open>The digit loops write the digits in reverse order.\<close>

fun ull_digits :: "nat \<Rightarrow> bytes" where
  "ull_digits v = digit_char (v mod 10) # (if v div 10 \<noteq> 0 then ull_digits (v div 10) else [])"

declare ull_digits.simps [simp del]

text \<open>
  The in-place reversal: \<open>i\<close> and \<open>j\<close> are the two pointers moving towards each other.
\<close>

function reverse_loop :: "bytes \<Rightarrow> nat \<Rightarrow> nat \<Rightarrow> bytes" where
  "reverse_loop b i j =
     (if i < j then reverse_loop (b[i := b ! j, j := b ! i]) (i + 1) (j - 1) else b)"
  by pat_completeness auto
termination by (relation "measure (\<lambda>(b, i, j). j - i)") auto

declare reverse_loop.simps [simp del]

definition sdsll2str :: "int \<Rightarrow> bytes" where
  "sdsll2str value =
     (let v = to_uint 64 (if value < 0 then - value else value);
          b = ull_digits v @ (if value < 0 then [45] else [])
      in reverse_loop b 0 (length b - 1))"

definition sdsull2str :: "nat \<Rightarrow> bytes" where
  "sdsull2str v = (let b = ull_digits v in reverse_loop b 0 (length b - 1))"

definition sdsfromlonglong :: "(nat \<Rightarrow> byte) \<Rightarrow> int \<Rightarrow> sds" where
  "sdsfromlonglong junk value = (let b = sdsll2str value in sdsnewlen junk (Init b) (length b))"

section \<open>Trimming and slicing\<close>

text \<open>
  \<open>strchr(cset, c)\<close> also finds the terminator of \<open>cset\<close>, so a NUL byte is always found.
\<close>

definition strchr_found :: "bytes \<Rightarrow> byte \<Rightarrow> bool" where
  "strchr_found cset c \<longleftrightarrow> c \<in> set (cstr cset) \<or> c = 0"

function trim_left :: "bytes \<Rightarrow> bytes \<Rightarrow> int \<Rightarrow> int \<Rightarrow> int" where
  "trim_left cset b sp end' =
     (if sp \<le> end' \<and> 0 \<le> sp \<and> strchr_found cset (b ! nat sp) then trim_left cset b (sp + 1) end' else sp)"
  by pat_completeness auto
termination by (relation "measure (\<lambda>(cset, b, sp, end'). nat (end' + 1 - sp))") auto

function trim_right :: "bytes \<Rightarrow> bytes \<Rightarrow> int \<Rightarrow> int \<Rightarrow> int" where
  "trim_right cset b ep sp =
     (if ep > sp \<and> strchr_found cset (b ! nat ep) then trim_right cset b (ep - 1) sp else ep)"
  by pat_completeness auto
termination by (relation "measure (\<lambda>(cset, b, ep, sp). nat (ep - sp))") auto

declare trim_left.simps [simp del] trim_right.simps [simp del]

definition sdstrim :: "sds \<Rightarrow> bytes \<Rightarrow> sds" where
  "sdstrim s cset =
     (let end' = int (sdslen s) - 1;
          sp = trim_left cset (sds_buf s) 0 end';
          ep = trim_right cset (sds_buf s) end' sp;
          len = (if sp > ep then 0 else nat (ep - sp + 1));
          s = (if sp \<noteq> 0 then s\<lparr>sds_buf := memmove_buf 0 (nat sp) len (sds_buf s)\<rparr> else s);
          s = s\<lparr>sds_buf := (sds_buf s)[len := 0]\<rparr>
      in sdssetlen s len)"

definition sdsrange :: "sds \<Rightarrow> int \<Rightarrow> int \<Rightarrow> sds" where
  "sdsrange s start end' =
     (let len = int (sdslen s) in
      if len = 0 then s
      else
        (let start = (if start < 0 then (if len + start < 0 then 0 else len + start) else start);
             end' = (if end' < 0 then (if len + end' < 0 then 0 else len + end') else end');
             newlen = (if start > end' then 0 else end' - start + 1);
             (start, newlen) =
               (if newlen \<noteq> 0 then
                  (if start \<ge> len then (start, 0)
                   else if end' \<ge> len then
                     (let end' = len - 1 in (start, if start > end' then 0 else end' - start + 1))
                   else (start, newlen))
                else (0, newlen));
             s = (if start \<noteq> 0 \<and> newlen \<noteq> 0
                  then s\<lparr>sds_buf := memmove_buf 0 (nat start) (nat newlen) (sds_buf s)\<rparr> else s);
             s = s\<lparr>sds_buf := (sds_buf s)[nat newlen := 0]\<rparr>
         in sdssetlen s (nat newlen)))"

definition toupper :: "byte \<Rightarrow> byte" where
  "toupper c = (if 97 \<le> unat c \<and> unat c \<le> 122 then c - 32 else c)"

definition sdstolower :: "sds \<Rightarrow> sds" where
  "sdstolower s = s\<lparr>sds_buf := map tolower (take (sdslen s) (sds_buf s)) @ drop (sdslen s) (sds_buf s)\<rparr>"

definition sdstoupper :: "sds \<Rightarrow> sds" where
  "sdstoupper s = s\<lparr>sds_buf := map toupper (take (sdslen s) (sds_buf s)) @ drop (sdslen s) (sds_buf s)\<rparr>"

text \<open>The value of \<open>memcmp\<close> is known up to its sign: the difference at the first unequal byte.\<close>

fun memcmp :: "bytes \<Rightarrow> bytes \<Rightarrow> nat \<Rightarrow> int" where
  "memcmp (x # xs) (y # ys) (Suc n) = (if x = y then memcmp xs ys n else int (unat x) - int (unat y))"
| "memcmp _ _ _ = 0"

definition sdscmp :: "sds \<Rightarrow> sds \<Rightarrow> int" where
  "sdscmp s1 s2 =
     (let l1 = sdslen s1; l2 = sdslen s2;
          minlen = (if l1 < l2 then l1 else l2);
          cmp = memcmp (sds_buf s1) (sds_buf s2) minlen
      in if cmp = 0 then (if l1 > l2 then 1 else if l1 < l2 then -1 else 0) else cmp)"

definition sdsmapchars :: "sds \<Rightarrow> bytes \<Rightarrow> bytes \<Rightarrow> sds" where
  "sdsmapchars s from' to' =
     s\<lparr>sds_buf := map (\<lambda>c. case find (\<lambda>(f, t). c = f) (zip from' to') of Some (f, t) \<Rightarrow> t | None \<Rightarrow> c)
         (take (sdslen s) (sds_buf s)) @ drop (sdslen s) (sds_buf s)\<rparr>"

section \<open>Splitting and joining\<close>

text \<open>\<open>sdssplitlen\<close> on the \<open>len\<close> bytes of \<open>s\<close>; tokens are the contents of the new strings.\<close>

function split_loop :: "bytes \<Rightarrow> bytes \<Rightarrow> nat \<Rightarrow> nat \<Rightarrow> bytes list \<Rightarrow> bytes list" where
  "split_loop s sep start j tokens =
     (if sep \<noteq> [] \<and> int j < int (length s) - (int (length sep) - 1) then
        (if (length sep = 1 \<and> s ! j = sep ! 0) \<or> memcmp (drop j s) sep (length sep) = 0
         then split_loop s sep (j + length sep) (j + length sep) (tokens @ [buf_read start (j - start) s])
         else split_loop s sep start (j + 1) tokens)
      else tokens @ [buf_read start (length s - start) s])"
  by pat_completeness auto
termination
proof (relation "measure (\<lambda>(s, sep, start, j, tokens). length s - j)", goal_cases)
  case (2 s sep start j tokens)
  then have "0 < length sep" "int j < int (length s) - (int (length sep) - 1)" by simp_all
  then have "0 < length sep" "j < length s" by linarith+
  then show ?case by (simp del: length_greater_0_conv)
next
  case (3 s sep start j tokens)
  then have "0 < length sep" "int j < int (length s) - (int (length sep) - 1)" by simp_all
  then have "0 < length sep" "j < length s" by linarith+
  then show ?case by (simp del: length_greater_0_conv)
qed simp

declare split_loop.simps [simp del]

definition sdssplitlen :: "bytes \<Rightarrow> bytes \<Rightarrow> bytes list option" where
  "sdssplitlen s sep =
     (if length sep < 1 then None
      else if length s = 0 then Some []
      else Some (split_loop s sep 0 0 []))"

fun join_loop :: "(nat \<Rightarrow> byte) \<Rightarrow> sds \<Rightarrow> bytes list \<Rightarrow> bytes \<Rightarrow> sds" where
  "join_loop junk join [] sep = join"
| "join_loop junk join [a] sep = sdscatlen junk join a"
| "join_loop junk join (a # as) sep = join_loop junk (sdscatlen junk (sdscatlen junk join a) sep) as sep"

definition sdsjoin :: "(nat \<Rightarrow> byte) \<Rightarrow> bytes list \<Rightarrow> bytes \<Rightarrow> sds" where
  "sdsjoin junk argv sep = join_loop junk (sdsempty junk) (map cstr argv) (cstr sep)"

definition sdsjoinsds :: "(nat \<Rightarrow> byte) \<Rightarrow> sds list \<Rightarrow> bytes \<Rightarrow> sds" where
  "sdsjoinsds junk argv sep =
     join_loop junk (sdsempty junk) (map (\<lambda>a. take (sdslen a) (sds_buf a)) argv) sep"

section \<open>Escaped representations\<close>

definition isprint :: "byte \<Rightarrow> bool" where
  "isprint c \<longleftrightarrow> 32 \<le> unat c \<and> unat c \<le> 126"

definition isspace :: "byte \<Rightarrow> bool" where
  "isspace c \<longleftrightarrow> unat c = 32 \<or> (9 \<le> unat c \<and> unat c \<le> 13)"

text \<open>One digit as \<open>%x\<close> prints it.\<close>

definition hex_char :: "nat \<Rightarrow> byte" where
  "hex_char d = (if d < 10 then word_of_nat (48 + d) else word_of_nat (87 + d))"

definition repr_char :: "byte \<Rightarrow> bytes" where
  "repr_char c =
     (if c = 92 \<or> c = 34 then [92, c]
      else if c = 10 then [92, 110]
      else if c = 13 then [92, 114]
      else if c = 9 then [92, 116]
      else if c = 7 then [92, 97]
      else if c = 8 then [92, 98]
      else if isprint c then [c]
      else [92, 120, hex_char (unat c div 16), hex_char (unat c mod 16)])"

definition sdscatrepr :: "(nat \<Rightarrow> byte) \<Rightarrow> sds \<Rightarrow> bytes \<Rightarrow> sds" where
  "sdscatrepr junk s p =
     sdscatlen junk (fold (\<lambda>c s. sdscatlen junk s (repr_char c)) p (sdscatlen junk s [34])) [34]"

definition is_hex_digit :: "byte \<Rightarrow> bool" where
  "is_hex_digit c \<longleftrightarrow> (48 \<le> unat c \<and> unat c \<le> 57) \<or> (97 \<le> unat c \<and> unat c \<le> 102) \<or> (65 \<le> unat c \<and> unat c \<le> 70)"

definition hex_digit_to_int :: "byte \<Rightarrow> nat" where
  "hex_digit_to_int c =
     (if 48 \<le> unat c \<and> unat c \<le> 57 then unat c - 48
      else if 97 \<le> unat c \<and> unat c \<le> 102 then unat c - 87
      else if 65 \<le> unat c \<and> unat c \<le> 70 then unat c - 55
      else 0)"

definition unescape :: "byte \<Rightarrow> byte" where
  "unescape c =
     (if c = 110 then 10 else if c = 114 then 13 else if c = 116 then 9
      else if c = 98 then 8 else if c = 97 then 7 else c)"

datatype quote_mode = Plain | InQuotes | InSingle

text \<open>
  The token loop of \<open>sdssplitargs\<close>, on a string without NUL bytes: \<open>None\<close> is the jump to
  \<open>err\<close>, otherwise the token and the rest of the line.
\<close>

function split_token :: "quote_mode \<Rightarrow> bytes \<Rightarrow> bytes \<Rightarrow> (bytes \<times> bytes) option" where
  "split_token mode p current =
     (case mode of
        InQuotes \<Rightarrow>
          if pat_at p 0 = 92 \<and> pat_at p 1 = 120 \<and> is_hex_digit (pat_at p 2) \<and> is_hex_digit (pat_at p 3) then
            split_token InQuotes (drop 4 p)
              (current @ [word_of_nat (hex_digit_to_int (pat_at p 2) * 16 + hex_digit_to_int (pat_at p 3))])
          else if pat_at p 0 = 92 \<and> pat_at p 1 \<noteq> 0 then
            split_token InQuotes (drop 2 p) (current @ [unescape (pat_at p 1)])
          else if pat_at p 0 = 34 then
            (if pat_at p 1 \<noteq> 0 \<and> \<not> isspace (pat_at p 1) then None else Some (current, drop 1 p))
          else if pat_at p 0 = 0 then None
          else split_token InQuotes (drop 1 p) (current @ [pat_at p 0])
      | InSingle \<Rightarrow>
          if pat_at p 0 = 92 \<and> pat_at p 1 = 39 then split_token InSingle (drop 2 p) (current @ [39])
          else if pat_at p 0 = 39 then
            (if pat_at p 1 \<noteq> 0 \<and> \<not> isspace (pat_at p 1) then None else Some (current, drop 1 p))
          else if pat_at p 0 = 0 then None
          else split_token InSingle (drop 1 p) (current @ [pat_at p 0])
      | Plain \<Rightarrow>
          if pat_at p 0 \<in> {32, 10, 13, 9, 0} then Some (current, drop 1 p)
          else if pat_at p 0 = 34 then split_token InQuotes (drop 1 p) current
          else if pat_at p 0 = 39 then split_token InSingle (drop 1 p) current
          else split_token Plain (drop 1 p) (current @ [pat_at p 0]))"
  by pat_completeness auto
termination
  by (relation "measure (\<lambda>(mode, p, current). length p)") (auto simp: pat_at_def split: if_splits)

declare split_token.simps [simp del]

lemma split_token_length: "split_token mode p current = Some (t, rest) \<Longrightarrow> length rest \<le> length p - 1"
proof (induction mode p current rule: split_token.induct)
  case (1 mode p current)
  note r = 1(9) [unfolded split_token.simps [of mode p current]]
  show ?case using r 1(1-8) by (cases mode) (auto split: if_splits)
qed

text \<open>The list of tokens; \<open>None\<close> for unbalanced quotes or a quote followed by a non-space.\<close>

function split_args :: "bytes \<Rightarrow> bytes list \<Rightarrow> bytes list option" where
  "split_args p vector =
     (let p = dropWhile isspace p in
      if p = [] then Some vector
      else
        (case split_token Plain p [] of
           None \<Rightarrow> None
         | Some (current, rest) \<Rightarrow> split_args rest (vector @ [current])))"
  by pat_completeness auto
termination
proof (relation "measure (\<lambda>(p, vector). length p)", goal_cases)
  case (2 p vector p' tr current rest)
  then have "length rest \<le> length p' - 1" "p' \<noteq> []" by (auto dest: split_token_length)
  moreover have "length p' \<le> length p" using 2 by (simp add: length_dropWhile_le)
  ultimately show ?case by (cases p') auto
qed simp

declare split_args.simps [simp del]

definition sdssplitargs :: "bytes \<Rightarrow> bytes list option" where
  "sdssplitargs line = split_args (cstr line) []"

end
