(* ===== verification/Sds_Correct.thy ===== *)
theory Sds_Correct
  imports Sds "HOL-Library.Sublist"
begin

text \<open>
  Correctness of the dynamic strings: the header invariant and that every operation keeps it,
  the byte string an operation leaves, splitting and joining, escaping, number strings.
\<close>

section \<open>Well-formed strings\<close>

definition content :: "sds \<Rightarrow> bytes" where
  "content s = take (hdr_len s) (sds_buf s)"

definition sds_ok :: "sds \<Rightarrow> bool" where
  "sds_ok s \<longleftrightarrow> hdr_len s \<le> sdsalloc s \<and> sdsalloc s < 2 ^ type_bits (sds_flags s) \<and>
     sdsalloc s < length (sds_buf s) \<and> sds_buf s ! hdr_len s = 0"

text \<open>Enough room for sizes that fit in memory.\<close>

definition sds_room :: "sds \<Rightarrow> nat \<Rightarrow> bool" where
  "sds_room s n \<longleftrightarrow> hdr_len s + n < 2 ^ 62"

lemma type_bits_simps [simp]: "type_bits SDS_TYPE_5 = 5" "type_bits SDS_TYPE_8 = 8" "type_bits SDS_TYPE_16 = 16"
  "type_bits SDS_TYPE_32 = 32" "type_bits SDS_TYPE_64 = 64"
  by (simp_all add: type_bits_def)

lemma sdsReqType_fits: "n < 2 ^ 64 \<Longrightarrow> n < 2 ^ type_bits (sdsReqType n)"
  by (simp add: sdsReqType_def)

lemma length_content: "sds_ok s \<Longrightarrow> length (content s) = hdr_len s"
  by (simp add: sds_ok_def content_def)

lemma sds_ok_len: "sds_ok s \<Longrightarrow> hdr_len s < 2 ^ type_bits (sds_flags s)" "sds_ok s \<Longrightarrow> hdr_len s < length (sds_buf s)"
  by (simp_all add: sds_ok_def)

lemma sdsnewlen_ok:
  assumes "n < 2 ^ 64" and "n \<le> length bs"
  shows "sds_ok (sdsnewlen junk (Init bs) n)" and "content (sdsnewlen junk (Init bs) n) = take n bs"
proof -
  let ?t = "if sdsReqType n = SDS_TYPE_5 \<and> n = 0 then SDS_TYPE_8 else sdsReqType n"
  have t: "n < 2 ^ type_bits ?t" using sdsReqType_fits [OF assms(1)] by auto
  have m: "(if n \<noteq> 0 then buf_write 0 (take n bs) (map junk [0..<n + 1]) else map junk [0..<n + 1])[n := 0] = take n bs @ [0]"
    using assms(2) by (auto simp: buf_write_def min_def list_update_append)
  have "sdsnewlen junk (Init bs) n = \<lparr>sds_flags = ?t, hdr_len = n, hdr_alloc = n, sds_buf = take n bs @ [0]\<rparr>"
    using t m by (cases "n = 0") (simp_all add: sdsnewlen_def Let_def del: upt_Suc)
  then show "sds_ok (sdsnewlen junk (Init bs) n)" "content (sdsnewlen junk (Init bs) n) = take n bs"
    using t assms(2) by (auto simp: sds_ok_def sdsalloc_def content_def nth_append min_def)
qed

lemma sdsempty_ok: "sds_ok (sdsempty junk)" "content (sdsempty junk) = []"
  using sdsnewlen_ok [of 0 "[]" junk] by (simp_all add: sdsempty_def)

lemma buf_write_junk:
  "length xs \<le> n \<Longrightarrow> buf_write 0 xs (map junk [0..<n]) = xs @ map junk [length xs..<n]"
  by (simp add: buf_write_def drop_map)

lemma sdsMakeRoomFor_ok:
  fixes junk
  assumes ok: "sds_ok s" and room: "sds_room s n"
  defines "s' \<equiv> sdsMakeRoomFor junk s n"
  shows "sds_ok s'" and "content s' = content s" and "hdr_len s' = hdr_len s" and "hdr_len s + n \<le> sdsalloc s'"
proof -
  have "sds_ok s' \<and> content s' = content s \<and> hdr_len s' = hdr_len s \<and> hdr_len s + n \<le> sdsalloc s'"
  proof (cases "sdsavail s \<ge> n")
    case True
    then show ?thesis using ok by (auto simp: s'_def sdsMakeRoomFor_def sds_ok_def sdsalloc_def sdsavail_def split: if_splits)
  next
    case False
    define len where "len = hdr_len s"
    define m where "m = (if len + n < SDS_MAX_PREALLOC then (len + n) * 2 else len + n + SDS_MAX_PREALLOC)"
    have l: "len + n < 2 ^ 62" using room by (simp add: sds_room_def len_def)
    have m: "m < 2 ^ 63" "len + n \<le> m" using l by (auto simp: m_def SDS_MAX_PREALLOC_def)
    have w: "(len + n) mod 2 ^ 64 = len + n" using l by simp
    have w': "(if len + n < SDS_MAX_PREALLOC then (len + n) * 2 else (len + n + SDS_MAX_PREALLOC) mod 2 ^ 64) = m"
      using l by (simp add: m_def SDS_MAX_PREALLOC_def)
    define t where "t = (if sdsReqType m = SDS_TYPE_5 then SDS_TYPE_8 else sdsReqType m)"
    have t: "t \<noteq> SDS_TYPE_5" "m < 2 ^ type_bits t" using sdsReqType_fits [of m] m(1) by (auto simp: t_def)
    have lb: "len < length (sds_buf s)" "sds_buf s ! len = 0" using ok by (auto simp: sds_ok_def len_def)
    have eq: "s' = sdssetalloc (if sds_flags s = t then s\<lparr>sds_buf := realloc_buf junk (m + 1) (sds_buf s)\<rparr>
        else sdssetlen (s\<lparr>sds_flags := t, sds_buf := buf_write 0 (take (len + 1) (sds_buf s)) (map junk [0..<m + 1])\<rparr>) len) m"
      using False unfolding s'_def sdsMakeRoomFor_def sdslen_def len_def [symmetric] Let_def w w' t_def [symmetric] by simp
    define b where "b = sds_buf s'"
    have b: "length b = m + 1" "take (len + 1) b = take (len + 1) (sds_buf s)"
      using lb m(2) unfolding b_def eq
      by (auto simp: sdssetalloc_def sdssetlen_def realloc_buf_def buf_write_junk min_def simp del: upt_Suc)
    have f: "sds_flags s' = t" "hdr_len s' = len" "hdr_alloc s' = m"
      using t m(2) unfolding eq by (auto simp: sdssetalloc_def sdssetlen_def len_def)
    have "b ! len = 0" using b lb by (metis less_add_one nth_take)
    moreover have "take len b = take len (sds_buf s)" using b(2) by (metis take_take min.absorb1 le_add1)
    ultimately show ?thesis using f b t m(2) by (simp add: sds_ok_def content_def sdsalloc_def b_def [symmetric] len_def [symmetric])
  qed
  then show "sds_ok s'" "content s' = content s" "hdr_len s' = hdr_len s" "hdr_len s + n \<le> sdsalloc s'" by auto
qed


text \<open>
  The writers after the room is made: writing \<open>t\<close> at offset \<open>k\<close> of a string that has room for
  it, terminating it and setting the length.
\<close>

lemma write_terminated:
  assumes ok: "sds_ok s" and k: "k \<le> hdr_len s" and fit: "k + length t \<le> sdsalloc s"
  defines "s' \<equiv> sdssetlen (s\<lparr>sds_buf := (buf_write k t (sds_buf s))[k + length t := 0]\<rparr>) (k + length t)"
  shows "sds_ok s'" and "content s' = take k (content s) @ t"
proof -
  have a: "sdsalloc s < length (sds_buf s)" "sdsalloc s < 2 ^ type_bits (sds_flags s)" "hdr_len s \<le> sdsalloc s"
    using ok by (simp_all add: sds_ok_def)
  have h: "hdr_len s' = k + length t" "sds_flags s' = sds_flags s" "hdr_alloc s' = hdr_alloc s"
    "sds_buf s' = (buf_write k t (sds_buf s))[k + length t := 0]"
    using a(2) fit by (simp_all add: s'_def sdssetlen_def)
  have l: "length (sds_buf s') = length (sds_buf s)" using a(1) fit by (simp add: h)
  have al: "sdsalloc s' \<le> sdsalloc s" "k + length t \<le> sdsalloc s'" using h fit by (auto simp: sdsalloc_def)
  have "sds_buf s' ! (k + length t) = 0" using a(1) fit by (simp add: h)
  then show "sds_ok s'" using a fit al l h by (simp add: sds_ok_def)
  have "take k (take (hdr_len s) (sds_buf s)) = take k (sds_buf s)" using k by (simp add: min_def)
  then show "content s' = take k (content s) @ t"
    using a(1) fit k by (simp add: content_def h buf_write_def)
qed

lemma sdscatlen_ok:
  assumes ok: "sds_ok s" and room: "sds_room s (length t)"
  shows "sds_ok (sdscatlen junk s t)" and "content (sdscatlen junk s t) = content s @ t"
proof -
  let ?r = "sdsMakeRoomFor junk s (length t)"
  note r = sdsMakeRoomFor_ok [OF ok room, of junk]
  have eq: "sdscatlen junk s t = sdssetlen (?r\<lparr>sds_buf := (buf_write (hdr_len s) t (sds_buf ?r))[hdr_len s + length t := 0]\<rparr>) (hdr_len s + length t)"
    by (simp add: sdscatlen_def sdslen_def sdssetlen_def Let_def)
  have "hdr_len s \<le> hdr_len ?r" using r(3) by simp
  note w = write_terminated [OF r(1) this r(4)]
  show "sds_ok (sdscatlen junk s t)" using w(1) by (simp add: eq)
  have "take (hdr_len s) (content ?r) = content s" using r(2) length_content [OF ok] by simp
  then show "content (sdscatlen junk s t) = content s @ t" using w(2) by (simp add: eq)
qed

lemma sdscpylen_ok:
  assumes ok: "sds_ok s" and room: "sds_room s (length t)"
  shows "sds_ok (sdscpylen junk s t)" and "content (sdscpylen junk s t) = t"
proof -
  define r where "r = (if sdsalloc s < length t then sdsMakeRoomFor junk s (length t - sdslen s) else s)"
  have "sds_room s (length t - sdslen s)" using room by (simp add: sds_room_def)
  from sdsMakeRoomFor_ok [OF ok this, of junk] ok
  have r: "sds_ok r" "0 + length t \<le> sdsalloc r" by (auto simp: r_def sdslen_def)
  have eq: "sdscpylen junk s t = sdssetlen (r\<lparr>sds_buf := (buf_write 0 t (sds_buf r))[0 + length t := 0]\<rparr>) (0 + length t)"
    by (simp add: sdscpylen_def r_def [symmetric] Let_def)
  note w = write_terminated [OF r(1) le0 r(2)]
  show "sds_ok (sdscpylen junk s t)" "content (sdscpylen junk s t) = t" using w by (simp_all add: eq)
qed

lemma sdsclear_ok:
  assumes ok: "sds_ok s"
  shows "sds_ok (sdsclear s)" and "content (sdsclear s) = []"
proof -
  have "sdsclear s = sdssetlen (s\<lparr>sds_buf := (buf_write 0 [] (sds_buf s))[0 + length ([] :: bytes) := 0]\<rparr>) (0 + length ([] :: bytes))"
    by (simp add: sdsclear_def sdssetlen_def buf_write_def Let_def)
  then show "sds_ok (sdsclear s)" "content (sdsclear s) = []"
    using write_terminated [OF ok le0, of "[]"] by simp_all
qed

text \<open>Shrinking to a piece of the string moved to its front.\<close>

lemma move_to_front:
  assumes ok: "sds_ok s" and n: "a + n \<le> hdr_len s"
  defines "b \<equiv> (if a \<noteq> 0 then memmove_buf 0 a n (sds_buf s) else sds_buf s)"
  defines "s' \<equiv> sdssetlen (s\<lparr>sds_buf := b[n := 0]\<rparr>) n"
  shows "sds_ok s'" and "content s' = take n (drop a (content s))"
proof -
  let ?t = "buf_read a n (sds_buf s)"
  have l: "hdr_len s < length (sds_buf s)" using sds_ok_len(2) [OF ok] .
  have t: "length ?t = n" using n l by simp
  have "b = buf_write 0 ?t (sds_buf s)"
  proof (cases "a = 0")
    case True
    then have "b = sds_buf s" by (simp add: b_def)
    also have "\<dots> = buf_write 0 (take n (sds_buf s)) (sds_buf s)"
      using n l by (simp add: buf_write_def)
    finally show ?thesis using True by (simp add: buf_read_def)
  qed (simp add: b_def memmove_buf_def)
  then have eq: "s' = sdssetlen (s\<lparr>sds_buf := (buf_write 0 ?t (sds_buf s))[0 + length ?t := 0]\<rparr>) (0 + length ?t)"
    using t by (simp add: s'_def)
  have "0 + length ?t \<le> sdsalloc s" using t n ok by (simp add: sds_ok_def)
  from write_terminated [OF ok le0 this] show "sds_ok s'" "content s' = take n (drop a (content s))"
    using n by (simp_all add: eq content_def buf_read_def drop_take min_def)
qed

section \<open>Slicing and trimming\<close>

text \<open>The byte_range that \<open>sdsrange\<close> documents: both ends count from the end when negative, and are clamped.\<close>

definition byte_range :: "int \<Rightarrow> int \<Rightarrow> 'a list \<Rightarrow> 'a list" where
  "byte_range i j xs =
     (let n = int (length xs); i = (if i < 0 then max 0 (n + i) else i); j = (if j < 0 then max 0 (n + j) else j)
      in take (nat (j - i + 1)) (drop (nat i) xs))"

lemma sdsrange_ok:
  assumes ok: "sds_ok s"
  shows "sds_ok (sdsrange s i j)" and "content (sdsrange s i j) = byte_range i j (content s)"
proof -
  define len where "len = int (hdr_len s)"
  define i' where "i' = (if i < 0 then (if len + i < 0 then 0 else len + i) else i)"
  define j' where "j' = (if j < 0 then (if len + j < 0 then 0 else len + j) else j)"
  define n where "n = (if i' > j' \<or> i' \<ge> len then 0 else if j' \<ge> len then len - i' else j' - i' + 1)"
  define a where "a = (if i' > j' then 0 else i')"
  have p: "0 \<le> i'" "0 \<le> j'" by (auto simp: i'_def j'_def)
  have sl: "byte_range i j (content s) = take (nat n) (drop (if n = 0 then 0 else nat a) (content s))"
  proof -
    have "byte_range i j (content s) = take (nat (j' - i' + 1)) (drop (nat i') (content s))"
      by (simp add: byte_range_def length_content [OF ok] len_def [symmetric] i'_def j'_def max_def Let_def)
    then show ?thesis using p length_content [OF ok] by (auto simp: n_def a_def len_def)
  qed
  show "sds_ok (sdsrange s i j)" and "content (sdsrange s i j) = byte_range i j (content s)"
  proof -
    have "sds_ok (sdsrange s i j) \<and> content (sdsrange s i j) = byte_range i j (content s)"
    proof (cases "len = 0")
      case True
      then show ?thesis using ok by (simp add: sdsrange_def sdslen_def len_def content_def byte_range_def)
    next
      case False
      have eq: "sdsrange s i j = sdssetlen (s\<lparr>sds_buf :=
          (if (if n = 0 then 0 else nat a) \<noteq> 0 then memmove_buf 0 (if n = 0 then 0 else nat a) (nat n) (sds_buf s) else sds_buf s)[nat n := 0]\<rparr>) (nat n)"
      proof -
        have pr: "(if (if i' > j' then 0 else j' - i' + 1) \<noteq> 0 then
            (if i' \<ge> len then (i', 0)
             else if j' \<ge> len then (i', if i' > len - 1 then 0 else len - 1 - i' + 1)
             else (i', if i' > j' then 0 else j' - i' + 1))
          else (0, if i' > j' then 0 else j' - i' + 1)) = (a, n)"
          by (auto simp: n_def a_def)
        have na: "(a \<noteq> 0 \<and> n \<noteq> 0) = ((if n = 0 then 0 else nat a) \<noteq> 0)" using p(1) by (auto simp: a_def)
        show ?thesis
          using False
          unfolding sdsrange_def sdslen_def len_def [symmetric] Let_def i'_def [symmetric] j'_def [symmetric] pr prod.case na
          by simp
      qed
      have "(if n = 0 then 0 else nat a) + nat n \<le> hdr_len s" using p by (auto simp: n_def a_def len_def)
      from move_to_front [OF ok this] show ?thesis unfolding eq sl by simp
    qed
    then show "sds_ok (sdsrange s i j)" "content (sdsrange s i j) = byte_range i j (content s)" by auto
  qed
qed


lemma trim_left_spec:
  assumes "0 \<le> sp" and "sp \<le> int n" and "n \<le> length b"
  shows "trim_left cset b sp (int n - 1) = sp + int (length (takeWhile (strchr_found cset) (drop (nat sp) (take n b))))"
  using assms
proof (induction "nat (int n - sp)" arbitrary: sp)
  case 0
  then show ?case by (simp add: trim_left.simps [of _ _ sp])
next
  case (Suc k)
  then have l: "sp < int n" by simp
  then have d: "drop (nat sp) (take n b) = b ! nat sp # drop (nat (sp + 1)) (take n b)"
    using Suc.prems by (subst Cons_nth_drop_Suc [symmetric]) (auto simp: nat_add_distrib)
  show ?case
  proof (cases "strchr_found cset (b ! nat sp)")
    case True
    then have "trim_left cset b sp (int n - 1) = trim_left cset b (sp + 1) (int n - 1)"
      using l Suc.prems by (simp add: trim_left.simps [of _ _ sp])
    also have "\<dots> = sp + 1 + int (length (takeWhile (strchr_found cset) (drop (nat (sp + 1)) (take n b))))"
      using Suc l by (intro Suc.hyps(1)) auto
    finally show ?thesis using True by (simp add: d)
  next
    case False
    then show ?thesis by (simp add: trim_left.simps [of _ _ sp] d)
  qed
qed

lemma trim_right_spec:
  assumes "sp \<le> ep"
  shows "sp \<le> trim_right cset b ep sp \<and> trim_right cset b ep sp \<le> ep \<and>
    (\<forall>k. trim_right cset b ep sp < k \<and> k \<le> ep \<longrightarrow> strchr_found cset (b ! nat k)) \<and>
    (trim_right cset b ep sp = sp \<or> \<not> strchr_found cset (b ! nat (trim_right cset b ep sp)))"
  using assms
proof (induction "nat (ep - sp)" arbitrary: ep)
  case 0
  then show ?case by (auto simp: trim_right.simps)
next
  case (Suc n)
  show ?case
  proof (cases "strchr_found cset (b ! nat ep)")
    case True
    then have eq: "trim_right cset b ep sp = trim_right cset b (ep - 1) sp" using Suc by (subst trim_right.simps) auto
    have ih: "sp \<le> trim_right cset b (ep - 1) sp \<and> trim_right cset b (ep - 1) sp \<le> ep - 1 \<and>
        (\<forall>k. trim_right cset b (ep - 1) sp < k \<and> k \<le> ep - 1 \<longrightarrow> strchr_found cset (b ! nat k)) \<and>
        (trim_right cset b (ep - 1) sp = sp \<or> \<not> strchr_found cset (b ! nat (trim_right cset b (ep - 1) sp)))"
      using Suc by (intro Suc.hyps(1)) auto
    moreover have "strchr_found cset (b ! nat k)" if "trim_right cset b (ep - 1) sp < k \<and> k \<le> ep" for k
      using ih True that by (cases "k = ep") auto
    ultimately show ?thesis unfolding eq by simp
  next
    case False
    then have "trim_right cset b ep sp = ep" by (simp add: trim_right.simps [of cset b ep sp])
    then show ?thesis using False Suc.prems by auto
  qed
qed

text \<open>Stripping the bytes that satisfy a predicate from both ends.\<close>

definition strip :: "('a \<Rightarrow> bool) \<Rightarrow> 'a list \<Rightarrow> 'a list" where
  "strip P xs = rev (dropWhile P (rev (dropWhile P xs)))"

lemma strip_split:
  assumes "xs = us @ ms @ vs" and "\<forall>x \<in> set us. P x" and "\<forall>x \<in> set vs. P x"
    and "ms = [] \<or> \<not> P (hd ms) \<and> \<not> P (last ms)" and "ms = [] \<Longrightarrow> vs = []"
  shows "strip P xs = ms"
proof (cases "ms = []")
  case True
  then have "xs = us" using assms(1,5) by simp
  then have d: "dropWhile P xs = []" using assms(2) by simp
  show ?thesis unfolding strip_def d using True by simp
next
  case False
  then have h: "\<not> P (hd ms)" "\<not> P (last ms)" using assms(4) by auto
  have "dropWhile P xs = dropWhile P (ms @ vs)" unfolding assms(1) using assms(2) by (intro dropWhile_append2) auto
  also have "\<dots> = ms @ vs" using h(1) False by (cases ms) auto
  finally have d: "dropWhile P xs = ms @ vs" .
  have "dropWhile P (rev vs @ rev ms) = dropWhile P (rev ms)" using assms(3) by (intro dropWhile_append2) auto
  also have "\<dots> = rev ms" using h(2) False by (cases ms rule: rev_cases) auto
  finally show ?thesis by (simp add: strip_def d)
qed

lemma sdstrim_ok:
  assumes ok: "sds_ok s"
  shows "sds_ok (sdstrim s cset)" and "content (sdstrim s cset) = strip (strchr_found cset) (content s)"
proof -
  let ?P = "strchr_found cset" and ?b = "sds_buf s"
  define n where "n = hdr_len s"
  have n: "n \<le> length ?b" using sds_ok_len(2) [OF ok] by (simp add: n_def)
  define sp where "sp = trim_left cset ?b 0 (int n - 1)"
  define ep where "ep = trim_right cset ?b (int n - 1) sp"
  define len where "len = (if sp > ep then 0 else nat (ep - sp + 1))"
  define u where "u = length (takeWhile ?P (content s))"
  have sp: "sp = int u" using trim_left_spec [of 0 n ?b cset] n by (simp add: sp_def u_def content_def n_def)
  have c: "length (content s) = n" "content s = take n ?b" using length_content [OF ok] by (simp_all add: n_def content_def)
  have u: "u \<le> n" using length_takeWhile_le [of ?P "content s"] c(1) by (simp add: u_def)
  have us: "\<forall>x \<in> set (take u (content s)). ?P x"
    by (metis u_def takeWhile_eq_take set_takeWhileD)
  have fin: "u + len \<le> n \<and> strip ?P (content s) = take len (drop u (content s))"
  proof (cases "u = n")
    case True
    have "len = 0" using True sp by (simp add: len_def ep_def trim_right.simps)
    moreover have "strip ?P (content s) = []"
      by (rule strip_split [of _ "content s" _ "[]"]) (use us True c in auto)
    ultimately show ?thesis using True by simp
  next
    case False
    then have un: "u < n" using u by simp
    then have nu: "\<not> ?P (content s ! u)" using nth_length_takeWhile [of ?P "content s"] c by (simp add: u_def)
    have r: "sp \<le> ep" "ep \<le> int n - 1" "\<And>k. ep < k \<Longrightarrow> k \<le> int n - 1 \<Longrightarrow> ?P (?b ! nat k)"
      "ep = sp \<or> \<not> ?P (?b ! nat ep)"
      using trim_right_spec [of sp "int n - 1" cset ?b] un by (auto simp: ep_def sp)
    then have len: "len = nat (ep - sp + 1)" "0 < len" "u + len \<le> n" "u + len - 1 = nat ep" using sp by (auto simp: len_def)
    have "strip ?P (content s) = take len (drop u (content s))"
    proof (rule strip_split [of _ "take u (content s)" _ "drop (u + len) (content s)"])
      show "content s = take u (content s) @ take len (drop u (content s)) @ drop (u + len) (content s)"
        by (metis append_take_drop_id drop_drop add.commute)
      show "\<forall>x \<in> set (drop (u + len) (content s)). ?P x"
      proof
        fix x
        assume "x \<in> set (drop (u + len) (content s))"
        then obtain k where "k < length (drop (u + len) (content s))" "drop (u + len) (content s) ! k = x"
          by (metis in_set_conv_nth)
        then have k: "u + len + k < n" "x = ?b ! (u + len + k)" using c n by auto
        then have "ep < int (u + len + k)" "int (u + len + k) \<le> int n - 1" using len by auto
        from r(3) [OF this] show "?P x" unfolding k(2) by (simp only: nat_int)
      qed
      have "hd (take len (drop u (content s))) = content s ! u" using len c by (simp add: hd_drop_conv_nth)
      moreover have "last (take len (drop u (content s))) = ?b ! nat ep"
      proof -
        have "length (take len (drop u (content s))) = len" using len(3) c(1) by simp
        then have "last (take len (drop u (content s))) = take len (drop u (content s)) ! (len - 1)"
          using len(2) by (metis last_conv_nth length_greater_0_conv)
        also have "\<dots> = content s ! (u + (len - 1))" using len(2,3) c(1) by simp
        also have "u + (len - 1) = nat ep" using len(2,4) by linarith
        also have "content s ! nat ep = ?b ! nat ep" using r(2) c(2) un by simp
        finally show ?thesis .
      qed
      ultimately show "take len (drop u (content s)) = [] \<or> \<not> ?P (hd (take len (drop u (content s)))) \<and>
          \<not> ?P (last (take len (drop u (content s))))"
        using nu r(4) sp un c by auto
      show "take len (drop u (content s)) = [] \<Longrightarrow> drop (u + len) (content s) = []" using len c by simp
    qed (rule us)
    then show ?thesis using len by simp
  qed
  have eq: "sdstrim s cset = sdssetlen (s\<lparr>sds_buf := (if u \<noteq> 0 then memmove_buf 0 u len ?b else ?b)[len := 0]\<rparr>) len"
    unfolding sdstrim_def sdslen_def n_def [symmetric] Let_def sp_def [symmetric] ep_def [symmetric] len_def [symmetric]
    using sp by simp
  show "sds_ok (sdstrim s cset)" "content (sdstrim s cset) = strip ?P (content s)"
    unfolding eq using move_to_front [OF ok, of u len] fin by (simp_all add: n_def)
qed

section \<open>Comparison is lexicographic\<close>

definition byte_less :: "(byte \<times> byte) set" where
  "byte_less = {(x, y). x < y}"

lemma memcmp_take: "n \<le> length xs \<Longrightarrow> n \<le> length ys \<Longrightarrow> memcmp xs ys n = memcmp (take n xs) (take n ys) n"
  by (induction xs ys n rule: memcmp.induct) auto

lemma memcmp_eq: "length xs = length ys \<Longrightarrow> memcmp xs ys (length ys) = 0 \<longleftrightarrow> xs = ys"
proof (induction xs arbitrary: ys)
  case (Cons x xs)
  then show ?case by (cases ys) (auto simp: word_uint_eq_iff)
qed simp

lemma memcmp_less: "length xs = length ys \<Longrightarrow> memcmp xs ys (length ys) < 0 \<longleftrightarrow> (xs, ys) \<in> lexord byte_less"
proof (induction xs arbitrary: ys)
  case (Cons x xs)
  then show ?case by (cases ys) (auto simp: byte_less_def word_less_def)
qed simp

lemma lexord_shorter:
  assumes "length us = length xs"
  shows "(us @ vs, xs @ ys) \<in> lexord r \<longleftrightarrow> (us, xs) \<in> lexord r \<or> us = xs \<and> (vs, ys) \<in> lexord r"
  using assms by (induction us xs rule: list_induct2) auto

lemma sdscmp_ok:
  assumes ok: "sds_ok s" "sds_ok t"
  shows "sdscmp s t = 0 \<longleftrightarrow> content s = content t" and "sdscmp s t < 0 \<longleftrightarrow> (content s, content t) \<in> lexord byte_less"
proof -
  let ?a = "content s" and ?b = "content t"
  define n where "n = min (length ?a) (length ?b)"
  define c where "c = memcmp (take n ?a) (take n ?b) n"
  have l: "hdr_len s = length ?a" "hdr_len t = length ?b" using length_content [OF ok(1)] length_content [OF ok(2)] by simp_all
  have n: "n \<le> length ?a" "n \<le> length ?b" by (simp_all add: n_def)
  then have nb: "n \<le> length (sds_buf s)" "n \<le> length (sds_buf t)" using l sds_ok_len(2) [OF ok(1)] sds_ok_len(2) [OF ok(2)] by auto
  have tk: "take n (sds_buf s) = take n ?a" "take n (sds_buf t) = take n ?b"
    using n by (simp_all add: content_def take_take)
  have m: "memcmp (sds_buf s) (sds_buf t) n = c" using memcmp_take [OF nb] tk by (simp add: c_def)
  have cmp: "sdscmp s t = (if c = 0 then if length ?a > length ?b then 1 else if length ?a < length ?b then -1 else 0 else c)"
  proof -
    have "(if hdr_len s < hdr_len t then hdr_len s else hdr_len t) = n" unfolding n_def l by (simp add: min_def)
    then show ?thesis unfolding sdscmp_def sdslen_def Let_def m by (simp only: m l)
  qed
  have e: "c = 0 \<longleftrightarrow> take n ?a = take n ?b" using memcmp_eq [of "take n ?a" "take n ?b"] n by (simp add: c_def)
  have lt: "c < 0 \<longleftrightarrow> (take n ?a, take n ?b) \<in> lexord byte_less" using memcmp_less [of "take n ?a" "take n ?b"] n by (simp add: c_def)
  have irr: "(xs, xs) \<notin> lexord byte_less" for xs by (rule lexord_irreflexive) (auto simp: byte_less_def)
  have sp: "(?a, ?b) \<in> lexord byte_less \<longleftrightarrow> (take n ?a, take n ?b) \<in> lexord byte_less \<or>
      take n ?a = take n ?b \<and> (drop n ?a, drop n ?b) \<in> lexord byte_less"
    using lexord_shorter [of "take n ?a" "take n ?b" "drop n ?a" "drop n ?b"] n by simp
  have eq: "?a = ?b \<longleftrightarrow> take n ?a = take n ?b \<and> length ?a = length ?b"
    by (auto simp: n_def)
  have d: "(drop n ?a, drop n ?b) \<in> lexord byte_less \<longleftrightarrow> length ?a < length ?b"
  proof (cases "length ?a \<le> length ?b")
    case True
    then have "drop n ?a = []" by (simp add: n_def)
    moreover have "drop n ?b = [] \<longleftrightarrow> \<not> length ?a < length ?b" using True by (auto simp: n_def)
    ultimately show ?thesis by (cases "drop n ?b") auto
  next
    case False
    then have "drop n ?b = []" by (simp add: n_def)
    then show ?thesis using False by simp
  qed
  show "sdscmp s t = 0 \<longleftrightarrow> ?a = ?b" using cmp e eq by auto
  show "sdscmp s t < 0 \<longleftrightarrow> (?a, ?b) \<in> lexord byte_less" using cmp e lt sp d irr by auto
qed

section \<open>Escaping round trip\<close>

lemma hex_chars: "d < 16 \<Longrightarrow> is_hex_digit (hex_char d) \<and> hex_digit_to_int (hex_char d) = d"
proof (cases "d < 10")
  case True
  then have "unat (hex_char d) = 48 + d" by (simp add: hex_char_def unat_of_nat del: of_nat_add)
  then show ?thesis using True by (simp add: is_hex_digit_def hex_digit_to_int_def)
next
  case False
  assume "d < 16"
  then have "unat (hex_char d) = 87 + d" using False by (simp add: hex_char_def unat_of_nat del: of_nat_add)
  then show ?thesis using False \<open>d < 16\<close> by (simp add: is_hex_digit_def hex_digit_to_int_def)
qed

lemma hex_bytes: "word_of_nat (unat (c :: byte) div 16 * 16 + unat c mod 16) = c"
  by simp

lemma repr_char_cases:
  obtains (esc) e where "repr_char c = [92, e]" "unescape e = c" "e \<noteq> 120" "e \<noteq> 0"
  | (plain) "repr_char c = [c]" "c \<noteq> 92" "c \<noteq> 34" "c \<noteq> 0"
  | (hex) "repr_char c = [92, 120, hex_char (unat c div 16), hex_char (unat c mod 16)]"
proof (cases "c \<in> {92, 34, 10, 13, 9, 7, 8}")
  case True
  then show thesis using esc by (auto simp: repr_char_def unescape_def)
next
  case False
  then have r: "repr_char c = (if isprint c then [c] else [92, 120, hex_char (unat c div 16), hex_char (unat c mod 16)])"
    by (simp add: repr_char_def)
  show thesis
  proof (cases "isprint c")
    case True
    then have "c \<noteq> 0" by (auto simp: isprint_def)
    then show thesis using plain r True False by simp
  next
    case False
    then show thesis using hex r by simp
  qed
qed

lemma split_token_repr:
  "split_token InQuotes (repr_char c @ rest) cur = split_token InQuotes rest (cur @ [c])"
proof (cases rule: repr_char_cases [of c, case_names esc plain hex])
  case (esc e)
  then show ?thesis by (subst split_token.simps) (simp add: pat_at_def)
next
  case plain
  then show ?thesis by (subst split_token.simps) (simp add: pat_at_def)
next
  case hex
  have "unat c div 16 < 16" using unat_byte_less [of c] by (simp add: less_mult_imp_div_less)
  then show ?thesis
    using hex hex_chars [of "unat c div 16"] hex_chars [of "unat c mod 16"] hex_bytes [of c]
    by (subst split_token.simps) (simp add: pat_at_def)
qed

lemma split_token_reprs:
  "split_token InQuotes (concat (map repr_char xs) @ rest) cur = split_token InQuotes rest (cur @ xs)"
  by (induction xs arbitrary: cur) (simp_all add: split_token_repr)

lemma split_token_quoted:
  assumes "rest = [] \<or> isspace (hd rest)"
  shows "split_token Plain (34 # concat (map repr_char xs) @ 34 # rest) [] = Some (xs, rest)"
proof -
  have "split_token Plain (34 # concat (map repr_char xs) @ 34 # rest) [] =
      split_token InQuotes (concat (map repr_char xs) @ 34 # rest) []"
    by (subst split_token.simps) (simp add: pat_at_def)
  also have "\<dots> = split_token InQuotes (34 # rest) xs" using split_token_reprs [of xs "34 # rest" "[]"] by simp
  also have "\<dots> = Some (xs, rest)"
    using assms by (subst split_token.simps) (cases rest; auto simp: pat_at_def)
  finally show ?thesis .
qed

lemma repr_nonzero: "0 \<notin> set (repr_char c)"
proof (cases rule: repr_char_cases [of c, case_names esc plain hex])
  case hex
  have "hex_char d \<noteq> 0" if "d < 16" for d using hex_chars [OF that] by (auto simp: is_hex_digit_def)
  moreover have "unat c div 16 < 16" using unat_byte_less [of c] by (simp add: less_mult_imp_div_less)
  moreover have "unat c mod 16 < 16" by simp
  ultimately have "hex_char (unat c div 16) \<noteq> 0" "hex_char (unat c mod 16) \<noteq> 0" by blast+
  then show ?thesis using hex by simp
qed auto

text \<open>A list of byte strings with a separator between them.\<close>

fun join_bytes :: "bytes \<Rightarrow> bytes list \<Rightarrow> bytes" where
  "join_bytes sep [] = []"
| "join_bytes sep [a] = a"
| "join_bytes sep (a # as) = a @ sep @ join_bytes sep as"

definition quoted :: "bytes \<Rightarrow> bytes" where
  "quoted p = 34 # concat (map repr_char p) @ [34]"

lemma length_quoted: "length (quoted p) \<le> 4 * length p + 2"
proof -
  have "length (concat (map repr_char p)) \<le> 4 * length p"
    by (induction p) (auto simp: repr_char_def)
  then show ?thesis by (simp add: quoted_def)
qed

lemma quoted_nonzero: "0 \<notin> set (quoted p)"
  using repr_nonzero by (auto simp: quoted_def)

lemma split_args_quoted:
  assumes "rest = [] \<or> isspace (hd rest)"
  shows "split_args (quoted p @ rest) v = split_args rest (v @ [p])"
proof -
  have "dropWhile isspace (quoted p @ rest) = quoted p @ rest" by (simp add: quoted_def isspace_def)
  then show ?thesis using split_token_quoted [OF assms, of p]
    by (subst split_args.simps) (simp add: quoted_def)
qed

lemma split_args_space: "isspace b \<Longrightarrow> split_args (b # rest) v = split_args rest v"
  by (subst (1 2) split_args.simps) simp

lemma split_args_quoted_list: "split_args (join_bytes [32] (map quoted args)) v = Some (v @ args)"
proof (induction "[32 :: byte]" args arbitrary: v rule: join_bytes.induct)
  case 1
  then show ?case by (subst split_args.simps) simp
next
  case (2 a)
  then show ?case using split_args_quoted [of "[]" a v] by (simp add: split_args.simps [of "[]"])
next
  case (3 a b as)
  have "split_args (quoted a @ 32 # join_bytes [32] (map quoted (b # as))) v
      = split_args (32 # join_bytes [32] (map quoted (b # as))) (v @ [a])"
    by (rule split_args_quoted) (simp add: isspace_def)
  also have "\<dots> = split_args (join_bytes [32] (map quoted (b # as))) (v @ [a])"
    by (rule split_args_space) (simp add: isspace_def)
  also have "\<dots> = Some (v @ a # b # as)" using 3 by simp
  finally show ?case by simp
qed

lemma cstr_nonzero: "0 \<notin> set xs \<Longrightarrow> cstr (xs @ 0 # ys) = xs"
  by (induction xs) (auto simp: cstr_def)

lemma cstr_content: "sds_ok s \<Longrightarrow> 0 \<notin> set (content s) \<Longrightarrow> cstr (sds_buf s) = content s"
proof -
  assume ok: "sds_ok s" and z: "0 \<notin> set (content s)"
  have "sds_buf s = content s @ 0 # drop (Suc (hdr_len s)) (sds_buf s)"
    using id_take_nth_drop [OF sds_ok_len(2) [OF ok]] ok by (simp only: content_def sds_ok_def)
  then have "cstr (sds_buf s) = cstr (content s @ 0 # drop (Suc (hdr_len s)) (sds_buf s))" by (rule arg_cong)
  then show ?thesis by (simp only: cstr_nonzero [OF z])
qed

section \<open>Sequences of appends\<close>

lemma sds_room_cat:
  assumes "sds_ok s" "sds_room s (n + length t)"
  shows "sds_room (sdscatlen junk s t) n" and "sds_room s (length t)"
proof -
  have r: "sds_room s (length t)" using assms(2) by (simp add: sds_room_def)
  then show "sds_room s (length t)" .
  have "length (content (sdscatlen junk s t)) = hdr_len s + length t"
    using sdscatlen_ok [OF assms(1) r, of junk] length_content [OF assms(1)] by simp
  then have "hdr_len (sdscatlen junk s t) = hdr_len s + length t"
    using length_content [OF sdscatlen_ok(1) [OF assms(1) r, of junk]] by simp
  then show "sds_room (sdscatlen junk s t) n" using assms(2) by (simp add: sds_room_def)
qed

lemma fold_sdscatlen:
  fixes junk
  assumes "sds_ok s" and "sds_room s (length (concat (map f xs)) + n)"
  defines "s' \<equiv> fold (\<lambda>x s. sdscatlen junk s (f x)) xs s"
  shows "sds_ok s' \<and> content s' = content s @ concat (map f xs) \<and> sds_room s' n"
  using assms(1,2) unfolding s'_def
proof (induction xs arbitrary: s)
  case (Cons x xs)
  have "sds_room s (length (concat (map f xs)) + n + length (f x))" using Cons.prems(2) by (simp add: algebra_simps)
  note r = sds_room_cat [OF Cons.prems(1) this]
  show ?case using Cons.IH [OF sdscatlen_ok(1) [OF Cons.prems(1) r(2)] r(1)] sdscatlen_ok(2) [OF Cons.prems(1) r(2)] by simp
qed simp

lemma sdscatrepr_ok:
  assumes ok: "sds_ok s" and room: "sds_room s (4 * length p + 2 + n)"
  shows "sds_ok (sdscatrepr junk s p)" and "content (sdscatrepr junk s p) = content s @ quoted p"
    and "sds_room (sdscatrepr junk s p) n"
proof -
  have "length (concat (map repr_char p)) \<le> 4 * length p" using length_quoted [of p] by (simp add: quoted_def)
  then have "sds_room s ((length (concat (map repr_char p)) + (1 + n)) + length [34 :: byte])"
    using room by (simp add: sds_room_def)
  note r1 = sds_room_cat [OF ok this]
  note s1 = sdscatlen_ok [OF ok r1(2), of junk]
  note f = fold_sdscatlen [OF s1(1) r1(1), of junk]
  let ?f = "fold (\<lambda>c s. sdscatlen junk s (repr_char c)) p (sdscatlen junk s [34])"
  have "sds_room ?f (n + length [34 :: byte])" using f by (simp add: add.commute)
  note r2 = sds_room_cat [OF _ this]
  note s2 = sdscatlen_ok [of ?f "[34]" junk]
  show "sds_ok (sdscatrepr junk s p)" "content (sdscatrepr junk s p) = content s @ quoted p"
    "sds_room (sdscatrepr junk s p) n"
    using f r2 s2 s1(2) by (simp_all add: sdscatrepr_def quoted_def)
qed

lemma join_loop_ok:
  assumes "sds_ok s" and "sds_room s (length (join_bytes sep as))"
  shows "sds_ok (join_loop junk s as sep) \<and> content (join_loop junk s as sep) = content s @ join_bytes sep as"
  using assms
proof (induction junk s as sep rule: join_loop.induct)
  case (2 junk join a sep)
  then show ?case using sdscatlen_ok by simp
next
  case (3 junk join a b as sep)
  let ?r = "join_bytes sep (b # as)"
  have "sds_room join ((length ?r + length sep) + length a)" using 3(3) by (simp add: algebra_simps)
  note r1 = sds_room_cat [OF 3(2) this]
  note s1 = sdscatlen_ok [OF 3(2) r1(2), of junk]
  note r2 = sds_room_cat [OF s1(1) r1(1)]
  note s2 = sdscatlen_ok [OF s1(1) r2(2), of junk]
  show ?case using 3(1) [OF s2(1) r2(1)] s1(2) s2(2) by simp
qed simp

section \<open>Splitting\<close>

definition sep_at :: "bytes \<Rightarrow> bytes \<Rightarrow> nat \<Rightarrow> bool" where
  "sep_at s sep i \<longleftrightarrow> take (length sep) (drop i s) = sep"

lemma sep_at_loop:
  assumes "sep \<noteq> []" and "int j < int (length s) - (int (length sep) - 1)"
  shows "(length sep = 1 \<and> s ! j = sep ! 0) \<or> memcmp (drop j s) sep (length sep) = 0 \<longleftrightarrow> sep_at s sep j"
proof -
  have l: "length sep \<le> length (drop j s)" "j < length s" using assms by (auto simp: Suc_le_eq neq_Nil_conv)
  have "memcmp (drop j s) sep (length sep) = 0 \<longleftrightarrow> sep_at s sep j"
    using memcmp_take [OF l(1) order_refl] memcmp_eq [of "take (length sep) (drop j s)" sep] l(1)
    by (simp add: sep_at_def)
  moreover have "sep_at s sep j" if "length sep = 1" "s ! j = sep ! 0"
    using that l(2) by (cases sep) (auto simp: sep_at_def take_Suc hd_drop_conv_nth)
  ultimately show ?thesis by blast
qed

lemma no_sep_piece:
  assumes "\<forall>i. a \<le> i \<and> i + length sep \<le> b \<longrightarrow> \<not> sep_at s sep i" and "sep \<noteq> []" and "b \<le> length s" "a \<le> b"
  shows "\<not> sublist sep (buf_read a (b - a) s)"
proof
  assume "sublist sep (buf_read a (b - a) s)"
  then obtain ps ss where e: "buf_read a (b - a) s = ps @ sep @ ss" by (auto simp: sublist_def)
  have "length (buf_read a (b - a) s) = b - a" using assms(3,4) by (simp add: buf_read_def)
  then have l: "length ps + length sep \<le> b - a" using arg_cong [OF e, of length] by simp
  have "take (length sep) (drop (length ps) (take (b - a) (drop a s))) = sep" using e by (simp add: buf_read_def)
  moreover have "take (length sep) (drop (length ps) (take (b - a) (drop a s))) = take (length sep) (drop (a + length ps) s)"
    using l by (simp add: drop_take take_take min_def add.commute)
  ultimately have "sep_at s sep (a + length ps)" by (simp add: sep_at_def)
  then show False using assms(1,4) l by auto
qed

lemma join_bytes_Cons: "ts \<noteq> [] \<Longrightarrow> join_bytes sep (t # ts) = t @ sep @ join_bytes sep ts"
  by (cases ts) auto

lemma split_loop_ok:
  assumes "sep \<noteq> []" and "start \<le> j" and "j \<le> length s" and "\<forall>i. start \<le> i \<and> i < j \<longrightarrow> \<not> sep_at s sep i"
  shows "\<exists>ts. split_loop s sep start j tokens = tokens @ ts \<and> ts \<noteq> [] \<and> join_bytes sep ts = drop start s \<and>
    (\<forall>t \<in> set ts. \<not> sublist sep t)"
  using assms
proof (induction s sep start j tokens rule: split_loop.induct)
  case (1 s sep start j tokens)
  show ?case
  proof (cases "int j < int (length s) - (int (length sep) - 1)")
    case False
    have "\<not> sep_at s sep i" if "start \<le> i" "i + length sep \<le> length s" for i
      using that False 1(6) by (cases "i < j") auto
    then have "\<not> sublist sep (buf_read start (length s - start) s)" using 1(3,4,5) by (intro no_sep_piece) auto
    then show ?thesis using False by (subst split_loop.simps) (auto simp: buf_read_def)
  next
    case True
    note m = sep_at_loop [OF 1(3) True]
    show ?thesis
    proof (cases "sep_at s sep j")
      case at: True
      have jl: "j + length sep \<le> length s" using True by simp
      let ?t = "buf_read start (j - start) s"
      obtain ts where ts: "split_loop s sep (j + length sep) (j + length sep) (tokens @ [?t]) = (tokens @ [?t]) @ ts"
        "ts \<noteq> []" "join_bytes sep ts = drop (j + length sep) s" "\<forall>t \<in> set ts. \<not> sublist sep t"
        using 1(1) [OF conjI [OF 1(3) True] m [THEN iffD2, OF at] 1(3) order_refl jl] by (metis leD)
      have eq: "split_loop s sep start j tokens = tokens @ ?t # ts"
        using 1(3) True m at ts(1) by (subst split_loop.simps) simp
      have "drop start s = ?t @ drop j s" using 1(4,5) by (simp add: buf_read_def) (metis append_take_drop_id drop_drop le_add_diff_inverse2)
      moreover have "drop j s = sep @ drop (j + length sep) s" using at by (metis append_take_drop_id drop_drop add.commute sep_at_def)
      ultimately have "join_bytes sep (?t # ts) = drop start s" using ts(2,3) by (simp add: join_bytes_Cons)
      moreover have "\<not> sublist sep ?t" using 1(3-6) by (intro no_sep_piece) (auto simp: neq_Nil_conv)
      ultimately show ?thesis unfolding eq using ts(4) by (intro exI [of _ "?t # ts"]) auto
    next
      case no: False
      have eq: "split_loop s sep start j tokens = split_loop s sep start (j + 1) tokens"
        using 1(3) True m no by (subst split_loop.simps) auto
      have "j + 1 \<le> length s" using True 1(3) by (cases sep) auto
      moreover have "\<forall>i. start \<le> i \<and> i < j + 1 \<longrightarrow> \<not> sep_at s sep i" using 1(6) no by (auto simp: less_Suc_eq)
      ultimately show ?thesis unfolding eq using 1(2) [OF conjI [OF 1(3) True] _ 1(3)] m no 1(4) by simp
    qed
  qed
qed

section \<open>Numbers\<close>

lemma reverse_loop_nth:
  assumes "j < length b"
  shows "length (reverse_loop b i j) = length b \<and>
    (\<forall>k < length b. reverse_loop b i j ! k = (if i \<le> k \<and> k \<le> j then b ! (i + j - k) else b ! k))"
  using assms
proof (induction b i j rule: reverse_loop.induct)
  case (1 b i j)
  show ?case
  proof (cases "i < j")
    case True
    let ?b = "b[i := b ! j, j := b ! i]"
    have ih: "length (reverse_loop ?b (i + 1) (j - 1)) = length ?b \<and>
      (\<forall>k < length ?b. reverse_loop ?b (i + 1) (j - 1) ! k =
         (if i + 1 \<le> k \<and> k \<le> j - 1 then ?b ! (i + 1 + (j - 1) - k) else ?b ! k))"
      using 1 True by (intro 1(1)) auto
    have e: "reverse_loop b i j = reverse_loop ?b (i + 1) (j - 1)" using True by (subst reverse_loop.simps) simp
    have "reverse_loop ?b (i + 1) (j - 1) ! k = (if i \<le> k \<and> k \<le> j then b ! (i + j - k) else b ! k)" if "k < length b" for k
    proof -
      consider "k = i" | "k = j" | "i < k" "k < j" | "k < i \<or> j < k" by linarith
      then show ?thesis using ih that True 1(2) by cases (auto simp: nth_list_update)
    qed
    then show ?thesis unfolding e using ih by simp
  next
    case False
    then show ?thesis by (auto simp: reverse_loop.simps [of b i j] dest: le_antisym)
  qed
qed

lemma reverse_loop_rev: "reverse_loop b 0 (length b - 1) = rev b"
proof (cases "b = []")
  case True
  then show ?thesis by (simp add: reverse_loop.simps)
next
  case False
  then show ?thesis using reverse_loop_nth [of "length b - 1" b 0] by (intro nth_equalityI) (auto simp: rev_nth)
qed

lemma rev_ull_digits: "rev (ull_digits v) = dec v"
proof (induction v rule: ull_digits.induct)
  case (1 v)
  then show ?case
    by (cases "v < 10") (simp_all add: ull_digits.simps [of v] dec.simps [of v] div_eq_0_iff)
qed

lemma sdsll2str_ok: "in_sint 64 v \<Longrightarrow> sdsll2str v = show_int v"
proof -
  assume "in_sint 64 v"
  then have "to_uint 64 (if v < 0 then - v else v) = nat \<bar>v\<bar>" by (simp add: to_uint_def in_sint_def)
  then show ?thesis
    unfolding sdsll2str_def Let_def reverse_loop_rev by (simp add: rev_ull_digits show_int_def)
qed

section \<open>Growing and shrinking\<close>

lemma buf_write_snoc:
  assumes "p + length bs < length m"
  shows "buf_write p (bs @ [x]) m = (buf_write p bs m)[p + length bs := x]"
  using assms by (intro nth_equalityI) (auto simp: nth_buf_write nth_list_update nth_append)

lemma sdsgrowzero_ok:
  assumes ok: "sds_ok s" and room: "n < 2 ^ 62"
  shows "sds_ok (sdsgrowzero junk s n)" and "content (sdsgrowzero junk s n) = content s @ replicate (n - hdr_len s) 0"
proof -
  have "sds_ok (sdsgrowzero junk s n) \<and> content (sdsgrowzero junk s n) = content s @ replicate (n - hdr_len s) 0"
  proof (cases "n \<le> hdr_len s")
    case True
    then show ?thesis using ok by (simp add: sdsgrowzero_def sdslen_def)
  next
    case False
    let ?r = "sdsMakeRoomFor junk s (n - hdr_len s)" and ?z = "replicate (n - hdr_len s) (0 :: byte)"
    have "sds_room s (n - hdr_len s)" using room False by (simp add: sds_room_def)
    note r = sdsMakeRoomFor_ok [OF ok this, of junk]
    have l: "n < length (sds_buf ?r)" using r(1,4) False by (simp add: sds_ok_def)
    have "buf_write (hdr_len s) (replicate (n - hdr_len s + 1) 0) (sds_buf ?r) = (buf_write (hdr_len s) ?z (sds_buf ?r))[hdr_len s + length ?z := 0]"
    proof -
      have "replicate (n - hdr_len s + 1) (0 :: byte) = ?z @ [0]" by (simp add: replicate_append_same)
      then show ?thesis using l False by (simp only:) (rule buf_write_snoc, simp)
    qed
    then have eq: "sdsgrowzero junk s n = sdssetlen (?r\<lparr>sds_buf := (buf_write (hdr_len s) ?z (sds_buf ?r))[hdr_len s + length ?z := 0]\<rparr>) (hdr_len s + length ?z)"
      using False by (simp add: sdsgrowzero_def sdslen_def Let_def)
    have "hdr_len s \<le> hdr_len ?r" "hdr_len s + length ?z \<le> sdsalloc ?r" using r(3,4) by simp_all
    from write_terminated [OF r(1) this] show ?thesis unfolding eq using r(2) length_content [OF ok] by simp
  qed
  then show "sds_ok (sdsgrowzero junk s n)" "content (sdsgrowzero junk s n) = content s @ replicate (n - hdr_len s) 0" by auto
qed

lemma sdsRemoveFreeSpace_ok:
  fixes junk
  assumes ok: "sds_ok s"
  defines "s' \<equiv> sdsRemoveFreeSpace junk s"
  shows "sds_ok s'" and "content s' = content s" and "sdsavail s' = 0"
proof -
  have "sds_ok s' \<and> content s' = content s \<and> sdsavail s' = 0"
  proof (cases "sdsavail s = 0")
    case True
    then show ?thesis using ok by (simp add: s'_def sdsRemoveFreeSpace_def)
  next
    case False
    define len where "len = hdr_len s"
    define t where "t = sdsReqType len"
    have lt: "len < 2 ^ type_bits (sds_flags s)" "len < length (sds_buf s)" "sds_buf s ! len = 0"
      using ok sds_ok_len [OF ok] by (simp_all add: len_def sds_ok_def)
    have "(2 :: nat) ^ type_bits (sds_flags s) \<le> 2 ^ 64" by (intro power_increasing) (cases "sds_flags s"; simp)+
    then have "len < 2 ^ type_bits t" using lt(1) unfolding t_def by (intro sdsReqType_fits) simp
    note lt = lt this
    have buf: "realloc_buf junk (len + 1) (sds_buf s) = take (len + 1) (sds_buf s)"
      "buf_write 0 (take (len + 1) (sds_buf s)) (map junk [0..<len + 1]) = take (len + 1) (sds_buf s)"
      using lt(2) by (simp_all add: realloc_buf_def buf_write_junk del: upt_Suc)
    define f where "f = (if sds_flags s = t \<or> type_rank t > type_rank SDS_TYPE_8 then sds_flags s else t)"
    have eq: "s' = sdssetalloc (s\<lparr>sds_flags := f, sds_buf := take (len + 1) (sds_buf s)\<rparr>) len"
      using False lt(4)
      unfolding s'_def sdsRemoveFreeSpace_def sdslen_def len_def [symmetric] Let_def t_def [symmetric] buf f_def
      by (simp add: sdssetlen_def len_def)
    have fl: "len < 2 ^ type_bits f" using lt(1,4) by (simp add: f_def)
    then have h: "sds_flags s' = f" "hdr_len s' = len" "sds_buf s' = take (len + 1) (sds_buf s)" "sdsalloc s' = len"
      by (simp_all add: eq sdssetalloc_def sdsalloc_def len_def)
    have "sdsavail s' = 0" using h(2,4) by (simp add: sdsavail_def sdsalloc_def split: if_splits)
    then show ?thesis using h lt(2,3) fl by (simp add: sds_ok_def content_def len_def)
  qed
  then show "sds_ok s'" "content s' = content s" "sdsavail s' = 0" by auto
qed

lemma map_prefix_ok:
  fixes f
  assumes ok: "sds_ok s"
  defines "s' \<equiv> s\<lparr>sds_buf := map f (take (sdslen s) (sds_buf s)) @ drop (sdslen s) (sds_buf s)\<rparr>"
  shows "sds_ok s'" and "content s' = map f (content s)"
  using ok sds_ok_len(2) [OF ok] by (auto simp: s'_def sds_ok_def content_def sdslen_def sdsalloc_def nth_append min_def split: if_splits)

section \<open>Sequences of operations\<close>

datatype sds_op =
    Cat bytes
  | Cpy bytes
  | Clear
  | Trim bytes
  | Range int int
  | GrowZero nat
  | MakeRoom nat
  | Shrink
  | Lower
  | Upper

fun sds_apply :: "(nat \<Rightarrow> byte) \<Rightarrow> sds_op \<Rightarrow> sds \<Rightarrow> sds" where
  "sds_apply junk (Cat t) s = sdscatlen junk s t"
| "sds_apply junk (Cpy t) s = sdscpylen junk s t"
| "sds_apply junk Clear s = sdsclear s"
| "sds_apply junk (Trim cset) s = sdstrim s cset"
| "sds_apply junk (Range i j) s = sdsrange s i j"
| "sds_apply junk (GrowZero n) s = sdsgrowzero junk s n"
| "sds_apply junk (MakeRoom n) s = sdsMakeRoomFor junk s n"
| "sds_apply junk Shrink s = sdsRemoveFreeSpace junk s"
| "sds_apply junk Lower s = sdstolower s"
| "sds_apply junk Upper s = sdstoupper s"

text \<open>What the operations mean for the byte string.\<close>

fun bytes_apply :: "sds_op \<Rightarrow> bytes \<Rightarrow> bytes" where
  "bytes_apply (Cat t) b = b @ t"
| "bytes_apply (Cpy t) b = t"
| "bytes_apply Clear b = []"
| "bytes_apply (Trim cset) b = strip (strchr_found cset) b"
| "bytes_apply (Range i j) b = byte_range i j b"
| "bytes_apply (GrowZero n) b = b @ replicate (n - length b) 0"
| "bytes_apply (MakeRoom n) b = b"
| "bytes_apply Shrink b = b"
| "bytes_apply Lower b = map tolower b"
| "bytes_apply Upper b = map toupper b"

fun op_growth :: "sds_op \<Rightarrow> nat" where
  "op_growth (Cat t) = length t"
| "op_growth (Cpy t) = length t"
| "op_growth (GrowZero n) = n"
| "op_growth (MakeRoom n) = n"
| "op_growth _ = 0"

lemma length_strip: "length (strip P xs) \<le> length xs"
proof -
  have "length (strip P xs) \<le> length (dropWhile P xs)" unfolding strip_def length_rev
    using length_dropWhile_le [of P "rev (dropWhile P xs)"] by simp
  also have "\<dots> \<le> length xs" by (rule length_dropWhile_le)
  finally show ?thesis .
qed

lemma bytes_apply_growth: "length (bytes_apply op b) \<le> length b + op_growth op"
  by (cases op) (auto simp: length_strip byte_range_def Let_def)

lemma sds_apply_ok:
  assumes ok: "sds_ok s" and room: "length (content s) + op_growth op < 2 ^ 62"
  shows "sds_ok (sds_apply junk op s) \<and> content (sds_apply junk op s) = bytes_apply op (content s)"
proof -
  have r: "sds_room s (op_growth op)" using room length_content [OF ok] by (simp add: sds_room_def)
  show ?thesis
    using ok r sdscatlen_ok sdscpylen_ok sdsclear_ok sdstrim_ok sdsrange_ok sdsMakeRoomFor_ok sdsRemoveFreeSpace_ok map_prefix_ok
      sdsgrowzero_ok [OF ok] room length_content [OF ok]
    by (cases op) (simp_all add: sdstolower_def sdstoupper_def)
qed

lemma sds_apply_seq:
  assumes "sds_ok s" and "length (content s) + sum_list (map op_growth ops) < 2 ^ 62"
  shows "sds_ok (fold (sds_apply junk) ops s) \<and> content (fold (sds_apply junk) ops s) = fold bytes_apply ops (content s)"
  using assms
proof (induction ops arbitrary: s)
  case (Cons op ops)
  have "length (content s) + op_growth op < 2 ^ 62" using Cons.prems(2) by simp
  note a = sds_apply_ok [OF Cons.prems(1) this, of junk]
  then have "length (content (sds_apply junk op s)) + sum_list (map op_growth ops) < 2 ^ 62"
    using Cons.prems(2) bytes_apply_growth [of op "content s"] by simp
  then show ?case using Cons.IH [of "sds_apply junk op s"] a by simp
qed simp

section \<open>Properties\<close>

text \<open>
  C8. A dynamic string refines a byte string: after any sequence of appends, copies, clears,
  trims, slices, zero extensions, reservations, shrinks and case changes on a new string, the
  string is well formed (its length is within its allocation, the allocation fits the header
  type and the buffer, and the terminator is in place) and its content is the byte string that
  the operations describe.  The sizes that appear are bounded by 4 exabytes.
\<close>

theorem sds_refines_bytes:
  assumes "length b + sum_list (map op_growth ops) < 2 ^ 62"
  shows "sds_ok (fold (sds_apply junk) ops (sdsnewlen junk (Init b) (length b))) \<and>
    content (fold (sds_apply junk) ops (sdsnewlen junk (Init b) (length b))) = fold bytes_apply ops b"
proof -
  have "length b < 2 ^ 64" using assms by simp
  note n = sdsnewlen_ok [OF this order_refl, of junk]
  show ?thesis using sds_apply_seq [OF n(1), of ops junk] n(2) assms by simp
qed

theorem sds_refines_bytes_witness:
  "content (fold (sds_apply (\<lambda>_. 7)) [Cat [32, 66], GrowZero 5, Range 1 (-2), Upper, Trim [32]] (sdsnewlen (\<lambda>_. 7) (Init [32, 97]) (length [32, 97 :: byte]))) = [65, 32, 66]"
  using sds_refines_bytes [of "[32, 97]" "[Cat [32, 66], GrowZero 5, Range 1 (-2), Upper, Trim [32]]" "\<lambda>_. 7"]
  by (simp add: byte_range_def strip_def strchr_found_def cstr_def toupper_def)

text \<open>
  C23. Escaping round trip: the quoted representation \<open>sdscatrepr\<close> makes of any byte string is
  split by \<open>sdssplitargs\<close> into that one string again, whatever bytes it holds.
\<close>

theorem sdssplitargs_sdscatrepr:
  assumes "length p < 2 ^ 59"
  shows "sdssplitargs (sds_buf (sdscatrepr junk (sdsempty junk) p)) = Some [p]"
proof -
  have "sds_room (sdsempty junk) (4 * length p + 2 + 0)"
    using assms length_content [OF sdsempty_ok(1), of junk] by (simp add: sds_room_def sdsempty_ok)
  note r = sdscatrepr_ok [OF sdsempty_ok(1) this, of junk]
  have "cstr (sds_buf (sdscatrepr junk (sdsempty junk) p)) = quoted p"
    using cstr_content [OF r(1)] r(2) quoted_nonzero [of p] by (simp add: sdsempty_ok)
  then show ?thesis using split_args_quoted_list [of "[p]" "[]"] by (simp add: sdssplitargs_def)
qed

theorem sdssplitargs_sdscatrepr_witness:
  "sdssplitargs (sds_buf (sdscatrepr (\<lambda>_. 1) (sdsempty (\<lambda>_. 1)) [0, 34, 92, 10, 255, 32, 97])) = Some [[0, 34, 92, 10, 255, 32, 97]]"
  using sdssplitargs_sdscatrepr [of "[0, 34, 92, 10, 255, 32, 97]" "\<lambda>_. 1"] by simp

text \<open>
  C24. Splitting and joining: \<open>sdssplitlen\<close> cuts a nonempty string into tokens none of which
  contains the separator, and \<open>sdsjoinsds\<close> of the tokens with the same separator is the
  string again.
\<close>

theorem sdssplitlen_sdsjoinsds:
  assumes "s \<noteq> []" and "sep \<noteq> []" and "length s < 2 ^ 62"
  shows "\<exists>ts. sdssplitlen s sep = Some ts \<and> (\<forall>t \<in> set ts. \<not> sublist sep t) \<and>
    content (sdsjoinsds junk (map (\<lambda>t. sdsnewlen junk (Init t) (length t)) ts) sep) = s"
proof -
  obtain ts where ts: "split_loop s sep 0 0 [] = ts" "join_bytes sep ts = s" "\<forall>t \<in> set ts. \<not> sublist sep t"
    using split_loop_ok [OF assms(2), of 0 0 s "[]"] by auto
  have "length t \<le> length (join_bytes sep ts)" if "t \<in> set ts" for t
    using that by (induction sep ts rule: join_bytes.induct) auto
  then have "map (\<lambda>t. content (sdsnewlen junk (Init t) (length t))) ts = ts"
    using assms(3) ts(2) by (intro map_idI) (fastforce simp: sdsnewlen_ok)
  then have "content (sdsjoinsds junk (map (\<lambda>t. sdsnewlen junk (Init t) (length t)) ts) sep) = content (join_loop junk (sdsempty junk) ts sep)"
    by (simp add: sdsjoinsds_def content_def sdslen_def comp_def)
  also have "\<dots> = s"
    using join_loop_ok [of "sdsempty junk" sep ts junk] sdsempty_ok [of junk] length_content [of "sdsempty junk"] ts(2) assms(3)
    by (simp add: sds_room_def)
  finally show ?thesis using assms(1,2) ts(1,3) by (simp add: sdssplitlen_def Suc_le_eq)
qed

theorem sdssplitlen_sdsjoinsds_witness:
  "\<exists>ts. sdssplitlen [97, 44, 44, 98, 44] [44] = Some ts \<and> (\<forall>t \<in> set ts. \<not> sublist [44] t) \<and>
    content (sdsjoinsds (\<lambda>_. 1) (map (\<lambda>t. sdsnewlen (\<lambda>_. 1) (Init t) (length t)) ts) [44]) = [97, 44, 44, 98, 44]"
  using sdssplitlen_sdsjoinsds [of "[97, 44, 44, 98, 44]" "[44]" "\<lambda>_. 1"] by simp

text \<open>
  C25. \<open>sdscmp\<close> decides equality of the contents and their lexicographic order as unsigned
  bytes, for strings that may hold NUL bytes.
\<close>

theorem sdscmp_lexicographic:
  assumes "sds_ok s" and "sds_ok t"
  shows "(sdscmp s t = 0 \<longleftrightarrow> content s = content t) \<and> (sdscmp s t < 0 \<longleftrightarrow> (content s, content t) \<in> lexord byte_less)"
  using sdscmp_ok [OF assms] by blast

theorem sdscmp_lexicographic_witness:
  "sdscmp (sdsempty (\<lambda>_. 0)) (sdsempty (\<lambda>_. 5)) = 0"
  using sdscmp_lexicographic [OF sdsempty_ok(1) sdsempty_ok(1), of "\<lambda>_. 0" "\<lambda>_. 5"] by (simp add: sdsempty_ok)

text \<open>
  C26. \<open>sdstrim\<close> removes from both ends the characters of the given set and also NUL bytes,
  which \<open>strchr\<close> finds at the terminator of the set.
\<close>

theorem sdstrim_strips:
  assumes "sds_ok s"
  shows "sds_ok (sdstrim s cset) \<and> content (sdstrim s cset) = strip (\<lambda>c. c \<in> set (cstr cset) \<or> c = 0) (content s)"
  using sdstrim_ok [OF assms, of cset] by (simp add: strchr_found_def [abs_def])

theorem sdstrim_strips_witness:
  "content (sdstrim (sdsnewlen (\<lambda>_. 1) (Init [0, 97, 0]) 3) [32]) = [97]"
  using sdstrim_strips [OF sdsnewlen_ok(1) [of 3 "[0, 97, 0]" "\<lambda>_. 1"], of "[32]"] sdsnewlen_ok(2) [of 3 "[0, 97, 0]" "\<lambda>_. 1"]
  by (simp add: strip_def cstr_def)

text \<open>
  C27. Number strings: the string \<open>sdsfromlonglong\<close> makes of a 64 bit integer is well formed,
  is its canonical decimal notation (the most negative value included) and is parsed back by
  \<open>string2ll\<close>.
\<close>

theorem sdsfromlonglong_correct:
  assumes "in_sint 64 v"
  shows "sds_ok (sdsfromlonglong junk v) \<and> content (sdsfromlonglong junk v) = show_int v \<and>
    string2ll (content (sdsfromlonglong junk v)) = Some v"
proof -
  have v: "nat \<bar>v\<bar> < 10 ^ 20" using assms by (auto simp: in_sint_def)
  have "length (show_int v) < 2 ^ 64"
    using length_dec_less [of 20 "nat \<bar>v\<bar>"] v by (auto simp: length_show_int digits10_eq abs_if)
  then show ?thesis
    using sdsnewlen_ok [of "length (show_int v)" "show_int v" junk] string2ll_complete [OF assms]
    by (simp add: sdsfromlonglong_def sdsll2str_ok [OF assms] Let_def)
qed

theorem sdsfromlonglong_correct_witness:
  "string2ll (content (sdsfromlonglong (\<lambda>_. 1) (- 9223372036854775808))) = Some (- 9223372036854775808)"
  by (intro sdsfromlonglong_correct [THEN conjunct2, THEN conjunct2]) (simp add: in_sint_def)

end
