(* ===== verification/Request.thy ===== *)
theory Request
  imports Replication Sds
begin

text \<open>
  \<open>networking.c\<close>: the input side of a client connection.  Bytes read from the socket are
  appended to the query buffer, which \<open>processInputBuffer\<close> cuts into commands of the
  inline or of the multi bulk protocol; a complete command is handed to \<open>processCommand\<close>.
  The query buffer is a dynamic string; \<open>qb_pos\<close> is the position of the parser in it.
  A failed \<open>serverAssert\<close> is \<open>None\<close>.  Log messages are left out.
\<close>

section \<open>State\<close>

datatype req_type = PROTO_REQ_NONE | PROTO_REQ_INLINE | PROTO_REQ_MULTIBULK

text \<open>
  \<open>argc\<close> is the length of \<open>argv\<close>; \<open>cmd\<close> is the name of the command in \<open>cmd->proc\<close>.
  \<open>calls\<close> is a history variable: the argument vectors handed to \<open>processCommand\<close>, in order.
\<close>

record req_client = repl_client +
  querybuf :: sds
  qb_pos :: nat
  pending_querybuf :: sds
  querybuf_peak :: nat
  reqtype :: req_type
  multibulklen :: nat
  bulklen :: int
  argv :: "robj list"
  cmd :: "bytes option"
  reploff :: int
  read_reploff :: int
  blocked_in_module :: bool
  calls :: "robj list list"

definition PROTO_IOBUF_LEN :: nat where "PROTO_IOBUF_LEN = 1024 * 16"
definition PROTO_INLINE_MAX_SIZE :: nat where "PROTO_INLINE_MAX_SIZE = 1024 * 64"
definition PROTO_MBULK_BIG_ARG :: nat where "PROTO_MBULK_BIG_ARG = 1024 * 32"

definition freeClientArgv :: "'b req_client_scheme \<Rightarrow> 'b req_client_scheme" where
  "freeClientArgv c = c\<lparr>argv := [], cmd := None\<rparr>"

definition resetClient :: "'b req_client_scheme \<Rightarrow> 'b req_client_scheme" where
  "resetClient c =
     (let prevcmd = cmd c;
          c = freeClientArgv c;
          c = c\<lparr>reqtype := PROTO_REQ_NONE, multibulklen := 0, bulklen := -1\<rparr>;
          c = (if CLIENT_MULTI \<notin> flags c \<and> prevcmd \<noteq> Some (ascii ''asking'')
               then c\<lparr>flags := flags c - {CLIENT_ASKING}\<rparr> else c);
          c = c\<lparr>flags := flags c - {CLIENT_REPLY_SKIP}\<rparr>
      in if CLIENT_REPLY_SKIP_NEXT \<in> flags c
         then c\<lparr>flags := insert CLIENT_REPLY_SKIP (flags c) - {CLIENT_REPLY_SKIP_NEXT}\<rparr> else c)"

section \<open>Protocol errors\<close>

definition setProtocolError :: "'b req_client_scheme \<Rightarrow> 'b req_client_scheme" where
  "setProtocolError c = c\<lparr>flags := insert CLIENT_CLOSE_AFTER_REPLY (flags c)\<rparr>"

definition protocol_error :: "(nat \<Rightarrow> nat) \<Rightarrow> string \<Rightarrow> 'a net_server_scheme \<times> 'b req_client_scheme \<Rightarrow>
    'a net_server_scheme \<times> 'b req_client_scheme" where
  "protocol_error usable err sc = map_prod id setProtocolError (addReplyError usable (ascii (''Protocol error: '' @ err)) sc)"

text \<open>\<open>strchr(b+pos,ch)\<close>: the offset in \<open>b\<close> of the first \<open>ch\<close> before the first NUL.\<close>

definition strchr_from :: "bytes \<Rightarrow> nat \<Rightarrow> byte \<Rightarrow> nat option" where
  "strchr_from b pos ch =
     (let l = cstr (drop pos b); k = length (takeWhile (\<lambda>x. x \<noteq> ch) l) in if k < length l then Some (pos + k) else None)"

section \<open>Inline requests\<close>

text \<open>The flag of the results is whether the C function returns \<open>C_OK\<close>.\<close>

definition processInlineBuffer :: "(nat \<Rightarrow> nat) \<Rightarrow> 'a net_server_scheme \<times> 'b req_client_scheme \<Rightarrow>
    ('a net_server_scheme \<times> 'b req_client_scheme) \<times> bool" where
  "processInlineBuffer usable sc =
     (let (s, c) = sc; b = sds_buf (querybuf c); pos = qb_pos c in
      case strchr_from b pos 10 of
        None \<Rightarrow>
          (if sdslen (querybuf c) - pos > PROTO_INLINE_MAX_SIZE
           then protocol_error usable ''too big inline request'' (s, c) else (s, c), False)
      | Some newline \<Rightarrow>
          (let (newline, linefeed_chars) =
                 (if newline \<noteq> pos \<and> b ! (newline - 1) = 13 then (newline - 1, 2) else (newline, 1));
               querylen = newline - pos
           in case sdssplitargs (buf_read pos querylen b) of
                None \<Rightarrow> (protocol_error usable ''unbalanced quotes in request'' (s, c), False)
              | Some args \<Rightarrow>
                  (let c = (if querylen = 0 \<and> CLIENT_SLAVE \<in> flags c then c\<lparr>repl_ack_time := unixtime s\<rparr> else c);
                       c = c\<lparr>qb_pos := pos + (querylen + linefeed_chars)\<rparr>
                   in ((s, c\<lparr>argv := map StrObj (filter (\<lambda>a. length a \<noteq> 0) args)\<rparr>), True))))"

section \<open>Multi bulk requests\<close>

text \<open>
  The line with the number of arguments.  The answer is \<open>Some r\<close> when the function returns
  there with \<open>r\<close>, and \<open>None\<close> when it goes on with the arguments.
\<close>

definition mbulk_header :: "(nat \<Rightarrow> nat) \<Rightarrow> 'a net_server_scheme \<times> 'b req_client_scheme \<Rightarrow>
    (('a net_server_scheme \<times> 'b req_client_scheme) \<times> bool option) option" where
  "mbulk_header usable sc =
     (let (s, c) = sc; b = sds_buf (querybuf c); pos = qb_pos c; len = sdslen (querybuf c) in
      if multibulklen c \<noteq> 0 then Some ((s, c), None)
      else if argv c \<noteq> [] then None
      else
        (case strchr_from b pos 13 of
           None \<Rightarrow>
             Some (if len - pos > PROTO_INLINE_MAX_SIZE then protocol_error usable ''too big mbulk count string'' (s, c)
                   else (s, c), Some False)
         | Some newline \<Rightarrow>
             if int newline - int pos > int len - int pos - 2 then Some ((s, c), Some False)
             else if b ! pos \<noteq> 42 then None
             else
               (case string2ll (buf_read (pos + 1) (newline - (pos + 1)) b) of
                  None \<Rightarrow> Some (protocol_error usable ''invalid multibulk length'' (s, c), Some False)
                | Some ll \<Rightarrow>
                    if ll > 1024 * 1024 then Some (protocol_error usable ''invalid multibulk length'' (s, c), Some False)
                    else
                      (let c = c\<lparr>qb_pos := newline + 2\<rparr> in
                       if ll \<le> 0 then Some ((s, c), Some True)
                       else Some ((s, c\<lparr>multibulklen := nat ll, argv := []\<rparr>), None)))))"

text \<open>
  The line with the length of an argument, read when \<open>bulklen\<close> is not known.  The flag is
  whether the loop goes on with the argument; otherwise the function returns \<open>C_ERR\<close>.
\<close>

definition bulk_header :: "(nat \<Rightarrow> nat) \<Rightarrow> (nat \<Rightarrow> byte) \<Rightarrow> 'a net_server_scheme \<times> 'b req_client_scheme \<Rightarrow>
    ('a net_server_scheme \<times> 'b req_client_scheme) \<times> bool" where
  "bulk_header usable junk sc =
     (let (s, c) = sc; b = sds_buf (querybuf c); pos = qb_pos c; len = sdslen (querybuf c) in
      if bulklen c \<noteq> -1 then ((s, c), True)
      else
        (case strchr_from b pos 13 of
           None \<Rightarrow>
             (if len - pos > PROTO_INLINE_MAX_SIZE then protocol_error usable ''too big bulk count string'' (s, c)
              else (s, c), False)
         | Some newline \<Rightarrow>
             if int newline - int pos > int len - int pos - 2 then ((s, c), False)
             else if b ! pos \<noteq> 36 then
               (map_prod id setProtocolError
                  (addReplyErrorFormat usable (cstr (ascii ''Protocol error: expected '' @ [39, 36, 39] @
                     ascii '', got '' @ [39, b ! pos, 39])) (s, c)), False)
             else
               (case string2ll (buf_read (pos + 1) (newline - (pos + 1)) b) of
                  None \<Rightarrow> (protocol_error usable ''invalid bulk length'' (s, c), False)
                | Some ll \<Rightarrow>
                    if ll < 0 \<or> ll > proto_max_bulk_len s then (protocol_error usable ''invalid bulk length'' (s, c), False)
                    else
                      (let c = c\<lparr>qb_pos := newline + 2\<rparr>;
                           c = (if ll \<ge> int PROTO_MBULK_BIG_ARG \<and> int len - int (qb_pos c) \<le> ll + 2
                                then c\<lparr>querybuf := sdsMakeRoomFor junk (sdsrange (querybuf c) (int (qb_pos c)) (- 1)) (nat (ll + 2)),
                                       qb_pos := 0\<rparr>
                                else c)
                       in ((s, c\<lparr>bulklen := ll\<rparr>), True)))))"

text \<open>
  The argument itself.  A big argument that fills the query buffer takes the buffer over:
  the object shares the string, which loses its CRLF, and the client gets a new buffer.
\<close>

definition bulk_argument :: "(nat \<Rightarrow> byte) \<Rightarrow> 'b req_client_scheme \<Rightarrow> ('b req_client_scheme \<times> bool) option" where
  "bulk_argument junk c =
     (if int (sdslen (querybuf c)) - int (qb_pos c) < bulklen c + 2 then Some (c, False)
      else if qb_pos c = 0 \<and> bulklen c \<ge> int PROTO_MBULK_BIG_ARG \<and> int (sdslen (querybuf c)) = bulklen c + 2 then
        (case sdsIncrLen (querybuf c) (- 2) of
           None \<Rightarrow> None
         | Some str \<Rightarrow>
             Some (c\<lparr>argv := argv c @ [StrObj (take (sdslen str) (sds_buf str))],
                     querybuf := sdsclear (sdsnewlen junk SDS_NOINIT (nat (bulklen c + 2))),
                     bulklen := -1, multibulklen := multibulklen c - 1\<rparr>, True))
      else
        Some (c\<lparr>argv := argv c @ [StrObj (buf_read (qb_pos c) (nat (bulklen c)) (sds_buf (querybuf c)))],
                qb_pos := qb_pos c + nat (bulklen c + 2),
                bulklen := -1, multibulklen := multibulklen c - 1\<rparr>, True))"

lemma bulk_header_multibulklen:
  "bulk_header usable junk (s, c) = ((s', c'), True) \<Longrightarrow> multibulklen c' = multibulklen c"
  unfolding bulk_header_def Let_def by (auto split: if_splits option.splits)

lemma bulk_argument_multibulklen:
  "bulk_argument junk c = Some (c', True) \<Longrightarrow> multibulklen c' = multibulklen c - 1"
  unfolding bulk_argument_def by (auto split: if_splits option.splits)

function mbulk_loop :: "(nat \<Rightarrow> nat) \<Rightarrow> (nat \<Rightarrow> byte) \<Rightarrow> 'a net_server_scheme \<times> 'b req_client_scheme \<Rightarrow>
    (('a net_server_scheme \<times> 'b req_client_scheme) \<times> bool) option" where
  "mbulk_loop usable junk sc =
     (if multibulklen (snd sc) = 0 then Some (sc, True)
      else
        (case bulk_header usable junk sc of
           (sc', ok) \<Rightarrow>
             if \<not> ok then Some (sc', False)
             else
               (case bulk_argument junk (snd sc') of
                  None \<Rightarrow> None
                | Some (c', ok) \<Rightarrow>
                    if \<not> ok then Some ((fst sc', c'), False) else mbulk_loop usable junk (fst sc', c'))))"
  by pat_completeness auto
termination
proof (relation "measure (\<lambda>(usable, junk, sc). multibulklen (snd sc))", goal_cases)
  case (2 usable junk sc sc' ok a c' ok')
  then have "bulk_header usable junk (fst sc, snd sc) = ((fst sc', snd sc'), True)" "bulk_argument junk (snd sc') = Some (c', True)" by simp_all
  then have "multibulklen c' = multibulklen (snd sc) - 1"
    using bulk_header_multibulklen bulk_argument_multibulklen by metis
  then show ?case using 2(1) by simp
qed simp

declare mbulk_loop.simps [simp del]

definition processMultibulkBuffer :: "(nat \<Rightarrow> nat) \<Rightarrow> (nat \<Rightarrow> byte) \<Rightarrow> 'a net_server_scheme \<times> 'b req_client_scheme \<Rightarrow>
    (('a net_server_scheme \<times> 'b req_client_scheme) \<times> bool) option" where
  "processMultibulkBuffer usable junk sc =
     (case mbulk_header usable sc of
        None \<Rightarrow> None
      | Some (sc, Some r) \<Rightarrow> Some (sc, r)
      | Some (sc, None) \<Rightarrow> if multibulklen (snd sc) > 0 then mbulk_loop usable junk sc else None)"

section \<open>The input buffer\<close>

text \<open>
  \<open>processCommand\<close> executes a command through the command table of the server: it is an
  argument, as is the answer of \<open>clientsArePaused\<close>.  It returns the server, the client
  (\<open>None\<close> when it was freed) and whether the result is \<open>C_OK\<close>.
\<close>

record ('s, 'c) req_env =
  process_command :: "'s \<times> 'c \<Rightarrow> ('s \<times> 'c option) \<times> bool"
  clients_paused :: bool

definition command_done :: "'b req_client_scheme \<Rightarrow> 'b req_client_scheme" where
  "command_done c =
     (let c = (if CLIENT_MASTER \<in> flags c \<and> CLIENT_MULTI \<notin> flags c
               then c\<lparr>reploff := read_reploff c - int (sdslen (querybuf c)) + int (qb_pos c)\<rparr> else c)
      in if CLIENT_BLOCKED \<notin> flags c \<or> \<not> blocked_in_module c then resetClient c else c)"

partial_function (option) input_loop ::
  "('a net_server_scheme, 'b req_client_scheme) req_env \<Rightarrow> (nat \<Rightarrow> nat) \<Rightarrow> (nat \<Rightarrow> byte) \<Rightarrow>
     'a net_server_scheme \<times> 'b req_client_scheme \<Rightarrow> ('a net_server_scheme \<times> 'b req_client_scheme option) option" where
  "input_loop env usable junk sc =
     (let (s, c) = sc in
      if \<not> qb_pos c < sdslen (querybuf c) then Some (s, Some c)
      else if CLIENT_SLAVE \<notin> flags c \<and> clients_paused env then Some (s, Some c)
      else if CLIENT_BLOCKED \<in> flags c then Some (s, Some c)
      else if lua_timedout s \<and> CLIENT_MASTER \<in> flags c then Some (s, Some c)
      else if CLIENT_CLOSE_AFTER_REPLY \<in> flags c \<or> CLIENT_CLOSE_ASAP \<in> flags c then Some (s, Some c)
      else
        (let c = (if reqtype c = PROTO_REQ_NONE then
                    (if sds_buf (querybuf c) ! qb_pos c = 42 then c\<lparr>reqtype := PROTO_REQ_MULTIBULK\<rparr>
                     else c\<lparr>reqtype := PROTO_REQ_INLINE\<rparr>)
                  else c)
         in case (if reqtype c = PROTO_REQ_INLINE then Some (processInlineBuffer usable (s, c))
                  else processMultibulkBuffer usable junk (s, c)) of
              None \<Rightarrow> None
            | Some ((s, c), ok) \<Rightarrow>
                if \<not> ok then Some (s, Some c)
                else if argv c = [] then input_loop env usable junk (s, resetClient c)
                else
                  (case process_command env (s, c\<lparr>calls := calls c @ [argv c]\<rparr>) of
                     ((s, None), ok) \<Rightarrow> Some (s, None)
                   | ((s, Some c), ok) \<Rightarrow> input_loop env usable junk (s, if ok then command_done c else c))))"

definition processInputBuffer ::
  "('a net_server_scheme, 'b req_client_scheme) req_env \<Rightarrow> (nat \<Rightarrow> nat) \<Rightarrow> (nat \<Rightarrow> byte) \<Rightarrow>
     'a net_server_scheme \<times> 'b req_client_scheme \<Rightarrow> ('a net_server_scheme \<times> 'b req_client_scheme option) option" where
  "processInputBuffer env usable junk sc =
     (case input_loop env usable junk sc of
        None \<Rightarrow> None
      | Some (s, None) \<Rightarrow> Some (s, None)
      | Some (s, Some c) \<Rightarrow>
          Some (s, Some (if qb_pos c \<noteq> 0 then c\<lparr>querybuf := sdsrange (querybuf c) (int (qb_pos c)) (- 1), qb_pos := 0\<rparr> else c)))"

definition processInputBufferAndReplicate ::
  "(repl_server, 'b req_client_scheme) req_env \<Rightarrow> (nat \<Rightarrow> nat) \<Rightarrow> (nat \<Rightarrow> byte) \<Rightarrow>
     repl_server \<times> 'b req_client_scheme \<Rightarrow> (repl_server \<times> 'b req_client_scheme option) option" where
  "processInputBufferAndReplicate env usable junk sc =
     (if CLIENT_MASTER \<notin> flags (snd sc) then processInputBuffer env usable junk sc
      else
        (let prev_offset = reploff (snd sc) in
         case processInputBuffer env usable junk sc of
           None \<Rightarrow> None
         | Some (s, None) \<Rightarrow> Some (s, None)
         | Some (s, Some c) \<Rightarrow>
             (let applied = to_uint 64 (reploff c - prev_offset) in
              if applied \<noteq> 0 then
                (case replicationFeedSlavesFromMasterStream usable (take applied (sds_buf (pending_querybuf c))) s of
                   None \<Rightarrow> None
                 | Some s \<Rightarrow> Some (s, Some (c\<lparr>pending_querybuf := sdsrange (pending_querybuf c) (int applied) (- 1)\<rparr>)))
              else Some (s, Some c))))"

section \<open>Reading from the socket\<close>

definition query_readlen :: "'b req_client_scheme \<Rightarrow> nat" where
  "query_readlen c =
     (if reqtype c = PROTO_REQ_MULTIBULK \<and> multibulklen c \<noteq> 0 \<and> bulklen c \<noteq> -1 \<and> bulklen c \<ge> int PROTO_MBULK_BIG_ARG then
        (let remaining = bulklen c + 2 - int (sdslen (querybuf c)) in
         if remaining > 0 \<and> remaining < int PROTO_IOBUF_LEN then nat remaining else PROTO_IOBUF_LEN)
      else PROTO_IOBUF_LEN)"

text \<open>The answer of \<open>read\<close>: the bytes it stores, end of file, nothing there yet, or an error.\<close>

datatype read_answer = ReadBytes bytes | ReadEof | ReadAgain | ReadError

text \<open>The client is \<open>None\<close> when it is freed.  \<open>read\<close> gets the size of the request.\<close>

definition readQueryFromClient ::
  "(repl_server, 'b req_client_scheme) req_env \<Rightarrow> (nat \<Rightarrow> nat) \<Rightarrow> (nat \<Rightarrow> byte) \<Rightarrow> (nat \<Rightarrow> read_answer) \<Rightarrow>
     repl_server \<times> 'b req_client_scheme \<Rightarrow> (repl_server \<times> 'b req_client_scheme option) option" where
  "readQueryFromClient env usable junk read sc =
     (let (s, c) = sc;
          readlen = query_readlen c;
          qblen = sdslen (querybuf c);
          c = (if querybuf_peak c < qblen then c\<lparr>querybuf_peak := qblen\<rparr> else c);
          c = c\<lparr>querybuf := sdsMakeRoomFor junk (querybuf c) readlen\<rparr>
      in case read readlen of
           ReadAgain \<Rightarrow> Some (s, Some c)
         | ReadError \<Rightarrow> Some (s, None)
         | ReadEof \<Rightarrow> Some (s, None)
         | ReadBytes data \<Rightarrow>
             (let q = querybuf c;
                  c = c\<lparr>querybuf := q\<lparr>sds_buf := buf_write qblen data (sds_buf q)\<rparr>\<rparr>;
                  c = (if CLIENT_MASTER \<in> flags c
                       then c\<lparr>pending_querybuf := sdscatlen junk (pending_querybuf c) data\<rparr> else c)
              in case sdsIncrLen (querybuf c) (int (length data)) of
                   None \<Rightarrow> None
                 | Some q \<Rightarrow>
                     (let c = c\<lparr>querybuf := q, lastinteraction := unixtime s\<rparr>;
                          c = (if CLIENT_MASTER \<in> flags c then c\<lparr>read_reploff := read_reploff c + int (length data)\<rparr> else c);
                          s = s\<lparr>stat_net_input_bytes := stat_net_input_bytes s + length data\<rparr>
                      in if sdslen (querybuf c) > client_max_querybuf_len s then Some (s, None)
                         else processInputBufferAndReplicate env usable junk (s, c))))"

end
