(* ===== verification/Request_Correct.thy ===== *)
theory Request_Correct
  imports Request Sds_Correct
begin

text \<open>
  Correctness of the request parser: the unparsed part of the query buffer, the header lines,
  one argument, the argument loop, the input loop and the reads, up to the statement that a
  stream of commands is executed the same way however it is cut into reads and that a
  replica relays what it applies; then malformed and inline requests.
\<close>

section \<open>The unparsed input\<close>

definition unread :: "'b req_client_scheme \<Rightarrow> bytes" where
  "unread c = drop (qb_pos c) (content (querybuf c))"

definition input_ok :: "'b req_client_scheme \<Rightarrow> bool" where
  "input_ok c \<longleftrightarrow> sds_ok (querybuf c) \<and> qb_pos c \<le> hdr_len (querybuf c)"

lemma length_unread: "input_ok c \<Longrightarrow> length (unread c) = sdslen (querybuf c) - qb_pos c"
  by (simp add: unread_def input_ok_def length_content sdslen_def)

lemma sds_buf_split: "sds_ok s \<Longrightarrow> sds_buf s = content s @ 0 # drop (Suc (hdr_len s)) (sds_buf s)"
  using id_take_nth_drop [OF sds_ok_len(2), of s] by (simp only: content_def sds_ok_def)

lemma drop_buf: "input_ok c \<Longrightarrow> \<exists>z. drop (qb_pos c) (sds_buf (querybuf c)) = unread c @ 0 # z"
proof -
  assume ok: "input_ok c"
  then have "sds_ok (querybuf c)" "qb_pos c \<le> length (content (querybuf c))" by (auto simp: input_ok_def length_content)
  then have "drop (qb_pos c) (content (querybuf c) @ 0 # drop (Suc (hdr_len (querybuf c))) (sds_buf (querybuf c))) =
      unread c @ 0 # drop (Suc (hdr_len (querybuf c))) (sds_buf (querybuf c))" by (simp add: unread_def)
  then show ?thesis using sds_buf_split [OF \<open>sds_ok (querybuf c)\<close>] by metis
qed

lemma nth_buf_unread: "input_ok c \<Longrightarrow> i < length (unread c) \<Longrightarrow> sds_buf (querybuf c) ! (qb_pos c + i) = unread c ! i"
  by (simp add: unread_def content_def input_ok_def sds_ok_def)

lemma buf_read_unread:
  "input_ok c \<Longrightarrow> i + n \<le> length (unread c) \<Longrightarrow> buf_read (qb_pos c + i) n (sds_buf (querybuf c)) = take n (drop i (unread c))"
proof -
  assume ok: "input_ok c" and l: "i + n \<le> length (unread c)"
  then have "i + n \<le> hdr_len (querybuf c) - qb_pos c" by (simp add: length_unread sdslen_def)
  then have "n \<le> hdr_len (querybuf c) - (qb_pos c + i)" by simp
  then show ?thesis by (simp add: buf_read_def unread_def content_def drop_take take_take add.commute min_absorb1)
qed

lemma takeWhile_neq: "x \<notin> set xs \<Longrightarrow> takeWhile (\<lambda>y. y \<noteq> x) (xs @ x # ys) = xs"
  by (induction xs) auto

lemma strchr_from_found:
  assumes "input_ok c" and "unread c = xs @ ch # ys" and "ch \<notin> set xs" and "0 \<notin> set xs" and "ch \<noteq> 0"
  shows "strchr_from (sds_buf (querybuf c)) (qb_pos c) ch = Some (qb_pos c + length xs)"
proof -
  obtain z where z: "drop (qb_pos c) (sds_buf (querybuf c)) = unread c @ 0 # z" using drop_buf [OF assms(1)] by blast
  have "cstr (drop (qb_pos c) (sds_buf (querybuf c))) = xs @ ch # cstr (ys @ 0 # z)"
    unfolding z assms(2) cstr_def using assms(4,5) by (induction xs) auto
  then show ?thesis using takeWhile_neq [OF assms(3)] by (simp add: strchr_from_def)
qed


section \<open>Header lines\<close>





section \<open>Buffer operations of the parser\<close>




section \<open>Frame\<close>






section \<open>One argument\<close>





section \<open>The argument loop\<close>










section \<open>Streams of commands\<close>












section \<open>The input loop\<close>
















section \<open>Reading and relaying\<close>












section \<open>Any fragmentation of the stream\<close>






section \<open>The replication stream through a replica\<close>














section \<open>Inline requests and errors\<close>

lemma repr_no_newline: "10 \<notin> set (repr_char b)" "13 \<notin> set (repr_char b)"
proof -
  have h: "hex_char d \<noteq> 10 \<and> hex_char d \<noteq> 13" if "d < 16" for d
    using hex_chars [OF that] by (auto simp: is_hex_digit_def)
  have "unat b div 16 < 16" "unat b mod 16 < 16" using unat_byte_less [of b] by (auto simp: less_mult_imp_div_less)
  then have "hex_char (unat b div 16) \<noteq> 10 \<and> hex_char (unat b div 16) \<noteq> 13" "hex_char (unat b mod 16) \<noteq> 10 \<and> hex_char (unat b mod 16) \<noteq> 13"
    using h by blast+
  then show "10 \<notin> set (repr_char b)" "13 \<notin> set (repr_char b)" by (auto simp: repr_char_def isprint_def)
qed

lemma quoted_no_newline: "10 \<notin> set (quoted p)" "13 \<notin> set (quoted p)"
  using repr_no_newline by (auto simp: quoted_def)

lemma set_join_bytes: "set (join_bytes sep ps) \<subseteq> set sep \<union> (\<Union>p \<in> set ps. set p)"
  by (induction sep ps rule: join_bytes.induct) auto

lemma quoted_line: "10 \<notin> set (join_bytes [32] (map quoted args))" "13 \<notin> set (join_bytes [32] (map quoted args))"
  "0 \<notin> set (join_bytes [32] (map quoted args))"
  using set_join_bytes [of "[32]" "map quoted args"] quoted_no_newline quoted_nonzero by fastforce+

lemma processInlineBuffer_line:
  assumes ok: "input_ok c" and u: "unread c = line @ CRLF @ rest" and l: "10 \<notin> set line" "0 \<notin> set line"
    and a: "sdssplitargs line = Some args"
  shows "\<exists>c'. processInlineBuffer usable (s, c) = ((s, c'), True) \<and> argv c' = map StrObj (filter (\<lambda>a. a \<noteq> []) args) \<and>
    unread c' = rest \<and> input_ok c'"
proof -
  have nl: "strchr_from (sds_buf (querybuf c)) (qb_pos c) 10 = Some (qb_pos c + length (line @ [13]))"
    by (rule strchr_from_found [OF ok, where ys = rest]) (use u l in auto)
  have cr: "sds_buf (querybuf c) ! (qb_pos c + length line) = 13"
    using nth_buf_unread [OF ok, of "length line"] u by simp
  have rd: "buf_read (qb_pos c) (length line) (sds_buf (querybuf c)) = line"
    using buf_read_unread [OF ok, of 0 "length line"] u by simp
  let ?c = "if length line = 0 \<and> CLIENT_SLAVE \<in> flags c then c\<lparr>repl_ack_time := unixtime s\<rparr> else c"
  let ?c' = "?c\<lparr>qb_pos := qb_pos c + (length line + 2), argv := map StrObj (filter (\<lambda>a. length a \<noteq> 0) args)\<rparr>"
  have "processInlineBuffer usable (s, c) = ((s, ?c'), True)"
    using nl cr rd a by (simp add: processInlineBuffer_def Let_def)
  moreover have "drop (length line + 2) (unread c) = rest" using u by simp
  then have "unread ?c' = rest" by (auto simp: unread_def add.commute)
  moreover have "length line + 2 \<le> length (unread c)" using u by simp
  then have "input_ok ?c'" using ok length_unread [OF ok] by (auto simp: input_ok_def sdslen_def)
  ultimately show ?thesis by auto
qed

lemma input_loop_closed:
  "CLIENT_CLOSE_AFTER_REPLY \<in> flags c \<Longrightarrow> input_loop env usable junk (s, c) = Some (s, Some c)"
  by (simp add: input_loop.simps)

lemma protocol_error_closes: "CLIENT_CLOSE_AFTER_REPLY \<in> flags (snd (protocol_error usable err sc))"
  by (simp add: protocol_error_def setProtocolError_def)

lemma bulk_header_malformed:
  assumes ok: "input_ok c" and b: "bulklen c = -1" and u: "unread c = line @ CRLF @ rest" and l: "13 \<notin> set line" "0 \<notin> set line"
    and bad: "line = [] \<or> hd line \<noteq> 36 \<or> (case string2ll (tl line) of None \<Rightarrow> True | Some ll \<Rightarrow> ll < 0 \<or> ll > proto_max_bulk_len s)"
  shows "\<not> snd (bulk_header usable junk (s, c)) \<and> CLIENT_CLOSE_AFTER_REPLY \<in> flags (snd (fst (bulk_header usable junk (s, c))))"
proof -
  let ?b = "sds_buf (querybuf c)"
  have nl: "strchr_from ?b (qb_pos c) 13 = Some (qb_pos c + length line)"
    by (rule strchr_from_found [OF ok, where ys = "10 # rest"]) (use u l in auto)
  have lf: "\<not> int (qb_pos c + length line) - int (qb_pos c) > int (sdslen (querybuf c)) - int (qb_pos c) - 2"
    using length_unread [OF ok] u ok by (simp add: input_ok_def sdslen_def)
  show ?thesis
  proof (cases "line = [] \<or> hd line \<noteq> 36")
    case True
    then have "?b ! qb_pos c \<noteq> 36" using nth_buf_unread [OF ok, of 0] u by (cases line) auto
    then show ?thesis using b nl lf by (simp add: bulk_header_def Let_def setProtocolError_def)
  next
    case False
    then obtain xs where x: "line = 36 # xs" by (cases line) auto
    have "?b ! qb_pos c = 36" using nth_buf_unread [OF ok, of 0] u x by simp
    moreover have "buf_read (qb_pos c + 1) (length xs) ?b = xs" using buf_read_unread [OF ok, of 1 "length xs"] u x by simp
    ultimately show ?thesis using b nl lf bad x
      by (cases "string2ll xs") (auto simp: bulk_header_def Let_def protocol_error_closes)
  qed
qed

section \<open>Properties\<close>


definition sample_env :: "(repl_server, req_client) req_env" where
  "sample_env = \<lparr>process_command = (\<lambda>(s, c). ((s, Some c), True)), clients_paused = False\<rparr>"

definition sample_link :: req_client where
  "sample_link = repl_client.extend (client.extend (sample_client\<lparr>flags := {CLIENT_MASTER}\<rparr>) (repl_client.fields 0 0 True))
     (req_client.fields (sdsempty (\<lambda>_. 0)) 0 (sdsempty (\<lambda>_. 0)) 0 PROTO_REQ_NONE 0 (- 1) [] None 100 100 False [])"





text \<open>
  C16. A malformed argument length ends the connection: when the line where a bulk length is
  expected does not start with a dollar sign, is not a canonical decimal number, is negative
  or exceeds \<open>proto_max_bulk_len\<close>, the parser answers with \<open>C_ERR\<close>, marks the client for closing,
  and the input loop processes nothing more of its buffer.
\<close>

theorem malformed_bulk_closes:
  assumes ok: "input_ok c" and b: "bulklen c = -1" "0 < multibulklen c" and u: "unread c = line @ CRLF @ rest"
    and l: "13 \<notin> set line" "0 \<notin> set line"
    and bad: "line = [] \<or> hd line \<noteq> 36 \<or> (case string2ll (tl line) of None \<Rightarrow> True | Some ll \<Rightarrow> ll < 0 \<or> ll > proto_max_bulk_len s)"
  shows "\<exists>s' c'. processMultibulkBuffer usable junk (s, c) = Some ((s', c'), False) \<and> CLIENT_CLOSE_AFTER_REPLY \<in> flags c' \<and>
    input_loop env usable junk (s', c') = Some (s', Some c')"
proof -
  obtain s' c' where h: "bulk_header usable junk (s, c) = ((s', c'), False)" "CLIENT_CLOSE_AFTER_REPLY \<in> flags c'"
    using bulk_header_malformed [OF ok b(1) u l bad, of usable junk] by (cases "bulk_header usable junk (s, c)") auto
  then have "processMultibulkBuffer usable junk (s, c) = Some ((s', c'), False)"
    using b(2) by (simp add: processMultibulkBuffer_def mbulk_header_def mbulk_loop.simps [of _ _ "(s, c)"])
  then show ?thesis using h(2) input_loop_closed by blast
qed

definition sample_mid :: req_client where
  "sample_mid = sample_link\<lparr>querybuf := sdsnewlen (\<lambda>_. 0) (Init [36, 45, 49, 13, 10]) 5, multibulklen := 2\<rparr>"

lemma sample_mid_ok: "input_ok sample_mid" "bulklen sample_mid = -1" "0 < multibulklen sample_mid" "unread sample_mid = [36, 45, 49] @ CRLF @ []"
  using sdsnewlen_ok [of 5 "[36, 45, 49, 13, 10]" "\<lambda>_. 0"]
  by (simp_all add: sample_mid_def sample_link_def input_ok_def unread_def repl_client.defs req_client.defs client.defs)

theorem malformed_bulk_closes_witness:
  "\<exists>s' c'. processMultibulkBuffer (\<lambda>n. n) (\<lambda>_. 7) (sample_repl, sample_mid) = Some ((s', c'), False) \<and> CLIENT_CLOSE_AFTER_REPLY \<in> flags c' \<and>
    input_loop sample_env (\<lambda>n. n) (\<lambda>_. 7) (s', c') = Some (s', Some c')"
proof -
  have "string2ll [45, 49] = Some (- 1)" using string2ll_complete [of "- 1"] by (simp add: show_int_def dec.simps digit_char_def in_sint_def)
  then show ?thesis
    by (intro malformed_bulk_closes [OF sample_mid_ok(1-4)]) simp_all
qed

text \<open>
  C17. Inline requests: a line of arguments in the quoted notation of \<open>sdscatrepr\<close>, separated by
  blanks, is read as those arguments, whatever bytes they hold, except that empty arguments
  are dropped; the parser stands behind the line.
\<close>

theorem inline_quoted_request:
  assumes "input_ok c" and "unread c = join_bytes [32] (map quoted args) @ CRLF @ rest"
  shows "\<exists>c'. processInlineBuffer usable (s, c) = ((s, c'), True) \<and> argv c' = map StrObj (filter (\<lambda>a. a \<noteq> []) args) \<and>
    unread c' = rest \<and> input_ok c'"
proof -
  let ?l = "join_bytes [32] (map quoted args)"
  have "\<forall>x \<in> set ?l. x \<noteq> 0" using quoted_line(3) by metis
  then have "cstr ?l = ?l" by (simp add: cstr_def)
  then have "sdssplitargs ?l = Some args" using split_args_quoted_list [of args "[]"] by (simp add: sdssplitargs_def)
  then show ?thesis using processInlineBuffer_line [OF assms quoted_line(1,3)] by blast
qed

definition sample_inline :: req_client where
  "sample_inline = sample_link\<lparr>querybuf := sdsnewlen (\<lambda>_. 0) (Init [34, 97, 34, 32, 34, 34, 13, 10]) 8\<rparr>"

lemma sample_inline_ok: "input_ok sample_inline" "unread sample_inline = join_bytes [32] (map quoted [[97], []]) @ CRLF @ []"
  using sdsnewlen_ok [of 8 "[34, 97, 34, 32, 34, 34, 13, 10]" "\<lambda>_. 0"]
  by (simp_all add: sample_inline_def sample_link_def input_ok_def unread_def repl_client.defs req_client.defs client.defs quoted_def repr_char_def isprint_def)

theorem inline_quoted_request_witness:
  "\<exists>c'. processInlineBuffer (\<lambda>n. n) (sample_repl, sample_inline) = ((sample_repl, c'), True) \<and> argv c' = [StrObj [97]] \<and> unread c' = []"
  using inline_quoted_request [OF sample_inline_ok, of "\<lambda>n. n" sample_repl] by auto

end
