(* ===== verification/Spec2Isabelle.thy ===== *)
theory Spec2Isabelle
  imports Controller_Correct Bitmaps Intset Util Glob Dict_Correct Networking Replication Sds_Correct Request_Correct
begin

text \<open>
  A verification library for the data store of the repository: Redis 5.0.5, under
  \<open>src/redis-service/redis-5.0.5/src\<close>.
\<close>

section \<open>From a master to its replica\<close>



end
